(* ===== verification/Prelude.thy ===== *)
theory Prelude
  imports Complex_Main "HOL-Library.Word" "HOL-Library.Multiset"
begin

text \<open>
  What the component theories share: the collections of rewrite and introduction rules the
  component proofs draw on, the type names of the program's machine integers, the C string
  functions the sources call (\<open>strncpy\<close>, \<open>strncmp\<close>, reading a \<open>char[]\<close> as a string), and
  generic lemmas on lists.
\<close>

section \<open>Collections\<close>

named_theorems fp_simps \<open>evaluation rules of the floating-point operations on finite values\<close>
named_theorems codec_simps \<open>length and round-trip rules of the wire codecs\<close>
named_theorems fifo_simps \<open>rules of the queue operations\<close>
named_theorems step_defs \<open>definitions of the atomic steps of the state machines\<close>

section \<open>Types of the sources\<close>

type_synonym byte = "8 word"
type_synonym u8 = "8 word"
type_synonym i8 = "8 word" \<comment> \<open>\<open>int8_t\<close>: read with \<^const>\<open>sint\<close>\<close>
type_synonym u16 = "16 word"
type_synonym u32 = "32 word"
type_synonym u64 = "64 word"
type_synonym i32 = "32 word" \<comment> \<open>\<open>int32_t\<close> / \<open>int\<close>: read with \<^const>\<open>sint\<close>\<close>
type_synonym bytes = "byte list"

abbreviation i32 :: "int \<Rightarrow> i32" where
  "i32 \<equiv> word_of_int"

lemma sint_i8: "- 128 \<le> sint (w :: i8)" "sint (w :: i8) \<le> 127"
  using sint_greater_eq[of w] sint_less[of w] by simp_all

lemma sint_i32: "- (2 ^ 31) \<le> sint (w :: i32)" "sint (w :: i32) < 2 ^ 31"
  using sint_greater_eq[of w] sint_less[of w] by simp_all

lemma sint_i32_of_int: "- (2 ^ 31) \<le> n \<Longrightarrow> n < 2 ^ 31 \<Longrightarrow> sint (i32 n) = n"
  by (simp add: sint_sbintrunc' signed_take_bit_int_eq_self)

text \<open>\<open>int\<close> addition and subtraction: a result that does not fit is undefined behaviour.\<close>

definition isub :: "int \<Rightarrow> int \<Rightarrow> int option" where
  "isub a b = (if - (2 ^ 31) \<le> a - b \<and> a - b < 2 ^ 31 then Some (a - b) else None)"

definition iadd :: "int \<Rightarrow> int \<Rightarrow> int option" where
  "iadd a b = (if - (2 ^ 31) \<le> a + b \<and> a + b < 2 ^ 31 then Some (a + b) else None)"

section \<open>C strings\<close>

text \<open>
  A \<open>char[n]\<close> array is a list of n characters; the string it holds is what precedes the
  first NUL. \<open>strncpy (dst, src, n)\<close> copies at most n characters and fills the rest of the
  n with NULs; it writes no terminator when the source is n characters or longer.
\<close>

abbreviation NUL :: char where
  "NUL \<equiv> CHR 0x00"

definition cstr :: "string \<Rightarrow> string" where
  "cstr s = takeWhile (\<lambda>c. c \<noteq> NUL) s"

definition strncpy :: "string \<Rightarrow> nat \<Rightarrow> string" where
  "strncpy src n = (let s = take n (cstr src) in s @ replicate (n - length s) NUL)"

text \<open>\<open>strncmp (a, b, n) = 0\<close>: equal up to the first NUL or the n-th character.\<close>

definition strneq :: "string \<Rightarrow> string \<Rightarrow> nat \<Rightarrow> bool" where
  "strneq a b n \<longleftrightarrow> take n (cstr a) = take n (cstr b)"

lemma length_strncpy [simp]: "length (strncpy src n) = n"
  by (simp add: strncpy_def Let_def)

lemma cstr_no_NUL [simp]: "NUL \<notin> set (cstr s)"
  by (auto simp: cstr_def dest: set_takeWhileD)

lemma cstr_id: "NUL \<notin> set s \<Longrightarrow> cstr s = s"
  by (auto simp: cstr_def takeWhile_eq_all_conv)

lemma cstr_idem [simp]: "cstr (cstr s) = cstr s"
  by (simp add: cstr_id)

lemma cstr_append_NUL: "NUL \<notin> set s \<Longrightarrow> cstr (s @ NUL # t) = s"
  by (induction s) (auto simp: cstr_def)

lemma cstr_strncpy: "cstr (strncpy src n) = take n (cstr src)"
proof -
  have no: "NUL \<notin> set (take n (cstr src))"
    by (meson cstr_no_NUL in_set_takeD)
  show ?thesis
  proof (cases "n - length (take n (cstr src))")
    case 0
    then have "strncpy src n = take n (cstr src)"
      by (simp add: strncpy_def)
    then show ?thesis using no by (simp add: cstr_id)
  next
    case (Suc k)
    then have eq: "strncpy src n = take n (cstr src) @ NUL # replicate k NUL"
      by (simp only: strncpy_def Let_def) simp
    show ?thesis unfolding eq by (rule cstr_append_NUL [OF no])
  qed
qed

lemma strneq_refl [simp]: "strneq a a n"
  by (simp add: strneq_def)

lemma strneq_sym: "strneq a b n \<longleftrightarrow> strneq b a n"
  by (auto simp: strneq_def)

section \<open>Lists\<close>

lemma take_append_exact [simp]: "length xs = n \<Longrightarrow> take n (xs @ ys) = xs"
  by simp

lemma drop_append_exact [simp]: "length xs = n \<Longrightarrow> drop n (xs @ ys) = ys"
  by simp

lemma length_concat_const:
  "(\<And>x. x \<in> set xs \<Longrightarrow> length (f x) = n) \<Longrightarrow> length (concat (map f xs)) = n * length xs"
  by (induction xs) (simp_all add: algebra_simps)

lemma mset_list_update_swap:
  "i < length xs \<Longrightarrow> mset (xs[i := y]) = add_mset y (mset xs - {#xs ! i#})"
  by (simp add: mset_update)

section \<open>Loops that may fail\<close>

text \<open>A \<open>for\<close> loop over the elements of a list whose body may be undefined (\<open>None\<close>).\<close>

fun foldo :: "('a \<Rightarrow> 's \<Rightarrow> 's option) \<Rightarrow> 'a list \<Rightarrow> 's \<Rightarrow> 's option" where
  "foldo f [] s = Some s"
| "foldo f (x # xs) s = Option.bind (f x s) (foldo f xs)"

lemma foldo_append: "foldo f (xs @ ys) s = Option.bind (foldo f xs s) (foldo f ys)"
  by (induction xs arbitrary: s) (simp_all split: Option.bind_split)

text \<open>The rule of a counted loop: an invariant indexed by the counter is established at the end,
  and the loop is defined.\<close>

lemma foldo_upt:
  assumes "a \<le> b" "P a s"
    and "\<And>k s. a \<le> k \<Longrightarrow> k < b \<Longrightarrow> P k s \<Longrightarrow> \<exists>s'. f k s = Some s' \<and> P (Suc k) s'"
  shows "\<exists>s'. foldo f [a..<b] s = Some s' \<and> P b s'"
  using assms
proof (induction "b - a" arbitrary: a s)
  case (Suc n)
  then have "a < b" by simp
  with Suc.prems obtain s1 where s1: "f a s = Some s1" "P (Suc a) s1" by blast
  have "\<exists>s'. foldo f [Suc a..<b] s1 = Some s' \<and> P b s'"
    using Suc.hyps(2) \<open>a < b\<close> s1 Suc.prems(3) by (intro Suc.hyps(1)) auto
  with s1 show ?case using \<open>a < b\<close> by (simp add: upt_conv_Cons)
qed simp

lemma foldo_inv:
  assumes "P s" "\<And>x s. x \<in> set xs \<Longrightarrow> P s \<Longrightarrow> \<exists>s'. f x s = Some s' \<and> P s'"
  shows "\<exists>s'. foldo f xs s = Some s' \<and> P s'"
  using assms
proof (induction xs arbitrary: s)
  case (Cons x xs)
  then obtain s1 where "f x s = Some s1" "P s1" by fastforce
  with Cons show ?case by simp
qed simp

text \<open>What every step keeps holds at the end of a loop that is defined.\<close>

lemma foldo_SomeD:
  assumes "foldo f xs s = Some s'" "P s"
    and "\<And>x s s'. x \<in> set xs \<Longrightarrow> P s \<Longrightarrow> f x s = Some s' \<Longrightarrow> P s'"
  shows "P s'"
  using assms
proof (induction xs arbitrary: s)
  case (Cons x xs)
  then obtain s1 where "f x s = Some s1" "foldo f xs s1 = Some s'"
    by (auto split: Option.bind_splits)
  with Cons show ?case by (metis list.set_intros)
qed simp

text \<open>The rule of a counted loop without failure.\<close>

lemma fold_upt:
  assumes "P 0 s" and "\<And>k s. k < n \<Longrightarrow> P k s \<Longrightarrow> P (Suc k) (f k s)"
  shows "P n (fold f [0..<n] s)"
  using assms(2)
proof (induction n)
  case (Suc n)
  then show ?case by simp
qed (use assms(1) in simp)

end
