(* ===== verification/IEEE_Float.thy ===== *)
theory IEEE_Float
  imports Prelude "HOL-Library.Log_Nat"
begin

text \<open>
  The arithmetic of C++ \<open>float\<close> (IEEE-754 binary32) and \<open>double\<close> (binary64), round to
  nearest, ties to even, as the sources use it: a value is NaN (one, without payload), an
  infinity, the negative zero, or a rational. Every operation computes the exact result and
  rounds it once. The definitions compute (\<open>code_simp\<close>); the lemmas give what the components
  need: rounding is monotone, keeps representable values and stays inside any representable
  interval. Expressions are evaluated operation by operation: no contraction into fused
  multiply-add and no excess precision.
\<close>

section \<open>Formats and rounding\<close>

datatype prec = F32 | F64

fun mbits :: "prec \<Rightarrow> nat" where
  "mbits F32 = 24"
| "mbits F64 = 53"

text \<open>The exponent of the smallest subnormal, and of the largest binade.\<close>

fun emin :: "prec \<Rightarrow> int" where
  "emin F32 = -149"
| "emin F64 = -1074"

fun emax :: "prec \<Rightarrow> int" where
  "emax F32 = 127"
| "emax F64 = 1023"

definition maxfin :: "prec \<Rightarrow> rat" where
  "maxfin p = of_int (2 ^ mbits p - 1) * 2 powi (emax p - int (mbits p) + 1)"

text \<open>The exponent of the binade of a positive rational: \<open>2 powi ilog2 v \<le> v < 2 powi (ilog2 v + 1)\<close>.\<close>

definition ilog2 :: "rat \<Rightarrow> int" where
  "ilog2 v = (case quotient_of v of (n, d) \<Rightarrow>
     let e = int (floorlog 2 (nat n)) - int (floorlog 2 (nat d))
     in if 2 powi e \<le> v then e else e - 1)"

text \<open>Rounding to an integer, ties to even; truncation towards zero.\<close>

definition rne :: "rat \<Rightarrow> int" where
  "rne v = (let f = \<lfloor>v\<rfloor>; r = v - of_int f
            in if r < 1 / 2 \<or> (r = 1 / 2 \<and> even f) then f else f + 1)"

definition rtrunc :: "rat \<Rightarrow> int" where
  "rtrunc v = (if 0 \<le> v then \<lfloor>v\<rfloor> else \<lceil>v\<rceil>)"

text \<open>The exponent of the unit in the last place of the results near \<open>v\<close>, and rounding to it.\<close>

definition ulpexp :: "prec \<Rightarrow> rat \<Rightarrow> int" where
  "ulpexp p v = max (ilog2 \<bar>v\<bar> - int (mbits p) + 1) (emin p)"

definition rnd :: "prec \<Rightarrow> rat \<Rightarrow> rat" where
  "rnd p v = (if v = 0 then 0
              else let u = 2 powi (ulpexp p v) in of_int (rne (v / u)) * u)"

section \<open>Values and operations\<close>

datatype fp = NaN | Inf bool \<comment> \<open>True: negative\<close> | NZero | Fin rat

text \<open>The rational a finite value stands for, and its sign bit.\<close>

fun fval :: "fp \<Rightarrow> rat" where
  "fval (Fin v) = v"
| "fval NZero = 0"
| "fval NaN = 0"
| "fval (Inf s) = 0"

fun is_fin :: "fp \<Rightarrow> bool" where
  "is_fin (Fin v) = True"
| "is_fin NZero = True"
| "is_fin NaN = False"
| "is_fin (Inf s) = False"

fun fneg_bit :: "fp \<Rightarrow> bool" where
  "fneg_bit (Fin v) = (v < 0)"
| "fneg_bit NZero = True"
| "fneg_bit NaN = False"
| "fneg_bit (Inf s) = s"

text \<open>Rounding an exact result into the format; \<open>s\<close> is the sign a zero result takes.\<close>

definition fround :: "prec \<Rightarrow> bool \<Rightarrow> rat \<Rightarrow> fp" where
  "fround p s v = (let r = rnd p v in
     if r = 0 then (if v < 0 \<or> (v = 0 \<and> s) then NZero else Fin 0)
     else if maxfin p < r then Inf False
     else if r < - maxfin p then Inf True
     else Fin r)"

fun fneg :: "fp \<Rightarrow> fp" where
  "fneg NaN = NaN"
| "fneg (Inf s) = Inf (\<not> s)"
| "fneg NZero = Fin 0"
| "fneg (Fin v) = (if v = 0 then NZero else Fin (- v))"

fun fabs :: "fp \<Rightarrow> fp" where
  "fabs NaN = NaN"
| "fabs (Inf s) = Inf False"
| "fabs NZero = Fin 0"
| "fabs (Fin v) = Fin \<bar>v\<bar>"

fun fadd :: "prec \<Rightarrow> fp \<Rightarrow> fp \<Rightarrow> fp" where
  "fadd p NaN y = NaN"
| "fadd p x NaN = NaN"
| "fadd p (Inf s) (Inf t) = (if s = t then Inf s else NaN)"
| "fadd p (Inf s) y = Inf s"
| "fadd p x (Inf t) = Inf t"
| "fadd p x y = fround p (fneg_bit x \<and> fneg_bit y) (fval x + fval y)"

definition fsub :: "prec \<Rightarrow> fp \<Rightarrow> fp \<Rightarrow> fp" where
  "fsub p x y = fadd p x (fneg y)"

fun fmul :: "prec \<Rightarrow> fp \<Rightarrow> fp \<Rightarrow> fp" where
  "fmul p NaN y = NaN"
| "fmul p x NaN = NaN"
| "fmul p (Inf s) y =
     (if is_fin y \<and> fval y = 0 then NaN else Inf (s \<noteq> fneg_bit y))"
| "fmul p x (Inf t) = (if fval x = 0 then NaN else Inf (fneg_bit x \<noteq> t))"
| "fmul p x y = fround p (fneg_bit x \<noteq> fneg_bit y) (fval x * fval y)"

fun fdiv :: "prec \<Rightarrow> fp \<Rightarrow> fp \<Rightarrow> fp" where
  "fdiv p NaN y = NaN"
| "fdiv p x NaN = NaN"
| "fdiv p (Inf s) (Inf t) = NaN"
| "fdiv p (Inf s) y = Inf (s \<noteq> fneg_bit y)"
| "fdiv p x (Inf t) = (if fneg_bit x \<noteq> t then NZero else Fin 0)"
| "fdiv p x y =
     (if fval y = 0
      then (if fval x = 0 then NaN else Inf (fneg_bit x \<noteq> fneg_bit y))
      else fround p (fneg_bit x \<noteq> fneg_bit y) (fval x / fval y))"

text \<open>Comparison: every comparison with NaN is false, and the two zeros are equal.\<close>

fun flt :: "fp \<Rightarrow> fp \<Rightarrow> bool" where
  "flt NaN y = False"
| "flt x NaN = False"
| "flt (Inf s) (Inf t) = (s \<and> \<not> t)"
| "flt (Inf s) y = s"
| "flt x (Inf t) = (\<not> t)"
| "flt x y = (fval x < fval y)"

fun fle :: "fp \<Rightarrow> fp \<Rightarrow> bool" where
  "fle NaN y = False"
| "fle x NaN = False"
| "fle (Inf s) (Inf t) = (s \<or> \<not> t)"
| "fle (Inf s) y = s"
| "fle x (Inf t) = (\<not> t)"
| "fle x y = (fval x \<le> fval y)"

text \<open>
  \<open>fmaxf\<close>/\<open>fminf\<close> of \<open>math.h\<close> (the number, when one argument is NaN) and \<open>std::max\<close>/\<open>std::min\<close>
  (the first argument, unless the comparison selects the second).
\<close>

definition fmax :: "fp \<Rightarrow> fp \<Rightarrow> fp" where
  "fmax x y = (if x = NaN then y else if y = NaN then x else if flt x y then y else x)"

definition fmin :: "fp \<Rightarrow> fp \<Rightarrow> fp" where
  "fmin x y = (if x = NaN then y else if y = NaN then x else if flt y x then y else x)"

definition std_fmax :: "fp \<Rightarrow> fp \<Rightarrow> fp" where
  "std_fmax a b = (if flt a b then b else a)"

definition std_fmin :: "fp \<Rightarrow> fp \<Rightarrow> fp" where
  "std_fmin a b = (if flt b a then b else a)"

text \<open>Conversions: between the formats, from integers, and truncation to \<open>int\<close> (undefined when
  the truncated value does not fit: \<open>None\<close>).\<close>

fun fconv :: "prec \<Rightarrow> fp \<Rightarrow> fp" where
  "fconv p NaN = NaN"
| "fconv p (Inf s) = Inf s"
| "fconv p NZero = NZero"
| "fconv p (Fin v) = fround p False v"

definition fof_int :: "prec \<Rightarrow> int \<Rightarrow> fp" where
  "fof_int p n = fround p False (of_int n)"

fun fto_int :: "fp \<Rightarrow> int option" where
  "fto_int NaN = None"
| "fto_int (Inf s) = None"
| "fto_int NZero = Some 0"
| "fto_int (Fin v) =
     (if - (2 ^ 31) \<le> rtrunc v \<and> rtrunc v < 2 ^ 31 then Some (rtrunc v) else None)"

section \<open>Rounding: monotone, odd, exact on representable values\<close>

lemma powi_less_iff: "(2::rat) powi i < 2 powi j \<longleftrightarrow> i < j"
  by (metis linorder_not_less one_less_numeral_iff power_int_increasing power_int_strict_increasing
      semiring_norm(76) order_less_imp_le)

lemma powi_le_iff: "(2::rat) powi i \<le> 2 powi j \<longleftrightarrow> i \<le> j"
  by (metis linorder_not_less powi_less_iff)

lemma powi_pos [simp]: "0 < (2::rat) powi i"
  by simp

lemma powi_split: "(2::rat) powi (i + j) = 2 powi i * 2 powi j"
  by (simp add: power_int_add)

lemma powi_nat: "(2::rat) powi int n = 2 ^ n"
  by (simp add: power_int_of_nat)

lemma floorlog_pow_bounds:
  assumes "0 < n"
  shows "(2::nat) ^ (floorlog 2 n - 1) \<le> n" "n < 2 ^ floorlog 2 n" "0 < floorlog 2 n"
  using floorlog_bounds[of n 2] assms by (auto simp: floorlog_def)

lemma floorlog_rat_bounds:
  assumes "0 < n"
  shows "2 powi (int (floorlog 2 (nat n)) - 1) \<le> rat_of_int n"
    and "rat_of_int n < 2 powi int (floorlog 2 (nat n))"
proof -
  obtain m where m: "n = int m" "0 < m" using assms by (metis nonneg_int_cases of_nat_0_less_iff less_imp_le)
  define k where "k = floorlog 2 m"
  have k: "2 ^ (k - 1) \<le> m" "m < 2 ^ k" "0 < k"
    using floorlog_pow_bounds[OF m(2)] by (simp_all add: k_def)
  have "rat_of_nat (2 ^ (k - 1)) \<le> rat_of_nat m" using k(1) by (simp only: of_nat_le_iff)
  moreover have "int k - 1 = int (k - 1)" using k(3) by simp
  ultimately show "2 powi (int (floorlog 2 (nat n)) - 1) \<le> rat_of_int n"
    by (simp only: m(1) nat_int flip: k_def) (simp only: powi_nat of_nat_power of_nat_numeral of_int_of_nat_eq)
  have "rat_of_nat m < rat_of_nat (2 ^ k)" using k(2) by (simp only: of_nat_less_iff)
  then show "rat_of_int n < 2 powi int (floorlog 2 (nat n))"
    by (simp only: m(1) nat_int flip: k_def) (simp only: powi_nat of_nat_power of_nat_numeral of_int_of_nat_eq)
qed

lemma ilog2_bounds:
  assumes "0 < v"
  shows "2 powi ilog2 v \<le> v" "v < 2 powi (ilog2 v + 1)"
proof -
  obtain n d where q: "quotient_of v = (n, d)" by (cases "quotient_of v")
  have d: "0 < d" using q by (rule quotient_of_denom_pos)
  have v: "v = of_int n / of_int d" using q by (rule quotient_of_div)
  have n: "0 < n" using assms d unfolding v by (simp add: zero_less_divide_iff)
  define bn bd where "bn = floorlog 2 (nat n)" and "bd = floorlog 2 (nat d)"
  have n1: "2 powi (int bn - 1) \<le> rat_of_int n" and n2: "rat_of_int n < 2 powi int bn"
    using floorlog_rat_bounds[OF n] by (simp_all add: bn_def)
  have d1: "2 powi (int bd - 1) \<le> rat_of_int d" and d2: "rat_of_int d < 2 powi int bd"
    using floorlog_rat_bounds[OF d] by (simp_all add: bd_def)
  define e where "e = int bn - int bd"
  have D0: "0 < rat_of_int d" using d by simp
  have lo: "2 powi (e - 1) \<le> v"
  proof -
    have "2 powi (e - 1) * rat_of_int d \<le> 2 powi (e - 1) * 2 powi int bd"
      using d2 by (simp add: mult_left_mono less_imp_le)
    also have "\<dots> = 2 powi (int bn - 1)" by (simp only: e_def flip: powi_split) simp
    also have "\<dots> \<le> rat_of_int n" by (rule n1)
    finally show ?thesis using D0 by (simp add: v pos_le_divide_eq)
  qed
  have hi: "v < 2 powi (e + 1)"
  proof -
    have "rat_of_int n < 2 powi int bn" by (rule n2)
    also have "\<dots> = 2 powi (e + 1) * 2 powi (int bd - 1)" by (simp only: e_def flip: powi_split) simp
    also have "\<dots> \<le> 2 powi (e + 1) * rat_of_int d" using d1 by (simp add: mult_left_mono)
    finally show ?thesis using D0 by (simp add: v pos_divide_less_eq)
  qed
  have il: "ilog2 v = (if 2 powi e \<le> v then e else e - 1)"
    by (simp add: ilog2_def q e_def bn_def bd_def Let_def)
  show "2 powi ilog2 v \<le> v" "v < 2 powi (ilog2 v + 1)"
    using lo hi by (auto simp: il)
qed

lemma ilog2_mono:
  assumes "0 < v" "v \<le> w"
  shows "ilog2 v \<le> ilog2 w"
proof -
  have "(2::rat) powi ilog2 v < 2 powi (ilog2 w + 1)"
    using ilog2_bounds(1)[of v] ilog2_bounds(2)[of w] assms by linarith
  then show ?thesis by (simp add: powi_less_iff)
qed

lemma rne_bounds: "of_int (rne v) \<le> v + 1 / 2" "v - 1 / 2 \<le> of_int (rne v)"
proof -
  have f: "of_int \<lfloor>v\<rfloor> \<le> v" "v < of_int \<lfloor>v\<rfloor> + 1" by linarith+
  have "rne v = \<lfloor>v\<rfloor> \<and> v - of_int \<lfloor>v\<rfloor> \<le> 1 / 2 \<or> rne v = \<lfloor>v\<rfloor> + 1 \<and> 1 / 2 \<le> v - of_int \<lfloor>v\<rfloor>"
    unfolding rne_def Let_def by auto
  with f show "of_int (rne v) \<le> v + 1 / 2" "v - 1 / 2 \<le> of_int (rne v)" by linarith+
qed

lemma rne_of_int [simp]: "rne (of_int n) = n"
  by (simp add: rne_def)

lemma rne_mono:
  assumes "v \<le> w"
  shows "rne v \<le> rne w"
proof (cases "\<lfloor>v\<rfloor> = \<lfloor>w\<rfloor>")
  case True
  with assms show ?thesis by (auto simp: rne_def Let_def)
next
  case False
  with assms have "\<lfloor>v\<rfloor> + 1 \<le> \<lfloor>w\<rfloor>" by (meson floor_mono less_le zless_imp_add1_zle)
  then show ?thesis by (auto simp: rne_def Let_def)
qed

lemma rne_minus: "rne (- v) = - rne v"
proof (cases "v = of_int \<lfloor>v\<rfloor>")
  case True
  then have "rne (- v) = rne (of_int (- \<lfloor>v\<rfloor>))" by simp
  also have "\<dots> = - \<lfloor>v\<rfloor>" by (rule rne_of_int)
  also have "\<dots> = - rne (of_int \<lfloor>v\<rfloor>)" by simp
  finally show ?thesis using True by simp
next
  case False
  then have lt: "of_int \<lfloor>v\<rfloor> < v" "v < of_int \<lfloor>v\<rfloor> + 1" by linarith+
  then have "\<lfloor>- v\<rfloor> = - \<lfloor>v\<rfloor> - 1" by (intro floor_unique) auto
  then show ?thesis using lt by (auto simp: rne_def Let_def)
qed

lemma ulpexp_minus [simp]: "ulpexp p (- v) = ulpexp p v"
  by (simp add: ulpexp_def)

lemma ulpexp_ge: "emin p \<le> ulpexp p v"
  by (simp add: ulpexp_def)

lemma rnd_0 [simp]: "rnd p 0 = 0"
  by (simp add: rnd_def)

lemma rnd_minus: "rnd p (- v) = - rnd p v"
  by (simp add: rnd_def Let_def rne_minus flip: minus_divide_left)

lemma ulp_scaled_less:
  assumes "0 < v"
  shows "v / 2 powi (ulpexp p v) < of_int (2 ^ mbits p)"
proof -
  have "ilog2 v + 1 \<le> int (mbits p) + ulpexp p v"
    using assms by (simp add: ulpexp_def)
  then have "(2::rat) powi (ilog2 v + 1) \<le> 2 powi (int (mbits p) + ulpexp p v)"
    by (simp only: powi_le_iff)
  with ilog2_bounds(2)[OF assms] have "v < 2 powi (int (mbits p) + ulpexp p v)" by linarith
  then show ?thesis by (simp add: pos_divide_less_eq powi_split powi_nat)
qed

lemma rnd_nonneg: "0 \<le> v \<Longrightarrow> 0 \<le> rnd p v"
  using rne_mono[of 0 "v / 2 powi (ulpexp p v)"] rne_of_int[of 0]
  by (simp add: rnd_def Let_def)

lemma rnd_mono_pos:
  assumes v: "0 < v" and le: "v \<le> w"
  shows "rnd p v \<le> rnd p w"
proof -
  have w: "0 < w" using v le by linarith
  define a b where "a = ulpexp p v" and "b = ulpexp p w"
  have rv: "rnd p v = of_int (rne (v / 2 powi a)) * 2 powi a"
    and rw: "rnd p w = of_int (rne (w / 2 powi b)) * 2 powi b"
    using v w by (simp_all add: rnd_def a_def b_def Let_def)
  have ab: "a \<le> b" using ilog2_mono[OF v le] v w by (simp add: a_def b_def ulpexp_def)
  show ?thesis
  proof (cases "a = b")
    case True
    have "rne (v / 2 powi b) \<le> rne (w / 2 powi b)"
      using le by (intro rne_mono divide_right_mono) auto
    then show ?thesis using True by (simp add: rv rw mult_right_mono)
  next
    case False
    with ab have lt: "a + 1 \<le> b" by simp
    have bi: "b = ilog2 w - int (mbits p) + 1"
      using False ab w ulpexp_ge[of p v] by (simp add: a_def b_def ulpexp_def)
    have "rne (v / 2 powi a) \<le> rne (of_int (2 ^ mbits p))"
      using ulp_scaled_less[OF v, of p] by (intro rne_mono) (simp add: a_def)
    then have "rnd p v \<le> of_int (2 ^ mbits p) * 2 powi a"
      unfolding rv rne_of_int by (intro mult_right_mono) (auto simp only: of_int_le_iff powi_pos less_imp_le)
    also have "\<dots> = 2 powi (int (mbits p) + a)" by (simp add: powi_split powi_nat)
    also have "\<dots> \<le> 2 powi (int (mbits p) + (b - 1))" using lt by (simp only: powi_le_iff)
    also have "\<dots> = of_int (2 ^ (mbits p - 1)) * 2 powi b"
    proof -
      have "int (mbits p) + (b - 1) = int (mbits p - 1) + b" by (cases p) simp_all
      then show ?thesis by (simp only: powi_split powi_nat of_int_power of_int_numeral)
    qed
    also have "\<dots> \<le> rnd p w"
    proof -
      have "2 powi (int (mbits p - 1) + b) \<le> w"
        using ilog2_bounds(1)[OF w] by (cases p) (simp_all add: bi)
      then have "of_int (2 ^ (mbits p - 1)) \<le> w / 2 powi b"
        by (simp add: pos_le_divide_eq powi_split powi_nat)
      then have "rne (of_int (2 ^ (mbits p - 1))) \<le> rne (w / 2 powi b)" by (rule rne_mono)
      then show ?thesis unfolding rw rne_of_int
        by (intro mult_right_mono) (auto simp only: of_int_le_iff powi_pos less_imp_le)
    qed
    finally show ?thesis .
  qed
qed

lemma rnd_mono:
  assumes "v \<le> w"
  shows "rnd p v \<le> rnd p w"
proof (cases "0 < v")
  case True
  then show ?thesis using assms by (rule rnd_mono_pos)
next
  case False
  show ?thesis
  proof (cases "w < 0")
    case True
    then have "rnd p (- w) \<le> rnd p (- v)" using assms by (intro rnd_mono_pos) auto
    then show ?thesis by (simp add: rnd_minus)
  next
    case w: False
    have "0 \<le> rnd p (- v)" using False by (intro rnd_nonneg) simp
    then have "rnd p v \<le> 0" by (simp add: rnd_minus)
    also have "0 \<le> rnd p w" using w by (intro rnd_nonneg) simp
    finally show ?thesis .
  qed
qed

section \<open>Representable values\<close>

definition frep :: "prec \<Rightarrow> rat \<Rightarrow> bool" where
  "frep p v \<longleftrightarrow> rnd p v = v"

lemma frep_minus [simp]: "frep p (- v) \<longleftrightarrow> frep p v"
  by (simp add: frep_def rnd_minus)

lemma frep_0 [simp]: "frep p 0"
  by (simp add: frep_def)

lemma powi_int_split:
  assumes "a \<le> e"
  shows "(2::rat) powi e = of_int (2 ^ nat (e - a)) * 2 powi a"
proof -
  have "(2::rat) powi e = 2 powi (int (nat (e - a)) + a)" using assms by simp
  then show ?thesis by (simp only: powi_split powi_nat of_int_power of_int_numeral)
qed

text \<open>A value with a mantissa of at most \<open>mbits\<close> bits, and an exponent in range, is kept.\<close>

lemma frepI_pos:
  assumes m: "0 < m" "m \<le> 2 ^ mbits p" and e: "emin p \<le> e"
  shows "frep p (of_int m * 2 powi e)"
proof -
  let ?v = "of_int m * 2 powi e :: rat"
  have v: "0 < ?v" using m by simp
  define u where "u = ulpexp p ?v"
  obtain k where k: "?v = of_int k * 2 powi u"
  proof (cases "u \<le> e")
    case True
    then have "?v = of_int (m * 2 ^ nat (e - u)) * 2 powi u"
      by (simp only: powi_int_split[OF True] of_int_mult mult.assoc)
    then show thesis by (rule that)
  next
    case False
    with e have u: "u = ilog2 ?v - int (mbits p) + 1"
      using v by (simp add: u_def ulpexp_def)
    have "2 powi (u + int (mbits p) - 1) \<le> ?v"
      using ilog2_bounds(1)[OF v] by (simp add: u)
    also have "\<dots> \<le> of_int (2 ^ mbits p) * 2 powi e"
      using m by (intro mult_right_mono) (auto simp only: of_int_le_iff powi_pos less_imp_le)
    finally have le: "2 powi (u + int (mbits p) - 1) \<le> (of_int (2 ^ mbits p) * 2 powi e :: rat)" .
    also have "\<dots> = 2 powi (int (mbits p) + e)"
      by (simp only: powi_split powi_nat of_int_power of_int_numeral)
    finally have "u \<le> e + 1" by (simp add: powi_le_iff)
    with False have ue: "u = e + 1" by simp
    then have "u + int (mbits p) - 1 = int (mbits p) + e" by simp
    then have "(2::rat) powi (u + int (mbits p) - 1) = of_int (2 ^ mbits p) * 2 powi e"
      by (simp only: powi_split powi_nat of_int_power of_int_numeral)
    with \<open>2 powi (u + int (mbits p) - 1) \<le> ?v\<close>
    have "of_int (2 ^ mbits p) * 2 powi e \<le> ?v" by simp
    then have "of_int (2 ^ mbits p) \<le> (of_int m :: rat)" by simp
    then have meq: "m = 2 ^ mbits p" using m by (simp only: of_int_le_iff)
    have "int (mbits p) + e = int (mbits p - 1) + u" using ue by (cases p) simp_all
    then have "(2::rat) powi (int (mbits p) + e) = 2 powi (int (mbits p - 1) + u)" by simp
    then have "?v = of_int (2 ^ (mbits p - 1)) * 2 powi u"
      unfolding meq of_int_power of_int_numeral by (simp only: powi_split powi_nat)
    then show thesis by (rule that)
  qed
  have "?v / 2 powi u = of_int k" by (simp add: k)
  then have "rnd p ?v = of_int k * 2 powi u"
    using v m by (simp add: rnd_def u_def Let_def)
  then show ?thesis by (simp add: frep_def k)
qed

lemma frepI:
  assumes "\<bar>m\<bar> \<le> 2 ^ mbits p" and "emin p \<le> e"
  shows "frep p (of_int m * 2 powi e)"
proof (cases "0 \<le> m")
  case True
  then show ?thesis using assms frepI_pos[of m p e] by (cases "m = 0") auto
next
  case False
  then have "frep p (- (of_int (- m) * 2 powi e))"
    using assms frepI_pos[of "- m" p e] by (simp only: frep_minus)
  then show ?thesis by simp
qed

lemma frep_of_int: "\<bar>m\<bar> \<le> 2 ^ mbits p \<Longrightarrow> frep p (of_int m)"
  using frepI[of m p 0] by (cases p) simp_all

lemma frep_numeral: "(numeral n :: int) \<le> 2 ^ mbits p \<Longrightarrow> frep p (numeral n)"
  using frep_of_int[of "numeral n" p] by simp

lemma frep_1 [simp]: "frep p 1"
  using frep_of_int[of 1 p] by simp

text \<open>The rounded value is representable, so rounding twice in a format is rounding once.\<close>

lemma frep_rnd [simp]: "frep p (rnd p v)"
proof -
  have pos: "frep p (rnd p v)" if v: "0 < v" for v
  proof -
    have "rne (v / 2 powi (ulpexp p v)) \<le> rne (of_int (2 ^ mbits p))"
      using ulp_scaled_less[OF v, of p] by (intro rne_mono) simp
    moreover have "rne (of_int 0) \<le> rne (v / 2 powi (ulpexp p v))"
      using v by (intro rne_mono) simp
    ultimately have "\<bar>rne (v / 2 powi (ulpexp p v))\<bar> \<le> 2 ^ mbits p"
      unfolding rne_of_int by simp
    from frepI[OF this ulpexp_ge] show ?thesis
      using v by (simp add: rnd_def Let_def)
  qed
  consider "v = 0" | "0 < v" | "0 < - v" by linarith
  then show ?thesis
  proof cases
    case 3
    from pos[OF this] show ?thesis by (simp add: rnd_minus)
  qed (auto intro: pos)
qed

lemma rnd_frep: "frep p v \<Longrightarrow> rnd p v = v"
  by (simp add: frep_def)

lemma rnd_le: "v \<le> b \<Longrightarrow> frep p b \<Longrightarrow> rnd p v \<le> b"
  using rnd_mono[of v b p] by (simp add: rnd_frep)

lemma rnd_ge: "a \<le> v \<Longrightarrow> frep p a \<Longrightarrow> a \<le> rnd p v"
  using rnd_mono[of a v p] by (simp add: rnd_frep)

lemma frep_maxfin [simp]: "frep p (maxfin p)"
  unfolding maxfin_def by (rule frepI) (cases p; simp)+

lemma maxfin_pos: "0 < maxfin p"
  by (cases p) (simp_all add: maxfin_def)

lemma maxfin_nonneg [simp]: "0 \<le> maxfin p"
  using maxfin_pos[of p] by simp

text \<open>The magnitude below which integers, and below which all finite arithmetic here, cannot overflow.\<close>

lemma big_le_maxfin: "2 ^ 100 \<le> maxfin p"
proof -
  have "(2::rat) ^ 100 = 2 powi int 100" by (simp only: powi_nat)
  also have "\<dots> \<le> 2 powi (emax p - int (mbits p) + 1)" by (cases p) (simp_all add: powi_le_iff)
  also have "\<dots> \<le> maxfin p" by (cases p) (simp_all add: maxfin_def)
  finally show ?thesis .
qed

section \<open>The operations on finite values\<close>

text \<open>Membership in a format: what a variable of type \<open>float\<close> or \<open>double\<close> can hold.\<close>

fun in_fmt :: "prec \<Rightarrow> fp \<Rightarrow> bool" where
  "in_fmt p (Fin v) \<longleftrightarrow> frep p v \<and> \<bar>v\<bar> \<le> maxfin p"
| "in_fmt p NZero = True"
| "in_fmt p NaN = True"
| "in_fmt p (Inf s) = True"

lemma in_fmt_fround [simp]: "in_fmt p (fround p s v)"
  using maxfin_pos[of p] by (auto simp: fround_def Let_def)

lemma fround_fin:
  assumes "\<bar>v\<bar> \<le> maxfin p"
  shows "is_fin (fround p s v)" and "fval (fround p s v) = rnd p v"
proof -
  have "v \<le> maxfin p" "- maxfin p \<le> v" using assms by linarith+
  then have "rnd p v \<le> maxfin p" "- maxfin p \<le> rnd p v"
    by (simp_all add: rnd_le rnd_ge)
  then show "is_fin (fround p s v)" and "fval (fround p s v) = rnd p v"
    by (auto simp: fround_def Let_def)
qed

lemma fround_exact: "frep p v \<Longrightarrow> v \<noteq> 0 \<Longrightarrow> \<bar>v\<bar> \<le> maxfin p \<Longrightarrow> fround p s v = Fin v"
  by (auto simp: fround_def Let_def rnd_frep)

lemma fround_0: "fround p s 0 = (if s then NZero else Fin 0)"
  by (simp add: fround_def)

lemma fround_not_NaN [simp]: "fround p s v \<noteq> NaN"
  by (simp add: fround_def Let_def)

lemma fround_int:
  assumes "\<bar>n\<bar> \<le> 2 ^ mbits p"
  shows "fround p False (of_int n) = Fin (of_int n)"
proof (cases "n = 0")
  case True
  then show ?thesis by (simp add: fround_0)
next
  case False
  have "\<bar>rat_of_int n\<bar> = rat_of_int \<bar>n\<bar>" by simp
  also have "\<dots> \<le> rat_of_int (2 ^ mbits p)" using assms by (simp only: of_int_le_iff)
  also have "\<dots> \<le> 2 ^ 100" by (cases p) simp_all
  also have "\<dots> \<le> maxfin p" by (rule big_le_maxfin)
  finally have "\<bar>rat_of_int n\<bar> \<le> maxfin p" .
  with False assms show ?thesis by (intro fround_exact frep_of_int) auto
qed

lemma fof_int_exact [fp_simps]: "\<bar>n\<bar> \<le> 2 ^ mbits p \<Longrightarrow> fof_int p n = Fin (of_int n)"
  unfolding fof_int_def by (rule fround_int)

text \<open>Evaluation on integers that fit the significand.\<close>

lemma fround_numeral [fp_simps]:
  "numeral n \<le> (2::int) ^ mbits p \<Longrightarrow> fround p s (numeral n) = Fin (numeral n)"
  "numeral n \<le> (2::int) ^ mbits p \<Longrightarrow> fround p s (- numeral n) = Fin (- numeral n)"
  "fround p s 1 = Fin 1" "fround p s (-1) = Fin (-1)" 
proof -
  have *: "fround p s v = fround p False v" if "v \<noteq> 0" for v
    using that by (simp add: fround_def)
  show "numeral n \<le> (2::int) ^ mbits p \<Longrightarrow> fround p s (numeral n) = Fin (numeral n)"
    using fround_int[of "numeral n" p] by (subst *) simp_all
  show "numeral n \<le> (2::int) ^ mbits p \<Longrightarrow> fround p s (- numeral n) = Fin (- numeral n)"
    using fround_int[of "- numeral n" p] by (subst *) simp_all
  show "fround p s 1 = Fin 1" using fround_int[of 1 p] by (subst *) simp_all
  show "fround p s (-1) = Fin (-1)" using fround_int[of "-1" p] by (subst *) simp_all
qed

lemmas fp_eval = fsub_def fmax_def fmin_def fp_simps fround_0

lemma is_fin_cases:
  assumes "is_fin x"
  obtains "x = NZero" | v where "x = Fin v"
  using assms by (cases x) auto

lemma fval_fneg [simp]: "fval (fneg x) = - fval x"
  by (cases x) simp_all

lemma is_fin_fneg [simp]: "is_fin (fneg x) = is_fin x"
  by (cases x) simp_all

lemma fadd_fin:
  "is_fin x \<Longrightarrow> is_fin y \<Longrightarrow> fadd p x y = fround p (fneg_bit x \<and> fneg_bit y) (fval x + fval y)"
  by (cases x; cases y) simp_all

lemma fsub_fin:
  "is_fin x \<Longrightarrow> is_fin y \<Longrightarrow>
   fsub p x y = fround p (fneg_bit x \<and> fneg_bit (fneg y)) (fval x - fval y)"
  by (simp add: fsub_def fadd_fin)

lemma fmul_fin:
  "is_fin x \<Longrightarrow> is_fin y \<Longrightarrow> fmul p x y = fround p (fneg_bit x \<noteq> fneg_bit y) (fval x * fval y)"
  by (cases x; cases y) simp_all

lemma fdiv_fin:
  "is_fin x \<Longrightarrow> is_fin y \<Longrightarrow> fval y \<noteq> 0 \<Longrightarrow>
   fdiv p x y = fround p (fneg_bit x \<noteq> fneg_bit y) (fval x / fval y)"
  by (cases x; cases y) simp_all

lemma flt_fin: "is_fin x \<Longrightarrow> is_fin y \<Longrightarrow> flt x y \<longleftrightarrow> fval x < fval y"
  by (cases x; cases y) simp_all

lemma fle_fin: "is_fin x \<Longrightarrow> is_fin y \<Longrightarrow> fle x y \<longleftrightarrow> fval x \<le> fval y"
  by (cases x; cases y) simp_all

lemmas fp_fin = fadd_fin fsub_fin fmul_fin fdiv_fin flt_fin fle_fin

text \<open>On values other than NaN the comparison is a total preorder.\<close>

lemma fle_total: "x \<noteq> NaN \<Longrightarrow> y \<noteq> NaN \<Longrightarrow> fle x y \<or> fle y x"
  by (cases x; cases y) auto

lemma fle_trans: "fle x y \<Longrightarrow> fle y z \<Longrightarrow> fle x z"
  by (cases x; cases y; cases z) auto

lemma fle_refl: "x \<noteq> NaN \<Longrightarrow> fle x x"
  by (cases x) auto

lemma flt_not_fle: "x \<noteq> NaN \<Longrightarrow> y \<noteq> NaN \<Longrightarrow> flt x y \<longleftrightarrow> \<not> fle y x"
  by (cases x; cases y) auto

lemma fle_NaN [simp]: "\<not> fle NaN y" "\<not> fle x NaN"
  by (cases x; cases y; simp)+

lemma flt_NaN [simp]: "\<not> flt NaN y" "\<not> flt x NaN"
  by (cases x; cases y; simp)+

lemma flt_irrefl [simp]: "\<not> flt x x"
  by (cases x) simp_all

end
