(* ===== verification/Float_Bits.thy ===== *)
theory Float_Bits
  imports IEEE_Float
begin

text \<open>
  The object representation of a \<open>float\<close>: the 32 bits of binary32 (sign, 8 exponent bits,
  23 fraction bits), read and written as an unsigned number. It is what the wire structs carry
  and what the union in \<open>fast_expf\<close> reinterprets. The model's one NaN is written as the
  default quiet NaN.
\<close>

definition f32_fields :: "bool \<Rightarrow> nat \<Rightarrow> nat \<Rightarrow> fp" where
  "f32_fields s ex fr =
     (let sg = (\<lambda>v. if s then - v else v)
      in if ex = 255 then (if fr = 0 then Inf s else NaN)
         else if ex = 0 then
           (if fr = 0 then (if s then NZero else Fin 0)
            else Fin (sg (of_nat fr * 2 powi (-149))))
         else Fin (sg (of_nat (2 ^ 23 + fr) * 2 powi (int ex - 150))))"

definition f32_of_nat :: "nat \<Rightarrow> fp" where
  "f32_of_nat n = f32_fields (2 ^ 31 \<le> n) ((n div 2 ^ 23) mod 256) (n mod 2 ^ 23)"

definition f32_of_bits :: "u32 \<Rightarrow> fp" where
  "f32_of_bits w = f32_of_nat (unat w)"

text \<open>The magnitude bits of a positive representable value.\<close>

definition mag_bits :: "rat \<Rightarrow> nat" where
  "mag_bits v = (let u = ulpexp F32 v in nat (u + 149) * 2 ^ 23 + nat \<lfloor>v / 2 powi u\<rfloor>)"

fun f32_to_nat :: "fp \<Rightarrow> nat" where
  "f32_to_nat NaN = 0x7FC00000"
| "f32_to_nat (Inf s) = (if s then 0xFF800000 else 0x7F800000)"
| "f32_to_nat NZero = 0x80000000"
| "f32_to_nat (Fin v) =
     (if v = 0 then 0 else if 0 < v then mag_bits v else 2 ^ 31 + mag_bits (- v))"

definition f32_bits :: "fp \<Rightarrow> u32" where
  "f32_bits x = of_nat (f32_to_nat x)"

lemma frep_mantissa:
  assumes "0 < v" "frep F32 v" "v \<le> maxfin F32"
  obtains u m where "ulpexp F32 v = u" "v = of_int m * 2 powi u" "0 < m" "m < 2 ^ 24"
    "-149 \<le> u" "u \<le> 104" "2 ^ 23 \<le> m \<or> u = -149"
proof -
  define u where "u = ulpexp F32 v"
  define m where "m = rne (v / 2 powi u)"
  have v: "v = of_int m * 2 powi u"
    using assms(1,2) by (simp add: frep_def rnd_def u_def m_def Let_def)
  have "0 < (of_int m :: rat)"
  proof -
    have "0 < of_int m * (2::rat) powi u" using assms(1) v by simp
    then show ?thesis by (metis powi_pos zero_less_mult_pos2)
  qed
  then have m0: "0 < m" by simp
  have "v / 2 powi u = of_int m" by (simp add: v)
  then have "(of_int m :: rat) < of_int (2 ^ 24)"
    using ulp_scaled_less[OF assms(1), of F32] by (simp add: u_def)
  then have m24: "m < 2 ^ 24" by (simp only: of_int_less_iff)
  have u1: "-149 \<le> u" using ulpexp_ge[of F32 v] by (simp add: u_def)
  have il: "ilog2 v \<le> 127"
  proof -
    have "2 powi ilog2 v \<le> v" using ilog2_bounds(1)[OF assms(1)] .
    also have "\<dots> \<le> maxfin F32" by (rule assms(3))
    also have "\<dots> < 2 powi 128" by (simp add: maxfin_def)
    finally have "ilog2 v < 128" by (simp only: powi_less_iff)
    then show ?thesis by simp
  qed
  then have u2: "u \<le> 104" using assms(1) by (simp add: u_def ulpexp_def)
  have "2 ^ 23 \<le> m \<or> u = -149"
  proof (cases "u = -149")
    case False
    then have "u = ilog2 v - 23" using assms(1) u1 by (auto simp: u_def ulpexp_def max_def split: if_splits)
    then have "2 powi (u + 23) \<le> v" using ilog2_bounds(1)[OF assms(1)] by simp
    also have "\<dots> = of_int m * 2 powi u" by (rule v)
    finally have "2 powi u * 2 powi 23 \<le> 2 powi u * (of_int m :: rat)"
      by (simp only: powi_split mult.commute)
    then have "2 powi 23 \<le> (of_int m :: rat)" by (simp only: mult_le_cancel_left_pos powi_pos)
    then have "of_int (2 ^ 23) \<le> (of_int m :: rat)" by simp
    then have "2 ^ 23 \<le> m" by (simp only: of_int_le_iff)
    then show ?thesis ..
  qed simp
  with u_def v m0 m24 u1 u2 show thesis by (intro that) auto
qed

lemma mag_bits_read:
  assumes "0 < v" "frep F32 v" "v \<le> maxfin F32"
  shows "mag_bits v < 2 ^ 31"
    and "f32_of_nat (mag_bits v) = Fin v"
    and "f32_of_nat (2 ^ 31 + mag_bits v) = Fin (- v)"
proof -
  from frep_mantissa[OF assms] obtain u m where
    u: "ulpexp F32 v = u" and v: "v = of_int m * 2 powi u" and m: "0 < m" "m < 2 ^ 24"
    and u1: "-149 \<le> u" and u2: "u \<le> 104" and norm: "2 ^ 23 \<le> m \<or> u = -149" by blast
  define k where "k = nat (u + 149)"
  define j where "j = nat m"
  have k: "k \<le> 253" "u = int k - 149" using u1 u2 by (simp_all add: k_def)
  have j: "0 < j" "j < 2 ^ 24" "m = int j" using m by (auto simp: j_def)
  have "v / 2 powi u = of_int m" by (simp add: v)
  then have mb: "mag_bits v = k * 2 ^ 23 + j"
    by (simp add: mag_bits_def u Let_def k_def j_def)
  show lt: "mag_bits v < 2 ^ 31" using k(1) j(2) by (simp add: mb)
  define E F where "E = (k * 2 ^ 23 + j) div 2 ^ 23" and "F = (k * 2 ^ 23 + j) mod 2 ^ 23"
  have EF: "(2 ^ 23 \<le> j \<and> E = k + 1 \<and> F = j - 2 ^ 23) \<or> (k = 0 \<and> E = 0 \<and> F = j)"
  proof (cases "2 ^ 23 \<le> j")
    case True
    then obtain i where "j = 2 ^ 23 + i" "i < 2 ^ 23" using j(2) le_Suc_ex by force
    then show ?thesis by (simp add: E_def F_def)
  next
    case False
    then have "k = 0" using norm j k by auto
    then show ?thesis using False by (simp add: E_def F_def)
  qed
  have fields: "f32_fields s E F = Fin (if s then - v else v)" for s
    using EF
  proof
    assume "2 ^ 23 \<le> j \<and> E = k + 1 \<and> F = j - 2 ^ 23"
    then have "2 ^ 23 + F = j" "E \<noteq> 0" "E \<noteq> 255" "int E - 150 = u" using k by auto
    then show ?thesis by (simp add: f32_fields_def v j(3) del: of_nat_add)
  next
    assume "k = 0 \<and> E = 0 \<and> F = j"
    then have "E = 0" "F = j" "u = -149" using k by auto
    then show ?thesis using j(1) by (simp add: f32_fields_def v j(3))
  qed
  have hi: "((2 ^ 31 + x) div 2 ^ 23) mod 256 = (x div 2 ^ 23) mod 256"
      "(2 ^ 31 + x) mod 2 ^ 23 = x mod 2 ^ 23" for x :: nat
  proof -
    have eq: "2 ^ 31 + x = x + 256 * 2 ^ 23" by simp
    have "(x + 256 * 2 ^ 23) div 2 ^ 23 = 256 + x div 2 ^ 23" by (rule div_mult_self1) simp
    then show "((2 ^ 31 + x) div 2 ^ 23) mod 256 = (x div 2 ^ 23) mod 256"
      by (simp only: eq) simp
    show "(2 ^ 31 + x) mod 2 ^ 23 = x mod 2 ^ 23" unfolding eq by (rule mod_mult_self1)
  qed
  have lo: "(mag_bits v div 2 ^ 23) mod 256 = E" "mag_bits v mod 2 ^ 23 = F"
    using lt by (simp_all add: mb E_def F_def)
  show "f32_of_nat (mag_bits v) = Fin v"
    using lt fields[of False] by (simp only: f32_of_nat_def lo) simp
  show "f32_of_nat (2 ^ 31 + mag_bits v) = Fin (- v)"
    using fields[of True] by (simp only: f32_of_nat_def hi lo) simp
qed

lemma f32_to_nat_less:
  assumes "in_fmt F32 x"
  shows "f32_to_nat x < 2 ^ 32"
proof (cases x)
  case (Fin v)
  then show ?thesis
    using assms mag_bits_read(1)[of v] mag_bits_read(1)[of "- v"] by auto
qed auto

lemma f32_of_nat_to_nat:
  assumes "in_fmt F32 x"
  shows "f32_of_nat (f32_to_nat x) = x"
proof (cases x)
  case (Fin v)
  consider "v = 0" | "0 < v" | "v < 0" by linarith
  then show ?thesis
  proof cases
    case 1 then show ?thesis using Fin by (simp add: f32_of_nat_def f32_fields_def)
  next
    case 2 then show ?thesis using Fin assms mag_bits_read(2)[of v] by simp
  next
    case 3 then show ?thesis using Fin assms mag_bits_read(3)[of "- v"] by simp
  qed
qed (simp_all add: f32_of_nat_def f32_fields_def)

text \<open>A value that a \<open>float\<close> can hold is read back from its bits.\<close>

lemma f32_of_bits_bits [simp]: "in_fmt F32 x \<Longrightarrow> f32_of_bits (f32_bits x) = x"
  using f32_to_nat_less[of x] f32_of_nat_to_nat[of x]
  by (simp add: f32_of_bits_def f32_bits_def unat_of_nat)

lemma f32_of_bits_in_fmt [simp]: "in_fmt F32 (f32_of_bits w)"
proof -
  have "in_fmt F32 (f32_fields s ex fr)" if fr: "fr < 2 ^ 23" and ex: "ex < 256" for s ex fr
  proof -
    have sub: "in_fmt F32 (Fin (s * (of_nat fr * 2 powi (-149))))" if "s = 1 \<or> s = -1" for s :: rat
    proof -
      have "frep F32 (of_int (int fr) * 2 powi (-149))" using fr by (intro frepI) simp_all
      moreover have "of_nat fr * 2 powi (-149) \<le> maxfin F32"
      proof -
        have "of_nat fr * (2::rat) powi (-149) \<le> of_nat (2 ^ 23) * 2 powi (-149)"
          using fr by (intro mult_right_mono) (auto simp only: of_nat_le_iff less_imp_le powi_pos)
        also have "\<dots> \<le> maxfin F32" by (simp add: maxfin_def)
        finally show ?thesis .
      qed
      ultimately show ?thesis using that by auto
    qed
    have nrm: "in_fmt F32 (Fin (s * (of_nat (2 ^ 23 + fr) * 2 powi (int ex - 150))))"
      if "s = 1 \<or> s = -1" "ex \<noteq> 0" "ex \<noteq> 255" for s :: rat
    proof -
      have "frep F32 (of_int (int (2 ^ 23 + fr)) * 2 powi (int ex - 150))"
        using fr that by (intro frepI) simp_all
      moreover have "of_nat (2 ^ 23 + fr) * 2 powi (int ex - 150) \<le> maxfin F32"
      proof -
        have "2 ^ 23 + fr \<le> (2 ^ 24 - 1 :: nat)" using fr by simp
        then have "of_nat (2 ^ 23 + fr) \<le> (of_nat (2 ^ 24 - 1) :: rat)"
          by (simp only: of_nat_le_iff)
        moreover have "(2::rat) powi (int ex - 150) \<le> 2 powi 104"
          using ex that by (simp only: powi_le_iff)
        ultimately have "of_nat (2 ^ 23 + fr) * 2 powi (int ex - 150) \<le> (of_nat (2 ^ 24 - 1) :: rat) * 2 powi 104"
          by (intro mult_mono) auto
        also have "\<dots> = maxfin F32" by (simp add: maxfin_def)
        finally show ?thesis .
      qed
      ultimately show ?thesis using that by auto
    qed
    show ?thesis
      using sub[of 1] sub[of "-1"] nrm[of 1] nrm[of "-1"]
      by (cases "ex = 255"; cases "ex = 0"; cases s)
        (use maxfin_pos[of F32] in \<open>simp_all add: f32_fields_def Let_def del: of_nat_add\<close>)
  qed
  then show ?thesis by (simp add: f32_of_bits_def f32_of_nat_def)
qed

end
