(* ===== verification/Wire_Protocol.thy ===== *)
theory Wire_Protocol
  imports Float_Bits
begin

text \<open>
  The wire structs of \<open>include/ipc/wire_protocol.h\<close> and their packed little-endian layout:
  the frame header (24 bytes) and the three record kinds of the data, tracks and events
  planes (36, 40 and 104 bytes). Writing a struct to a socket copies its object
  representation, so a record's encoding is the concatenation of its fields' bytes in
  declaration order (\<open>#pragma pack(push, 1)\<close>: no padding).
\<close>

section \<open>Socket paths\<close>

definition ipc_control_path :: "string \<Rightarrow> string" where
  "ipc_control_path dev = ''/tmp/yolo_control_'' @ dev @ ''.sock''"

definition ipc_data_path :: "string \<Rightarrow> string" where
  "ipc_data_path dev = ''/tmp/yolo_data_'' @ dev @ ''.sock''"

definition ipc_tracks_path :: "string \<Rightarrow> string" where
  "ipc_tracks_path dev = ''/tmp/yolo_tracks_'' @ dev @ ''.sock''"

definition ipc_events_path :: "string \<Rightarrow> string" where
  "ipc_events_path dev = ''/tmp/yolo_events_'' @ dev @ ''.sock''"

definition kMaxDetections :: nat where
  "kMaxDetections = 64"

section \<open>Little-endian fields\<close>

fun le :: "nat \<Rightarrow> nat \<Rightarrow> bytes" where
  "le 0 v = []"
| "le (Suc n) v = of_nat (v mod 256) # le n (v div 256)"

fun unle :: "bytes \<Rightarrow> nat" where
  "unle [] = 0"
| "unle (b # bs) = unat b + 256 * unle bs"

definition enc_u16 :: "u16 \<Rightarrow> bytes" where "enc_u16 w = le 2 (unat w)"
definition enc_u32 :: "u32 \<Rightarrow> bytes" where "enc_u32 w = le 4 (unat w)"
definition enc_u64 :: "u64 \<Rightarrow> bytes" where "enc_u64 w = le 8 (unat w)"
definition enc_f32 :: "fp \<Rightarrow> bytes" where "enc_f32 x = enc_u32 (f32_bits x)"
definition enc_chars :: "string \<Rightarrow> bytes" where "enc_chars s = map (\<lambda>c. of_nat (of_char c)) s"

definition dec_u16 :: "nat \<Rightarrow> bytes \<Rightarrow> u16" where
  "dec_u16 off bs = of_nat (unle (take 2 (drop off bs)))"
definition dec_u32 :: "nat \<Rightarrow> bytes \<Rightarrow> u32" where
  "dec_u32 off bs = of_nat (unle (take 4 (drop off bs)))"
definition dec_u64 :: "nat \<Rightarrow> bytes \<Rightarrow> u64" where
  "dec_u64 off bs = of_nat (unle (take 8 (drop off bs)))"
definition dec_f32 :: "nat \<Rightarrow> bytes \<Rightarrow> fp" where
  "dec_f32 off bs = f32_of_bits (dec_u32 off bs)"
definition dec_chars :: "nat \<Rightarrow> nat \<Rightarrow> bytes \<Rightarrow> string" where
  "dec_chars off n bs = map (\<lambda>b. char_of (unat b)) (take n (drop off bs))"

lemma length_le [codec_simps, simp]: "length (le n v) = n"
  by (induction n arbitrary: v) auto

lemma unle_le: "unle (le n v) = v mod 256 ^ n"
proof (induction n arbitrary: v)
  case (Suc n)
  have "unat (of_nat (v mod 256) :: byte) = v mod 256"
    by (simp add: unat_of_nat)
  then have "unle (le (Suc n) v) = v mod 256 + 256 * (v div 256 mod 256 ^ n)"
    by (simp add: Suc.IH)
  also have "\<dots> = v mod (256 * 256 ^ n)"
    by (simp add: mod_mult2_eq)
  finally show ?case by simp
qed simp

lemma length_enc [codec_simps, simp]:
  "length (enc_u16 a) = 2" "length (enc_u32 b) = 4" "length (enc_u64 c) = 8"
  "length (enc_f32 x) = 4" "length (enc_chars s) = length s"
  by (simp_all add: enc_u16_def enc_u32_def enc_u64_def enc_f32_def enc_chars_def)

lemma unat_mod_pow:
  "unat (a::u16) mod 256 ^ 2 = unat a" "unat (b::u32) mod 256 ^ 4 = unat b"
  "unat (c::u64) mod 256 ^ 8 = unat c"
proof -
  have "unat a < 2 ^ LENGTH(16)" "unat b < 2 ^ LENGTH(32)" "unat c < 2 ^ LENGTH(64)"
    by (rule unsigned_less)+
  then show "unat a mod 256 ^ 2 = unat a" "unat b mod 256 ^ 4 = unat b"
    "unat c mod 256 ^ 8 = unat c" by simp_all
qed

lemma char_byte [simp]: "char_of (unat (of_nat (of_char c) :: byte)) = c"
proof -
  have "of_char c < (256::nat)" by simp
  then have "unat (of_nat (of_char c) :: byte) = of_char c" by (simp add: unat_of_nat)
  then show ?thesis by simp
qed

text \<open>A field is read back at its offset: skip what precedes it, ignore what follows it.\<close>

lemma dec_skip [codec_simps]:
  "length x \<le> off \<Longrightarrow> dec_u16 off (x @ y) = dec_u16 (off - length x) y"
  "length x \<le> off \<Longrightarrow> dec_u32 off (x @ y) = dec_u32 (off - length x) y"
  "length x \<le> off \<Longrightarrow> dec_u64 off (x @ y) = dec_u64 (off - length x) y"
  "length x \<le> off \<Longrightarrow> dec_f32 off (x @ y) = dec_f32 (off - length x) y"
  "length x \<le> off \<Longrightarrow> dec_chars off n (x @ y) = dec_chars (off - length x) n y"
  by (simp_all add: dec_u16_def dec_u32_def dec_u64_def dec_f32_def dec_chars_def)

lemma dec_head [codec_simps]:
  "dec_u16 0 (enc_u16 a @ y) = a" "dec_u16 0 (enc_u16 a) = a"
  "dec_u32 0 (enc_u32 b @ y) = b" "dec_u32 0 (enc_u32 b) = b"
  "dec_u64 0 (enc_u64 c @ y) = c" "dec_u64 0 (enc_u64 c) = c"
  by (simp_all add: dec_u16_def dec_u32_def dec_u64_def enc_u16_def enc_u32_def enc_u64_def
      unle_le unat_mod_pow[simplified])

lemma dec_f32_head [codec_simps]:
  "in_fmt F32 x \<Longrightarrow> dec_f32 0 (enc_f32 x @ y) = x" "in_fmt F32 x \<Longrightarrow> dec_f32 0 (enc_f32 x) = x"
  by (simp_all add: dec_f32_def enc_f32_def dec_head)

lemma dec_chars_head [codec_simps]:
  "length s = n \<Longrightarrow> dec_chars 0 n (enc_chars s @ y) = s"
  "length s = n \<Longrightarrow> dec_chars 0 n (enc_chars s) = s"
  by (simp_all add: dec_chars_def enc_chars_def comp_def)

lemma length_dec_chars [simp]: "off + n \<le> length bs \<Longrightarrow> length (dec_chars off n bs) = n"
  by (simp add: dec_chars_def)

lemma in_fmt_dec_f32 [simp]: "in_fmt F32 (dec_f32 off bs)"
  by (simp add: dec_f32_def)

section \<open>Frame header\<close>

record wire_frame_header =
  wh_frame_id :: u64
  wh_timestamp_us :: u64
  wh_count :: u16
  wh_reserved :: bytes \<comment> \<open>\<open>uint8_t[6]\<close>\<close>

definition sizeof_WireFrameHeader :: nat where
  "sizeof_WireFrameHeader = 24"

definition enc_header :: "wire_frame_header \<Rightarrow> bytes" where
  "enc_header h = enc_u64 (wh_frame_id h) @ enc_u64 (wh_timestamp_us h) @ enc_u16 (wh_count h)
     @ wh_reserved h"

definition dec_header :: "bytes \<Rightarrow> wire_frame_header" where
  "dec_header bs = \<lparr>wh_frame_id = dec_u64 0 bs, wh_timestamp_us = dec_u64 8 bs,
     wh_count = dec_u16 16 bs, wh_reserved = take 6 (drop 18 bs)\<rparr>"

definition wf_header :: "wire_frame_header \<Rightarrow> bool" where
  "wf_header h \<longleftrightarrow> length (wh_reserved h) = 6"

section \<open>Records of the three planes\<close>

record wire_detection =
  wd_class_name :: string \<comment> \<open>\<open>char[16]\<close>\<close>
  wd_confidence :: fp
  wd_left :: i32
  wd_top :: i32
  wd_right :: i32
  wd_bottom :: i32

definition sizeof_WireDetectionRecord :: nat where
  "sizeof_WireDetectionRecord = 36"

definition enc_detection :: "wire_detection \<Rightarrow> bytes" where
  "enc_detection d = enc_chars (wd_class_name d) @ enc_f32 (wd_confidence d) @ enc_u32 (wd_left d)
     @ enc_u32 (wd_top d) @ enc_u32 (wd_right d) @ enc_u32 (wd_bottom d)"

definition dec_detection :: "bytes \<Rightarrow> wire_detection" where
  "dec_detection bs = \<lparr>wd_class_name = dec_chars 0 16 bs, wd_confidence = dec_f32 16 bs,
     wd_left = dec_u32 20 bs, wd_top = dec_u32 24 bs, wd_right = dec_u32 28 bs,
     wd_bottom = dec_u32 32 bs\<rparr>"

definition wf_detection :: "wire_detection \<Rightarrow> bool" where
  "wf_detection d \<longleftrightarrow> length (wd_class_name d) = 16 \<and> in_fmt F32 (wd_confidence d)"

record wire_track =
  wt_class_name :: string
  wt_confidence :: fp
  wt_left :: i32
  wt_top :: i32
  wt_right :: i32
  wt_bottom :: i32
  wt_track_id :: u32

definition sizeof_WireTrackRecord :: nat where
  "sizeof_WireTrackRecord = 40"

definition enc_track :: "wire_track \<Rightarrow> bytes" where
  "enc_track t = enc_chars (wt_class_name t) @ enc_f32 (wt_confidence t) @ enc_u32 (wt_left t)
     @ enc_u32 (wt_top t) @ enc_u32 (wt_right t) @ enc_u32 (wt_bottom t) @ enc_u32 (wt_track_id t)"

definition dec_track :: "bytes \<Rightarrow> wire_track" where
  "dec_track bs = \<lparr>wt_class_name = dec_chars 0 16 bs, wt_confidence = dec_f32 16 bs,
     wt_left = dec_u32 20 bs, wt_top = dec_u32 24 bs, wt_right = dec_u32 28 bs,
     wt_bottom = dec_u32 32 bs, wt_track_id = dec_u32 36 bs\<rparr>"

definition wf_track :: "wire_track \<Rightarrow> bool" where
  "wf_track t \<longleftrightarrow> length (wt_class_name t) = 16 \<and> in_fmt F32 (wt_confidence t)"

record wire_summary =
  ws_class_name :: string
  ws_track_id :: u32
  ws_frames_seen :: u32
  ws_first_seen_us :: u64
  ws_last_seen_us :: u64
  ws_duration_ms :: u32
  ws_visibility :: fp
  ws_cx :: i32
  ws_cy :: i32
  ws_left :: i32
  ws_top :: i32
  ws_right :: i32
  ws_bottom :: i32
  ws_vx :: fp
  ws_vy :: fp
  ws_speed :: fp
  ws_heading_deg :: fp
  ws_accel :: fp
  ws_loiter_score :: fp
  ws_in_roi :: u8
  ws_roi_entered :: u8
  ws_roi_exited :: u8
  ws_status :: u8
  ws_reserved :: bytes \<comment> \<open>\<open>uint8_t[4]\<close>\<close>

definition sizeof_WireTrackSummary :: nat where
  "sizeof_WireTrackSummary = 104"

definition enc_summary :: "wire_summary \<Rightarrow> bytes" where
  "enc_summary s = enc_chars (ws_class_name s) @ enc_u32 (ws_track_id s) @ enc_u32 (ws_frames_seen s)
     @ enc_u64 (ws_first_seen_us s) @ enc_u64 (ws_last_seen_us s) @ enc_u32 (ws_duration_ms s)
     @ enc_f32 (ws_visibility s) @ enc_u32 (ws_cx s) @ enc_u32 (ws_cy s) @ enc_u32 (ws_left s)
     @ enc_u32 (ws_top s) @ enc_u32 (ws_right s) @ enc_u32 (ws_bottom s) @ enc_f32 (ws_vx s)
     @ enc_f32 (ws_vy s) @ enc_f32 (ws_speed s) @ enc_f32 (ws_heading_deg s) @ enc_f32 (ws_accel s)
     @ enc_f32 (ws_loiter_score s) @ [ws_in_roi s] @ [ws_roi_entered s] @ [ws_roi_exited s]
     @ [ws_status s] @ ws_reserved s"

definition dec_summary :: "bytes \<Rightarrow> wire_summary" where
  "dec_summary bs = \<lparr>ws_class_name = dec_chars 0 16 bs, ws_track_id = dec_u32 16 bs,
     ws_frames_seen = dec_u32 20 bs, ws_first_seen_us = dec_u64 24 bs,
     ws_last_seen_us = dec_u64 32 bs, ws_duration_ms = dec_u32 40 bs,
     ws_visibility = dec_f32 44 bs, ws_cx = dec_u32 48 bs, ws_cy = dec_u32 52 bs,
     ws_left = dec_u32 56 bs, ws_top = dec_u32 60 bs, ws_right = dec_u32 64 bs,
     ws_bottom = dec_u32 68 bs, ws_vx = dec_f32 72 bs, ws_vy = dec_f32 76 bs,
     ws_speed = dec_f32 80 bs, ws_heading_deg = dec_f32 84 bs, ws_accel = dec_f32 88 bs,
     ws_loiter_score = dec_f32 92 bs, ws_in_roi = bs ! 96, ws_roi_entered = bs ! 97,
     ws_roi_exited = bs ! 98, ws_status = bs ! 99, ws_reserved = take 4 (drop 100 bs)\<rparr>"

definition wf_summary :: "wire_summary \<Rightarrow> bool" where
  "wf_summary s \<longleftrightarrow> length (ws_class_name s) = 16 \<and> length (ws_reserved s) = 4
     \<and> list_all (in_fmt F32) [ws_visibility s, ws_vx s, ws_vy s, ws_speed s, ws_heading_deg s,
         ws_accel s, ws_loiter_score s]"

section \<open>The codec contract\<close>

text \<open>
  What the framing code relies on, for each record kind: the encoding has the size the
  \<open>static_assert\<close> of the struct states, and reading the bytes back gives the record.
\<close>

locale record_codec =
  fixes enc :: "'r \<Rightarrow> bytes" and dec :: "bytes \<Rightarrow> 'r" and sz :: nat and wf :: "'r \<Rightarrow> bool"
  assumes length_enc_rec: "wf r \<Longrightarrow> length (enc r) = sz"
    and dec_enc_rec: "wf r \<Longrightarrow> dec (enc r) = r"
    and wf_dec: "length bs = sz \<Longrightarrow> wf (dec bs)"
    and sz_pos: "0 < sz"
begin

lemma length_enc_all:
  assumes "\<forall>r\<in>set rs. wf r"
  shows "length (concat (map enc rs)) = sz * length rs"
  using assms by (intro length_concat_const length_enc_rec) auto

lemma enc_inj:
  assumes "wf r" "wf s" "enc r = enc s"
  shows "r = s"
  using assms dec_enc_rec by metis

end

interpretation hdr: record_codec enc_header dec_header sizeof_WireFrameHeader wf_header
proof (unfold_locales, goal_cases)
  case (2 r)
  then show ?case
    by (cases r) (simp add: wf_header_def enc_header_def dec_header_def codec_simps)
qed (simp_all add: wf_header_def enc_header_def dec_header_def sizeof_WireFrameHeader_def)

interpretation det: record_codec enc_detection dec_detection sizeof_WireDetectionRecord wf_detection
proof (unfold_locales, goal_cases)
  case (2 r)
  then show ?case
    by (cases r) (simp add: wf_detection_def enc_detection_def dec_detection_def codec_simps)
qed (simp_all add: wf_detection_def enc_detection_def dec_detection_def sizeof_WireDetectionRecord_def)

interpretation trk: record_codec enc_track dec_track sizeof_WireTrackRecord wf_track
proof (unfold_locales, goal_cases)
  case (2 r)
  then show ?case
    by (cases r) (simp add: wf_track_def enc_track_def dec_track_def codec_simps)
qed (simp_all add: wf_track_def enc_track_def dec_track_def sizeof_WireTrackRecord_def)

interpretation summ: record_codec enc_summary dec_summary sizeof_WireTrackSummary wf_summary
proof (unfold_locales, goal_cases)
  case (2 r)
  then show ?case
    by (cases r) (simp add: wf_summary_def enc_summary_def dec_summary_def codec_simps nth_append)
qed (simp_all add: wf_summary_def enc_summary_def dec_summary_def sizeof_WireTrackSummary_def)

end
