(* ===== verification/Socket_IO.thy ===== *)
theory Socket_IO
  imports Wire_Protocol
begin

text \<open>
  The I/O helpers every process of the system carries a copy of: \<open>readExact\<close> and
  \<open>writeExact\<close> over a stream socket. The peer and the kernel decide how many bytes one
  \<open>read\<close> or \<open>send\<close> moves, so a socket is modelled by what its calls will meet: the incoming
  side is a list of deliveries (bytes, end of file, a receive timeout, an error), the outgoing
  side the bytes already sent and the amounts the following \<open>send\<close> calls accept.
\<close>

section \<open>Reading\<close>

datatype delivery = Data bytes | Eof | Again \<comment> \<open>EAGAIN: receive timeout\<close> | Err

datatype read_result = Bytes bytes | ReadZero | ReadAgain | ReadErr

text \<open>One \<open>::read (fd, p, n)\<close> with n > 0: at most n bytes of the next delivery. A delivery of no
  bytes and the end of the list are the end of the stream.\<close>

fun sys_read :: "nat \<Rightarrow> delivery list \<Rightarrow> read_result \<times> delivery list" where
  "sys_read n [] = (ReadZero, [])"
| "sys_read n (Eof # s) = (ReadZero, s)"
| "sys_read n (Again # s) = (ReadAgain, s)"
| "sys_read n (Err # s) = (ReadErr, s)"
| "sys_read n (Data [] # s) = (ReadZero, s)"
| "sys_read n (Data (b # bs) # s) =
     (if length (b # bs) \<le> n then (Bytes (b # bs), s)
      else (Bytes (take n (b # bs)), Data (drop n (b # bs)) # s))"

text \<open>\<open>readExact\<close>: loop until n bytes have arrived; any result \<open>\<le> 0\<close> fails.\<close>

function readExact :: "nat \<Rightarrow> delivery list \<Rightarrow> bytes option \<times> delivery list" where
  "readExact n s =
     (if n = 0 then (Some [], s)
      else case sys_read n s of
        (Bytes bs, s') \<Rightarrow>
          (if bs = [] then (None, s')
           else case readExact (n - length bs) s' of
             (Some cs, s'') \<Rightarrow> (Some (bs @ cs), s'')
           | (None, s'') \<Rightarrow> (None, s''))
      | (ReadZero, s') \<Rightarrow> (None, s')
      | (ReadAgain, s') \<Rightarrow> (None, s')
      | (ReadErr, s') \<Rightarrow> (None, s'))"
  by pat_completeness auto
termination
  by (relation "measure fst") auto

declare readExact.simps [simp del]

text \<open>The bytes that arrive before the stream ends, times out or fails.\<close>

fun avail :: "delivery list \<Rightarrow> bytes" where
  "avail [] = []"
| "avail (Data [] # s) = []"
| "avail (Data (b # bs) # s) = (b # bs) @ avail s"
| "avail (Eof # s) = []"
| "avail (Again # s) = []"
| "avail (Err # s) = []"

lemma avail_Data: "bs \<noteq> [] \<Longrightarrow> avail (Data bs # s) = bs @ avail s"
  by (cases bs) simp_all

lemma sys_read_avail:
  assumes "0 < n"
  shows "(\<exists>bs s'. sys_read n s = (Bytes bs, s') \<and> bs \<noteq> [] \<and> length bs \<le> n \<and> avail s = bs @ avail s')
    \<or> (\<exists>r s'. sys_read n s = (r, s') \<and> (\<forall>bs. r \<noteq> Bytes bs) \<and> avail s = [])"
proof (cases "(n, s)" rule: sys_read.cases)
  case (6 n' b bs s')
  then have n: "n' = n" and s: "s = Data (b # bs) # s'" by auto
  show ?thesis
  proof (cases "length (b # bs) \<le> n")
    case True
    then have "sys_read n s = (Bytes (b # bs), s')" by (simp add: s)
    with True show ?thesis by (auto simp: s)
  next
    case False
    then obtain c cs where c: "drop n (b # bs) = c # cs" by (cases "drop n (b # bs)") auto
    have sp: "b # bs = take n (b # bs) @ c # cs" unfolding c[symmetric] by simp
    have "sys_read n s = (Bytes (take n (b # bs)), Data (c # cs) # s')"
      using False by (simp only: s sys_read.simps c if_False)
    moreover have "avail s = take n (b # bs) @ avail (Data (c # cs) # s')"
      using sp by (simp only: s avail.simps append_assoc [symmetric])
    ultimately show ?thesis using assms False by force
  qed
qed auto

text \<open>
  The chunking of the stream does not matter: \<open>readExact\<close> returns the first n bytes when n
  arrive, and fails when the stream ends before.
\<close>

lemma readExact_avail:
  "if n \<le> length (avail s)
   then \<exists>s'. readExact n s = (Some (take n (avail s)), s') \<and> avail s' = drop n (avail s)
   else \<exists>s'. readExact n s = (None, s')"
proof (induction n s rule: readExact.induct)
  case (1 n s)
  show ?case
  proof (cases "n = 0")
    case True
    then show ?thesis by (simp add: readExact.simps)
  next
    case False
    then have n: "0 < n" by simp
    from sys_read_avail[OF n, of s] show ?thesis
    proof
      assume "\<exists>bs s'. sys_read n s = (Bytes bs, s') \<and> bs \<noteq> [] \<and> length bs \<le> n \<and> avail s = bs @ avail s'"
      then obtain bs s' where r: "sys_read n s = (Bytes bs, s')" and bs: "bs \<noteq> []" "length bs \<le> n"
        and av: "avail s = bs @ avail s'" by blast
      have eq: "readExact n s = (case readExact (n - length bs) s' of
             (Some cs, s'') \<Rightarrow> (Some (bs @ cs), s'') | (None, s'') \<Rightarrow> (None, s''))"
        using False bs by (simp add: readExact.simps[of n s] r)
      have IH: "if n - length bs \<le> length (avail s')
         then \<exists>s''. readExact (n - length bs) s' = (Some (take (n - length bs) (avail s')), s'')
              \<and> avail s'' = drop (n - length bs) (avail s')
         else \<exists>s''. readExact (n - length bs) s' = (None, s'')"
        by (rule "1.IH"[OF False r[symmetric] refl bs(1)])
      show ?thesis
        using IH bs by (auto simp: eq av split: if_splits)
    next
      assume "\<exists>r s'. sys_read n s = (r, s') \<and> (\<forall>bs. r \<noteq> Bytes bs) \<and> avail s = []"
      then obtain r s' where r: "sys_read n s = (r, s')" "\<forall>bs. r \<noteq> Bytes bs" and av: "avail s = []"
        by blast
      then have "readExact n s = (None, s')"
        using False by (cases r) (simp_all add: readExact.simps[of n s])
      with n av show ?thesis by simp
    qed
  qed
qed

lemma readExact_Some:
  assumes "n \<le> length (avail s)"
  obtains s' where "readExact n s = (Some (take n (avail s)), s')" "avail s' = drop n (avail s)"
  using readExact_avail[of n s] assms by auto

lemma readExact_None:
  assumes "length (avail s) < n"
  obtains s' where "readExact n s = (None, s')"
  using readExact_avail[of n s] assms by auto

lemma readExact_SomeD:
  assumes "readExact n s = (Some bs, s')"
  shows "length bs = n" "avail s = bs @ avail s'"
proof -
  have n: "n \<le> length (avail s)"
    using readExact_avail[of n s] assms by (auto split: if_splits)
  then obtain s'' where "readExact n s = (Some (take n (avail s)), s'')" "avail s'' = drop n (avail s)"
    by (rule readExact_Some)
  with assms n show "length bs = n" "avail s = bs @ avail s'" by auto
qed

section \<open>Writing\<close>

record sink =
  sent :: bytes
  accepts :: "nat list" \<comment> \<open>what the next \<open>send\<close> calls take; 0 and the end are an error (peer gone)\<close>

function writeExact :: "bytes \<Rightarrow> sink \<Rightarrow> bool \<times> sink" where
  "writeExact bs s =
     (if bs = [] then (True, s)
      else case accepts s of
        [] \<Rightarrow> (False, s)
      | a # as \<Rightarrow>
          (if a = 0 then (False, s\<lparr>accepts := as\<rparr>)
           else writeExact (drop a bs) (s\<lparr>sent := sent s @ take a bs, accepts := as\<rparr>)))"
  by pat_completeness auto
termination
  by (relation "measure (\<lambda>(bs, s). length bs)") auto

declare writeExact.simps [simp del]

lemma writeExact_Nil [simp]: "writeExact [] s = (True, s)"
  by (simp add: writeExact.simps)

text \<open>
  Success means exactly these bytes were appended, in order, however the sends split them; a
  failure has sent a proper prefix of them.
\<close>

lemma writeExact_sent:
  "writeExact bs s = (ok, s') \<Longrightarrow>
   (if ok then sent s' = sent s @ bs else \<exists>k<length bs. sent s' = sent s @ take k bs)"
proof (induction bs s rule: writeExact.induct)
  case (1 bs s)
  consider "bs = []" | "bs \<noteq> []" "accepts s = []" | as where "bs \<noteq> []" "accepts s = 0 # as"
    | a as where "bs \<noteq> []" "accepts s = a # as" "a \<noteq> 0"
    by (metis list.exhaust)
  then show ?case
  proof cases
    case 4
    let ?s = "s\<lparr>sent := sent s @ take a bs, accepts := as\<rparr>"
    have w: "writeExact (drop a bs) ?s = (ok, s')"
      using "1.prems" 4 by (simp add: writeExact.simps[of bs s])
    have IH: "if ok then sent s' = sent ?s @ drop a bs
       else \<exists>k<length (drop a bs). sent s' = sent ?s @ take k (drop a bs)"
      by (rule "1.IH"[OF 4(1,2,3) w])
    show ?thesis
    proof (cases ok)
      case True
      then show ?thesis using IH by simp
    next
      case False
      then obtain k where k: "k < length bs - a" "sent s' = sent s @ take a bs @ take k (drop a bs)"
        using IH by auto
      then have "sent s' = sent s @ take (a + k) bs" by (simp add: take_add)
      moreover have "a + k < length bs" using k(1) by simp
      ultimately show ?thesis using False by auto
    qed
  qed (use "1.prems" in \<open>auto simp: writeExact.simps[of bs s]\<close>)
qed

text \<open>A peer that keeps taking bytes lets the write finish: one accepting send per byte is enough.\<close>

lemma writeExact_succeeds:
  "length bs \<le> length (accepts s) \<Longrightarrow> 0 \<notin> set (accepts s) \<Longrightarrow>
   \<exists>s'. writeExact bs s = (True, s') \<and> sent s' = sent s @ bs
      \<and> length (accepts s) \<le> length (accepts s') + length bs \<and> set (accepts s') \<subseteq> set (accepts s)"
proof (induction bs s rule: writeExact.induct)
  case (1 bs s)
  show ?case
  proof (cases "bs = []")
    case True
    then show ?thesis by (simp add: writeExact.simps[of bs s])
  next
    case False
    with "1.prems" obtain a as where a: "accepts s = a # as" "a \<noteq> 0"
      by (cases "accepts s") auto
    let ?s = "s\<lparr>sent := sent s @ take a bs, accepts := as\<rparr>"
    have "\<exists>s'. writeExact (drop a bs) ?s = (True, s') \<and> sent s' = sent ?s @ drop a bs
       \<and> length (accepts ?s) \<le> length (accepts s') + length (drop a bs)
       \<and> set (accepts s') \<subseteq> set (accepts ?s)"
      using "1.prems" a False by (intro "1.IH"[OF False a(1) a(2)]) auto
    then obtain s' where s': "writeExact (drop a bs) ?s = (True, s')" "sent s' = sent ?s @ drop a bs"
      "length as \<le> length (accepts s') + (length bs - a)" "set (accepts s') \<subseteq> set as"
      by auto
    have "writeExact bs s = (True, s')"
      using s'(1) a False by (simp add: writeExact.simps[of bs s])
    moreover have "length (accepts s) \<le> length (accepts s') + length bs"
      using s'(3) a False by (cases bs) auto
    ultimately show ?thesis using s' a by auto
  qed
qed

text \<open>Several writes in a row, stopping at the first that fails.\<close>

fun write_all :: "bytes list \<Rightarrow> sink \<Rightarrow> bool \<times> sink" where
  "write_all [] s = (True, s)"
| "write_all (b # bs) s =
     (case writeExact b s of (ok, s') \<Rightarrow> if ok then write_all bs s' else (False, s'))"

lemma write_all_sent:
  "write_all bs s = (ok, s') \<Longrightarrow>
   (if ok then sent s' = sent s @ concat bs
    else \<exists>k<length (concat bs). sent s' = sent s @ take k (concat bs))"
proof (induction bs arbitrary: s)
  case (Cons b bs)
  obtain ok1 s1 where w: "writeExact b s = (ok1, s1)" by (cases "writeExact b s")
  note one = writeExact_sent[OF w]
  show ?case
  proof (cases ok1)
    case True
    with Cons.prems w have r: "write_all bs s1 = (ok, s')" by simp
    show ?thesis
    proof (cases ok)
      case True
      then show ?thesis using Cons.IH[OF r] one \<open>ok1\<close> by simp
    next
      case False
      then obtain k where k: "k < length (concat bs)" "sent s' = sent s1 @ take k (concat bs)"
        using Cons.IH[OF r] by auto
      then have "sent s' = sent s @ take (length b + k) (concat (b # bs))" using one \<open>ok1\<close> by simp
      then show ?thesis using False k(1) by (auto intro!: exI[of _ "length b + k"])
    qed
  next
    case False
    then obtain k where k: "k < length b" "sent s1 = sent s @ take k b" using one by auto
    have "ok = False" "s' = s1" using False Cons.prems w by auto
    moreover have "take k (concat (b # bs)) = take k b" using k(1) by simp
    ultimately show ?thesis using k by (auto intro!: exI[of _ k])
  qed
qed simp

lemma write_all_succeeds:
  "length (concat bs) \<le> length (accepts s) \<Longrightarrow> 0 \<notin> set (accepts s) \<Longrightarrow>
   \<exists>s'. write_all bs s = (True, s') \<and> sent s' = sent s @ concat bs"
proof (induction bs arbitrary: s)
  case (Cons b bs)
  then obtain s1 where s1: "writeExact b s = (True, s1)" "sent s1 = sent s @ b"
    "length (accepts s) \<le> length (accepts s1) + length b" "set (accepts s1) \<subseteq> set (accepts s)"
    using writeExact_succeeds[of b s] by auto
  have "length (concat bs) \<le> length (accepts s1)" using Cons.prems(1) s1(3) by simp
  moreover have "0 \<notin> set (accepts s1)" using Cons.prems(2) s1(4) by auto
  ultimately obtain s2 where "write_all bs s1 = (True, s2)" "sent s2 = sent s1 @ concat bs"
    using Cons.IH by blast
  then show ?case using s1 by simp
qed simp

section \<open>Properties\<close>

text \<open>\<open>readExact\<close> does not depend on how the kernel splits the stream: when n bytes
  arrive before the stream ends, times out or fails, it returns exactly the first n of them
  and leaves the rest to be read; when fewer arrive it fails.\<close>

theorem readExact_chunking:
  "if n \<le> length (avail s)
   then \<exists>s'. readExact n s = (Some (take n (avail s)), s') \<and> avail s' = drop n (avail s)
   else \<exists>s'. readExact n s = (None, s')"
  by (rule readExact_avail)

text \<open>\<open>writeExact\<close>, whatever the sends accept: success means that exactly the bytes given
  were appended to the connection, failure that a proper prefix of them was.\<close>

theorem writeExact_exact:
  "case writeExact bs s of
     (True, s') \<Rightarrow> sent s' = sent s @ bs
   | (False, s') \<Rightarrow> \<exists>k<length bs. sent s' = sent s @ take k bs"
proof -
  obtain ok s' where w: "writeExact bs s = (ok, s')" by fastforce
  show ?thesis using writeExact_sent[OF w] w by (cases ok) simp_all
qed

end
