(* ===== verification/Framing.thy ===== *)
theory Framing
  imports Socket_IO
begin

text \<open>
  The length-prefixed binary framing of the data, tracks and events planes:
  \<open>[u32 body length][WireFrameHeader][record * count]\<close>. \<open>send_frame\<close> is the sequence of writes
  the three publishers share; \<open>recv_checked\<close> is one iteration of the receive loop that
  \<open>tools/data_receiver.cc\<close> and \<open>tools/tracks_receiver.cc\<close> share, which checks the length
  prefix against the header's count and fills a fixed array of 64 records. That a frame sent is
  the frame received is proved once, for any codec.
\<close>

section \<open>Sending\<close>

definition body_size :: "nat \<Rightarrow> nat \<Rightarrow> u32" where
  "body_size sz n = of_nat sizeof_WireFrameHeader + of_nat n * of_nat sz"

definition frame_bytes :: "('r \<Rightarrow> bytes) \<Rightarrow> nat \<Rightarrow> wire_frame_header \<Rightarrow> 'r list \<Rightarrow> bytes" where
  "frame_bytes enc sz h rs = enc_u32 (body_size sz (length rs)) @ enc_header h @ concat (map enc rs)"

definition send_frame ::
  "('r \<Rightarrow> bytes) \<Rightarrow> nat \<Rightarrow> wire_frame_header \<Rightarrow> 'r list \<Rightarrow> sink \<Rightarrow> bool \<times> sink" where
  "send_frame enc sz h rs s =
     write_all (enc_u32 (body_size sz (length rs)) # enc_header h # map enc rs) s"

lemma frame_bytes_concat:
  "frame_bytes enc sz h rs = concat (enc_u32 (body_size sz (length rs)) # enc_header h # map enc rs)"
  by (simp add: frame_bytes_def)

lemma send_frame_sent:
  assumes "send_frame enc sz h rs s = (ok, s')"
  shows "if ok then sent s' = sent s @ frame_bytes enc sz h rs
    else \<exists>k<length (frame_bytes enc sz h rs). sent s' = sent s @ take k (frame_bytes enc sz h rs)"
  using write_all_sent[OF assms[unfolded send_frame_def]] by (simp only: frame_bytes_concat)

lemma send_frame_succeeds:
  assumes "length (frame_bytes enc sz h rs) \<le> length (accepts s)" "0 \<notin> set (accepts s)"
  shows "\<exists>s'. send_frame enc sz h rs s = (True, s')
    \<and> sent s' = sent s @ frame_bytes enc sz h rs"
  using write_all_succeeds[of "enc_u32 (body_size sz (length rs)) # enc_header h # map enc rs" s] assms
  by (simp add: send_frame_def frame_bytes_def)

section \<open>Receiving\<close>

datatype 'r recv =
    Frame wire_frame_header "'r list"
  | Closed                    \<comment> \<open>connection closed before the next frame\<close>
  | TooSmall u32              \<comment> \<open>body shorter than a header\<close>
  | HeaderShort
  | Mismatch u32 u32          \<comment> \<open>length prefix, length the count implies\<close>
  | BodyShort
  | Overflow nat              \<comment> \<open>more records than the 64-element stack array: undefined behaviour\<close>

text \<open>A memory block read as an array of records.\<close>

fun dec_recs :: "(bytes \<Rightarrow> 'r) \<Rightarrow> nat \<Rightarrow> nat \<Rightarrow> bytes \<Rightarrow> 'r list" where
  "dec_recs dec sz 0 bs = []"
| "dec_recs dec sz (Suc n) bs = dec (take sz bs) # dec_recs dec sz n (drop sz bs)"

definition recv_checked :: "(bytes \<Rightarrow> 'r) \<Rightarrow> nat \<Rightarrow> delivery list \<Rightarrow> 'r recv \<times> delivery list" where
  "recv_checked dec sz s =
     (case readExact 4 s of
        (None, s) \<Rightarrow> (Closed, s)
      | (Some lb, s) \<Rightarrow>
        (let body_len = dec_u32 0 lb in
         if unat body_len < sizeof_WireFrameHeader then (TooSmall body_len, s)
         else case readExact sizeof_WireFrameHeader s of
           (None, s) \<Rightarrow> (HeaderShort, s)
         | (Some hb, s) \<Rightarrow>
           (let hdr = dec_header hb;
                n = unat (wh_count hdr);
                expected_bytes = of_nat n * of_nat sz :: u32;
                expected_body = of_nat sizeof_WireFrameHeader + expected_bytes
            in if body_len \<noteq> expected_body then (Mismatch body_len expected_body, s)
               else if n = 0 then (Frame hdr [], s)
               else if kMaxDetections < n then (Overflow n, s)
               else case readExact (unat expected_bytes) s of
                 (None, s) \<Rightarrow> (BodyShort, s)
               | (Some rb, s) \<Rightarrow> (Frame hdr (dec_recs dec sz n rb), s))))"

text \<open>A frame consumes bytes, so the receive loop ends with the stream.\<close>

lemma recv_checked_consumes:
  assumes "recv_checked dec sz s = (Frame h rs, s')"
  shows "length (avail s') + 28 \<le> length (avail s)"
proof -
  from assms obtain lb s1 where r1: "readExact 4 s = (Some lb, s1)"
    by (auto simp: recv_checked_def split: prod.splits option.splits)
  with assms obtain hb s2 where r2: "readExact sizeof_WireFrameHeader s1 = (Some hb, s2)"
    by (auto simp: recv_checked_def Let_def split: prod.splits option.splits if_splits)
  from assms r1 r2 have "s' = s2 \<or> (\<exists>n rb. readExact n s2 = (Some rb, s'))"
    by (auto simp: recv_checked_def Let_def split: prod.splits option.splits if_splits)
  then have "length (avail s') \<le> length (avail s2)"
    by (auto dest: readExact_SomeD(2))
  with readExact_SomeD[OF r1] readExact_SomeD[OF r2] show ?thesis
    by (simp add: sizeof_WireFrameHeader_def)
qed

function recv_loop ::
  "(bytes \<Rightarrow> 'r) \<Rightarrow> nat \<Rightarrow> delivery list \<Rightarrow> (wire_frame_header \<times> 'r list) list \<times> 'r recv" where
  "recv_loop dec sz s =
     (case recv_checked dec sz s of
        (Frame h rs, s') \<Rightarrow> (case recv_loop dec sz s' of (fs, e) \<Rightarrow> ((h, rs) # fs, e))
      | (e, s') \<Rightarrow> ([], e))"
  by pat_completeness auto
termination
  by (relation "measure (\<lambda>(dec, sz, s). length (avail s))")
    (auto dest!: recv_checked_consumes[OF sym])

declare recv_loop.simps [simp del]

section \<open>Round trip, for every codec\<close>

lemma unat_body_size:
  assumes "sz \<le> 200" "n < 2 ^ 16"
  shows "unat (body_size sz n) = sizeof_WireFrameHeader + n * sz"
    and "unat (of_nat n * of_nat sz :: u32) = n * sz"
proof -
  have "n * sz \<le> 2 ^ 16 * 200" using assms by (intro mult_le_mono) auto
  then have lt: "sizeof_WireFrameHeader + n * sz < 2 ^ 32"
    by (simp add: sizeof_WireFrameHeader_def)
  have "body_size sz n = of_nat (sizeof_WireFrameHeader + n * sz)" by (simp add: body_size_def)
  with lt show "unat (body_size sz n) = sizeof_WireFrameHeader + n * sz"
    by (simp only: unat_of_nat) simp
  have "(of_nat n * of_nat sz :: u32) = of_nat (n * sz)" by simp
  with lt show "unat (of_nat n * of_nat sz :: u32) = n * sz"
    by (simp only: unat_of_nat) simp
qed

context record_codec
begin

lemma dec_recs_enc:
  "\<forall>r\<in>set rs. wf r \<Longrightarrow> dec_recs dec sz (length rs) (concat (map enc rs)) = rs"
  by (induction rs) (simp_all add: length_enc_rec dec_enc_rec)

lemma wf_dec_recs: "length bs = n * sz \<Longrightarrow> r \<in> set (dec_recs dec sz n bs) \<Longrightarrow> wf r"
proof (induction n arbitrary: bs)
  case (Suc n)
  then have len: "length (take sz bs) = sz" "length (drop sz bs) = n * sz" by auto
  from Suc.prems(2) have "r = dec (take sz bs) \<or> r \<in> set (dec_recs dec sz n (drop sz bs))" by simp
  with Suc.IH[OF len(2)] wf_dec[OF len(1)] show ?case by auto
qed simp

text \<open>One frame of the stream, however it is chunked, is received as it was sent.\<close>

lemma recv_checked_frame:
  assumes wf: "\<forall>r\<in>set rs. wf r" "wf_header h" and n: "unat (wh_count h) = length rs"
    and le: "length rs \<le> kMaxDetections" and sz: "sz \<le> 200"
    and av: "avail s = frame_bytes enc sz h rs @ rest"
  obtains s' where "recv_checked dec sz s = (Frame h rs, s')" "avail s' = rest"
proof -
  have n16: "length rs < 2 ^ 16" using le by (simp add: kMaxDetections_def)
  have hl: "length (enc_header h) = sizeof_WireFrameHeader" using wf(2) by (rule hdr.length_enc_rec)
  obtain s1 where r1: "readExact 4 s = (Some (enc_u32 (body_size sz (length rs))), s1)"
    and a1: "avail s1 = enc_header h @ concat (map enc rs) @ rest"
    by (rule readExact_Some[of 4 s]) (auto simp: av frame_bytes_def)
  obtain s2 where r2: "readExact sizeof_WireFrameHeader s1 = (Some (enc_header h), s2)"
    and a2: "avail s2 = concat (map enc rs) @ rest"
    by (rule readExact_Some[of sizeof_WireFrameHeader s1]) (auto simp: a1 hl)
  have len: "length (concat (map enc rs)) = length rs * sz"
    using length_enc_all[OF wf(1)] by simp
  note bs = unat_body_size[OF sz n16]
  have small: "\<not> unat (body_size sz (length rs)) < sizeof_WireFrameHeader" by (simp add: bs(1))
  have eqb: "of_nat sizeof_WireFrameHeader + of_nat (length rs) * of_nat sz = body_size sz (length rs)"
    by (simp add: body_size_def)
  have d1: "dec_u32 0 (enc_u32 (body_size sz (length rs))) = body_size sz (length rs)"
    by (simp add: codec_simps)
  have d2: "dec_header (enc_header h) = h" using wf(2) by (rule hdr.dec_enc_rec)
  have uc: "(ucast (wh_count h) :: u32) = of_nat (length rs)"
    unfolding n[symmetric] by simp
  have "\<exists>s'. recv_checked dec sz s = (Frame h rs, s') \<and> avail s' = rest"
  proof (cases "rs = []")
    case True
    then have "wh_count h = 0" using n by (simp add: unat_eq_zero)
    then show ?thesis using a2 small eqb True d1
      by (simp add: recv_checked_def r1 r2 d2 Let_def)
  next
    case False
    obtain s3 where r3: "readExact (length rs * sz) s2 = (Some (concat (map enc rs)), s3)"
      and a3: "avail s3 = rest"
      by (rule readExact_Some[of "length rs * sz" s2]) (auto simp: a2 len)
    show ?thesis
      using False le small eqb a3 r3
      by (simp add: recv_checked_def r1 r2 d1 d2 Let_def n uc dec_recs_enc[OF wf(1)] bs(2))
  qed
  then show thesis using that by blast
qed

text \<open>A whole stream of frames is received frame by frame, and the loop then reports the close.\<close>

lemma recv_loop_frames:
  assumes sz: "sz \<le> 200"
  shows "\<forall>(h, rs)\<in>set fs. wf_header h \<and> unat (wh_count h) = length rs \<and> length rs \<le> kMaxDetections
      \<and> (\<forall>r\<in>set rs. wf r) \<Longrightarrow>
    avail s = concat (map (\<lambda>(h, rs). frame_bytes enc sz h rs) fs) \<Longrightarrow>
    recv_loop dec sz s = (fs, Closed)"
proof (induction fs arbitrary: s)
  case Nil
  then have "avail s = []" by simp
  then obtain s' where "readExact 4 s = (None, s')" by (metis readExact_None list.size(3) zero_less_numeral)
  then show ?case by (simp add: recv_loop.simps recv_checked_def)
next
  case (Cons f fs)
  obtain h rs where f: "f = (h, rs)" by (cases f)
  obtain s' where "recv_checked dec sz s = (Frame h rs, s')"
    and "avail s' = concat (map (\<lambda>(h, rs). frame_bytes enc sz h rs) fs)"
    by (rule recv_checked_frame[of rs h s]) (use Cons.prems sz in \<open>auto simp: f\<close>)
  with Cons show ?case by (simp add: recv_loop.simps[of dec sz s] f)
qed

end

end
