(* ===== verification/Bounded_Queue.thy ===== *)
theory Bounded_Queue
  imports Prelude "HOL-Library.Sublist"
begin

text \<open>
  \<open>include/ipc/bounded_queue.h\<close>: the bounded FIFO between the realtime pipeline and the sender
  thread. Every operation runs under the queue's mutex, so an operation is one atomic step on
  the queue's state; \<open>pop\<close> is modelled at the moment its wait ends (an item is there, the
  queue is closed, or the timeout has passed). \<open>pop_front\<close> of an empty deque, which a queue
  of capacity 0 would do, is undefined behaviour: \<open>None\<close>.
\<close>

datatype drop_policy = kDropOldest | kDropNewest

record 'a bqueue =
  bq_capacity :: nat
  bq_policy :: drop_policy
  bq_closed :: bool
  bq_items :: "'a list"

definition bq_new :: "nat \<Rightarrow> drop_policy \<Rightarrow> 'a bqueue" where
  "bq_new capacity policy =
     \<lparr>bq_capacity = capacity, bq_policy = policy, bq_closed = False, bq_items = []\<rparr>"

text \<open>The flag is the return value: accepted without dropping anything.\<close>

definition bq_push :: "'a \<Rightarrow> 'a bqueue \<Rightarrow> (bool \<times> 'a bqueue) option" where
  "bq_push item q =
     (if bq_closed q then Some (False, q)
      else if bq_capacity q \<le> length (bq_items q) then
        (case bq_policy q of
           kDropOldest \<Rightarrow>
             (case bq_items q of
                [] \<Rightarrow> None
              | _ # rest \<Rightarrow> Some (False, q\<lparr>bq_items := rest @ [item]\<rparr>))
         | kDropNewest \<Rightarrow> Some (False, q))
      else Some (True, q\<lparr>bq_items := bq_items q @ [item]\<rparr>))"

text \<open>\<open>None\<close>: \<open>pop\<close> returned false (timed out, or closed and drained).\<close>

definition bq_pop :: "'a bqueue \<Rightarrow> 'a option \<times> 'a bqueue" where
  "bq_pop q = (case bq_items q of
     [] \<Rightarrow> (None, q)
   | x # rest \<Rightarrow> (Some x, q\<lparr>bq_items := rest\<rparr>))"

definition bq_size :: "'a bqueue \<Rightarrow> nat" where
  "bq_size q = length (bq_items q)"

definition bq_close :: "'a bqueue \<Rightarrow> 'a bqueue" where
  "bq_close q = q\<lparr>bq_closed := True\<rparr>"

section \<open>Invariant and behaviour of each operation\<close>

definition bq_inv :: "'a bqueue \<Rightarrow> bool" where
  "bq_inv q \<longleftrightarrow> 0 < bq_capacity q \<and> length (bq_items q) \<le> bq_capacity q"

lemma bq_inv_new [intro]: "0 < c \<Longrightarrow> bq_inv (bq_new c p)"
  by (simp add: bq_inv_def bq_new_def)

lemma bq_push_total:
  assumes "bq_inv q"
  obtains ok q' where "bq_push x q = Some (ok, q')"
proof -
  have "bq_push x q \<noteq> None"
    using assms by (auto simp: bq_push_def bq_inv_def split: drop_policy.splits list.splits)
  then show thesis using that by auto
qed

lemma bq_push_inv: "bq_inv q \<Longrightarrow> bq_push x q = Some (ok, q') \<Longrightarrow> bq_inv q'"
  by (auto simp: bq_push_def bq_inv_def split: drop_policy.splits list.splits if_splits)

lemma bq_pop_inv: "bq_inv q \<Longrightarrow> bq_inv (snd (bq_pop q))"
  by (auto simp: bq_pop_def bq_inv_def split: list.splits)

lemma bq_close_inv: "bq_inv q \<Longrightarrow> bq_inv (bq_close q)"
  by (simp add: bq_close_def bq_inv_def)

lemma bq_push_open_oldest:
  assumes "bq_inv q" "\<not> bq_closed q" "bq_policy q = kDropOldest"
  shows "bq_push x q = Some (length (bq_items q) < bq_capacity q,
    q\<lparr>bq_items := drop (Suc (length (bq_items q)) - bq_capacity q) (bq_items q @ [x])\<rparr>)"
proof (cases "length (bq_items q) < bq_capacity q")
  case True
  then show ?thesis using assms by (simp add: bq_push_def)
next
  case False
  with assms(1) have "length (bq_items q) = bq_capacity q" "bq_items q \<noteq> []"
    by (auto simp: bq_inv_def)
  then show ?thesis using assms by (cases "bq_items q") (simp_all add: bq_push_def)
qed

lemma bq_push_frame:
  "bq_push x q = Some (ok, q') \<Longrightarrow>
   bq_capacity q' = bq_capacity q \<and> bq_policy q' = bq_policy q \<and> bq_closed q' = bq_closed q"
  by (auto simp: bq_push_def split: drop_policy.splits list.splits if_splits)

lemma bq_pop_frame:
  "bq_capacity (snd (bq_pop q)) = bq_capacity q \<and> bq_policy (snd (bq_pop q)) = bq_policy q
   \<and> bq_closed (snd (bq_pop q)) = bq_closed q"
  by (auto simp: bq_pop_def split: list.splits)

lemma bq_push_subseq: "bq_push x q = Some (ok, q') \<Longrightarrow> subseq (bq_items q') (bq_items q @ [x])"
  by (auto simp: bq_push_def split: drop_policy.splits list.splits if_splits
      intro: subseq_rev_drop_many subseq_order.order_refl)

lemma subseq_set_subset: "subseq xs ys \<Longrightarrow> set xs \<subseteq> set ys"
  by (induction rule: list_emb.induct) auto

section \<open>Runs\<close>

text \<open>What the producer and the consumer do over time, in the order the mutex serialises it.\<close>

datatype 'a bq_op = Push 'a | Pop | Close

fun bq_step :: "'a bq_op \<Rightarrow> 'a bqueue \<Rightarrow> ('a list \<times> 'a bqueue) option" where
  "bq_step (Push x) q = map_option (\<lambda>(ok, q'). ([], q')) (bq_push x q)"
| "bq_step Pop q = (case bq_pop q of (None, q') \<Rightarrow> Some ([], q') | (Some x, q') \<Rightarrow> Some ([x], q'))"
| "bq_step Close q = Some ([], bq_close q)"

text \<open>Running operations gives what the consumer received, in order, and the final queue.\<close>

fun bq_run :: "'a bq_op list \<Rightarrow> 'a bqueue \<Rightarrow> ('a list \<times> 'a bqueue) option" where
  "bq_run [] q = Some ([], q)"
| "bq_run (op # ops) q = (case bq_step op q of
     None \<Rightarrow> None
   | Some (out, q') \<Rightarrow> map_option (\<lambda>(outs, q''). (out @ outs, q'')) (bq_run ops q'))"

fun pushed :: "'a bq_op list \<Rightarrow> 'a list" where
  "pushed [] = []"
| "pushed (Push x # ops) = x # pushed ops"
| "pushed (Pop # ops) = pushed ops"
| "pushed (Close # ops) = pushed ops"

lemma bq_step_subseq:
  assumes "bq_step op q = Some (out, q')"
  shows "subseq (out @ bq_items q') (bq_items q @ pushed [op])"
proof (cases op)
  case (Push x)
  with assms show ?thesis by (auto dest: bq_push_subseq)
next
  case Pop
  with assms show ?thesis by (auto simp: bq_pop_def split: list.splits)
next
  case Close
  with assms show ?thesis by (auto simp: bq_close_def)
qed

lemma bq_step_inv: "bq_inv q \<Longrightarrow> bq_step op q = Some (out, q') \<Longrightarrow> bq_inv q'"
  using bq_pop_inv[of q] by (cases op) (auto intro: bq_push_inv bq_close_inv split: option.splits prod.splits)

lemma bq_step_total:
  assumes "bq_inv q"
  obtains out q' where "bq_step op q = Some (out, q')"
proof (cases op)
  case (Push x)
  from bq_push_total[OF assms] obtain ok q' where "bq_push x q = Some (ok, q')" .
  with Push show ?thesis by (intro that) simp
next
  case Pop
  have "bq_step Pop q \<noteq> None" by (simp split: option.splits prod.splits)
  with Pop show ?thesis using that by auto
next
  case Close
  then show ?thesis using that by simp
qed

lemma pushed_Cons: "pushed (op # ops) = pushed [op] @ pushed ops"
  by (cases op) auto

lemma bq_run_subseq:
  "bq_run ops q = Some (outs, q') \<Longrightarrow> subseq (outs @ bq_items q') (bq_items q @ pushed ops)"
proof (induction ops arbitrary: q outs)
  case (Cons op ops)
  then obtain out q1 outs' where step: "bq_step op q = Some (out, q1)"
    and run: "bq_run ops q1 = Some (outs', q')" and outs: "outs = out @ outs'"
    by (auto split: option.splits)
  have "subseq (out @ (outs' @ bq_items q')) (out @ (bq_items q1 @ pushed ops))"
    by (rule list_emb_append_mono[OF subseq_order.order_refl Cons.IH[OF run]])
  also have "subseq (out @ (bq_items q1 @ pushed ops)) ((bq_items q @ pushed [op]) @ pushed ops)"
    using list_emb_append_mono[OF bq_step_subseq[OF step] subseq_order.order_refl[of "pushed ops"]]
    by simp
  finally show ?case using pushed_Cons[of op ops] by (simp add: outs)
qed simp

lemma bq_run_inv: "bq_inv q \<Longrightarrow> bq_run ops q = Some (outs, q') \<Longrightarrow> bq_inv q'"
proof (induction ops arbitrary: q outs)
  case (Cons op ops)
  then show ?case by (auto split: option.splits dest: bq_step_inv)
qed simp

lemma bq_run_capacity: "bq_run ops q = Some (outs, q') \<Longrightarrow> bq_capacity q' = bq_capacity q"
proof (induction ops arbitrary: q outs)
  case (Cons op ops)
  then obtain out q1 outs' where step: "bq_step op q = Some (out, q1)"
    and run: "bq_run ops q1 = Some (outs', q')"
    by (auto split: option.splits)
  have "bq_capacity q1 = bq_capacity q"
    using step bq_pop_frame[of q]
    by (cases op) (auto simp: bq_close_def dest: bq_push_frame split: option.splits prod.splits)
  with Cons.IH[OF run] show ?case by simp
qed simp

lemma bq_run_total: "bq_inv q \<Longrightarrow> \<exists>outs q'. bq_run ops q = Some (outs, q')"
proof (induction ops arbitrary: q)
  case (Cons op ops)
  from bq_step_total[OF Cons.prems] obtain out q1 where s: "bq_step op q = Some (out, q1)" .
  with Cons.prems have "bq_inv q1" by (rule bq_step_inv)
  from Cons.IH[OF this] s show ?case by auto
qed simp

text \<open>The newest item survives its own push, and after n pushes on an open drop-oldest queue the
  queue holds exactly the last \<open>capacity\<close> of everything queued.\<close>

lemma bq_run_pushes:
  assumes "bq_inv q" "\<not> bq_closed q" "bq_policy q = kDropOldest"
  shows "bq_run (map Push xs) q = Some ([],
    q\<lparr>bq_items := drop (length (bq_items q @ xs) - bq_capacity q) (bq_items q @ xs)\<rparr>)"
  using assms
proof (induction xs arbitrary: q)
  case Nil
  then show ?case by (simp add: bq_inv_def)
next
  case (Cons x xs)
  let ?q = "q\<lparr>bq_items := drop (Suc (length (bq_items q)) - bq_capacity q) (bq_items q @ [x])\<rparr>"
  have push: "bq_push x q = Some (length (bq_items q) < bq_capacity q, ?q)"
    using Cons.prems by (rule bq_push_open_oldest)
  have "bq_inv ?q" using Cons.prems(1) push by (rule bq_push_inv)
  moreover have "\<not> bq_closed ?q" "bq_policy ?q = kDropOldest" using Cons.prems by simp_all
  ultimately have IH: "bq_run (map Push xs) ?q = Some ([],
    ?q\<lparr>bq_items := drop (length (bq_items ?q @ xs) - bq_capacity ?q) (bq_items ?q @ xs)\<rparr>)"
    by (rule Cons.IH)
  have le: "length (bq_items q) \<le> bq_capacity q" using Cons.prems by (simp add: bq_inv_def)
  have "drop (length (bq_items ?q @ xs) - bq_capacity ?q) (bq_items ?q @ xs)
      = drop (length (bq_items q @ x # xs) - bq_capacity q) (bq_items q @ x # xs)"
  proof (cases "length (bq_items q) < bq_capacity q")
    case True
    then show ?thesis by simp
  next
    case False
    with le have "length (bq_items q) = bq_capacity q" by simp
    moreover obtain y ys where "bq_items q = y # ys"
      using calculation Cons.prems(1) by (cases "bq_items q") (auto simp: bq_inv_def)
    moreover have "bq_capacity q = Suc (length ys)" using calculation by simp
    ultimately show ?thesis by simp
  qed
  with IH push show ?case by simp
qed

section \<open>Properties\<close>

text \<open>Whatever the producer and the consumer do to a queue of positive capacity, no
  operation is undefined, the queue never exceeds its capacity, and the consumer receives, in
  order and without duplication, a subsequence of what was pushed, what is still queued
  following it.\<close>

theorem bounded_queue_delivery:
  assumes "0 < c"
  shows "\<exists>outs q. bq_run ops (bq_new c pol) = Some (outs, q)
    \<and> length (bq_items q) \<le> c \<and> subseq (outs @ bq_items q) (pushed ops)"
proof -
  note inv = bq_inv_new[OF assms, of pol]
  from bq_run_total[OF inv] obtain outs q where run: "bq_run ops (bq_new c pol) = Some (outs, q)"
    by blast
  have "bq_capacity q = c" using bq_run_capacity[OF run] by (simp add: bq_new_def)
  then have "length (bq_items q) \<le> c" using bq_run_inv[OF inv run] by (simp add: bq_inv_def)
  then show ?thesis using run bq_run_subseq[OF run] by (simp add: bq_new_def)
qed

theorem bounded_queue_delivery_witness:
  "(0::nat) < 2 \<and> (\<exists>outs q. bq_run [Push (1::nat), Push 2, Push 3, Pop, Close, Push 4] (bq_new 2 kDropOldest)
     = Some (outs, q) \<and> length (bq_items q) \<le> 2 \<and> subseq (outs @ bq_items q) [1, 2, 3, 4])"
  using bounded_queue_delivery[of 2 "[Push (1::nat), Push 2, Push 3, Pop, Close, Push 4]" kDropOldest]
  by simp

text \<open>An open drop-oldest queue keeps the latest data: after any sequence of pushes it holds
  exactly the last \<open>capacity\<close> items of everything that was queued, in order, and every push was
  defined.\<close>

theorem bounded_queue_keeps_latest:
  assumes "bq_inv q" "\<not> bq_closed q" "bq_policy q = kDropOldest"
  shows "bq_run (map Push xs) q = Some ([],
    q\<lparr>bq_items := drop (length (bq_items q @ xs) - bq_capacity q) (bq_items q @ xs)\<rparr>)"
  by (rule bq_run_pushes[OF assms])

theorem bounded_queue_keeps_latest_witness:
  "bq_run (map Push [1, 2, 3 :: nat]) (bq_new 2 kDropOldest)
     = Some ([], (bq_new 2 kDropOldest)\<lparr>bq_items := [2, 3]\<rparr>)"
  using bounded_queue_keeps_latest[of "bq_new 2 kDropOldest" "[1, 2, 3 :: nat]"]
  by (simp add: bq_new_def bq_inv_def)

end
