(* ===== verification/C_Text.thy ===== *)
theory C_Text
  imports IEEE_Float
begin

text \<open>
  Numbers and text in C: the conversions of \<open>printf\<close> the sources use, \<open>atoi\<close>, \<open>strtoull\<close> and the
  \<open>%d\<close> of \<open>sscanf\<close>, and that reading a number back gives the number printed.
\<close>

section \<open>Number formatting\<close>

fun dec_digits :: "nat \<Rightarrow> string" where
  "dec_digits n = (if n < 10 then [char_of (48 + n)] else dec_digits (n div 10) @ [char_of (48 + n mod 10)])"

declare dec_digits.simps [simp del]

text \<open>\<open>%.1f\<close>: one digit after the point, the exact value rounded half to even.\<close>

definition fmt_1f :: "fp \<Rightarrow> string" where
  "fmt_1f x =
     (case x of
        NaN \<Rightarrow> ''nan''
      | Inf s \<Rightarrow> (if s then ''-inf'' else ''inf'')
      | NZero \<Rightarrow> ''-0.0''
      | Fin v \<Rightarrow>
          (let t = nat (rne (\<bar>v\<bar> * 10))
           in (if v < 0 then ''-'' else '''') @ dec_digits (t div 10) @ ''.'' @ dec_digits (t mod 10)))"

text \<open>\<open>%.2f\<close>, and \<open>%d\<close> of an \<open>int32_t\<close>.\<close>

definition fmt_2f :: "fp \<Rightarrow> string" where
  "fmt_2f x =
     (case x of
        NaN \<Rightarrow> ''nan''
      | Inf s \<Rightarrow> (if s then ''-inf'' else ''inf'')
      | NZero \<Rightarrow> ''-0.00''
      | Fin v \<Rightarrow>
          (let t = nat (rne (\<bar>v\<bar> * 100))
           in (if v < 0 then ''-'' else '''') @ dec_digits (t div 100) @ ''.''
              @ dec_digits (t div 10 mod 10) @ dec_digits (t mod 10)))"

definition fmt_d :: "i32 \<Rightarrow> string" where
  "fmt_d n = (if sint n < 0 then ''-'' else '''') @ dec_digits (nat \<bar>sint n\<bar>)"

text \<open>Field widths: padding on the left with a character, on the right with blanks.\<close>

definition pad_left :: "char \<Rightarrow> nat \<Rightarrow> string \<Rightarrow> string" where
  "pad_left c n s = replicate (n - length s) c @ s"

definition pad_right :: "nat \<Rightarrow> string \<Rightarrow> string" where
  "pad_right n s = s @ replicate (n - length s) CHR '' ''"

section \<open>Number parsing\<close>

definition is_blank :: "char \<Rightarrow> bool" where
  "is_blank c \<longleftrightarrow> c = CHR '' '' \<or> 9 \<le> (of_char c :: nat) \<and> (of_char c :: nat) \<le> 13"

definition is_digit :: "char \<Rightarrow> bool" where
  "is_digit c \<longleftrightarrow> 48 \<le> (of_char c :: nat) \<and> (of_char c :: nat) \<le> 57"

definition digits_val :: "string \<Rightarrow> nat" where
  "digits_val ds = foldl (\<lambda>a c. a * 10 + (of_char c - 48)) 0 ds"

text \<open>Blanks, then a sign: whether it is a minus, and what follows.\<close>

definition skip_sign :: "string \<Rightarrow> bool \<times> string" where
  "skip_sign s =
     (case dropWhile is_blank s of
        [] \<Rightarrow> (False, [])
      | c # cs \<Rightarrow> if c = CHR ''-'' then (True, cs) else if c = CHR ''+'' then (False, cs) else (False, c # cs))"

text \<open>\<open>std::strtoull (s, nullptr, 10)\<close>: a value out of range gives \<open>ULLONG_MAX\<close>, a minus sign negates in
  the unsigned type.\<close>

definition strtoull10 :: "string \<Rightarrow> u64" where
  "strtoull10 s =
     (case skip_sign s of (neg, s) \<Rightarrow>
        let n = digits_val (takeWhile is_digit s)
        in if 2 ^ 64 \<le> n then - 1 else if neg then - of_nat n else of_nat n)"

text \<open>\<open>atoi\<close>: 0 without digits; undefined when the value is not an \<open>int\<close>.\<close>

definition as_int :: "bool \<Rightarrow> nat \<Rightarrow> int option" where
  "as_int neg n =
     (let v = (if neg then - int n else int n)
      in if - (2 ^ 31) \<le> v \<and> v < 2 ^ 31 then Some v else None)"

definition atoi :: "string \<Rightarrow> int option" where
  "atoi s = (case skip_sign s of (neg, s) \<Rightarrow> as_int neg (digits_val (takeWhile is_digit s)))"

text \<open>\<open>%d\<close> of \<open>sscanf\<close>: at least one digit, else the conversion fails; the rest of the input.\<close>

datatype scan = Scan_fail | Scan_undefined | Scanned int string

definition scan_d :: "string \<Rightarrow> scan" where
  "scan_d s =
     (case skip_sign s of (neg, s) \<Rightarrow>
        if takeWhile is_digit s = [] then Scan_fail
        else case as_int neg (digits_val (takeWhile is_digit s)) of
          None \<Rightarrow> Scan_undefined
        | Some v \<Rightarrow> Scanned v (dropWhile is_digit s))"

section \<open>Lemmas\<close>

lemma length_dec_digits: "0 < k \<Longrightarrow> n < 10 ^ k \<Longrightarrow> length (dec_digits n) \<le> k"
proof (induction k arbitrary: n)
  case (Suc k)
  show ?case
  proof (cases "n < 10")
    case True
    then show ?thesis by (simp add: dec_digits.simps[of n])
  next
    case False
    with Suc.prems have k: "0 < k" by (cases k) auto
    have "n div 10 < 10 ^ k" using Suc.prems(2) by (simp add: less_mult_imp_div_less mult.commute)
    from Suc.IH[OF k this] show ?thesis using False by (simp add: dec_digits.simps[of n])
  qed
qed simp

lemma of_char_digit: "k < 10 \<Longrightarrow> (of_char (char_of (48 + k :: nat)) :: nat) = 48 + k"
  by simp

lemma digits_val_snoc: "digits_val (ds @ [c]) = digits_val ds * 10 + (of_char c - 48)"
  by (simp add: digits_val_def)

lemma dec_digits_digits: "c \<in> set (dec_digits n) \<Longrightarrow> is_digit c"
proof (induction n rule: dec_digits.induct)
  case (1 n)
  have "is_digit (char_of (48 + n mod 10))" using of_char_digit[of "n mod 10"] by (simp add: is_digit_def)
  moreover have "n < 10 \<Longrightarrow> is_digit (char_of (48 + n))" using of_char_digit[of n] by (simp add: is_digit_def)
  ultimately show ?case using 1 by (auto simp: dec_digits.simps[of n] split: if_splits)
qed

lemma digits_val_dec_digits: "digits_val (dec_digits n) = n"
proof (induction n rule: dec_digits.induct)
  case (1 n)
  show ?case
  proof (cases "n < 10")
    case True
    then show ?thesis using of_char_digit[of n] by (simp add: dec_digits.simps[of n] digits_val_def)
  next
    case False
    then show ?thesis using 1 of_char_digit[of "n mod 10"]
      by (subst dec_digits.simps) (simp add: digits_val_snoc)
  qed
qed

lemma dec_digits_not_Nil [simp]: "dec_digits n \<noteq> []"
  by (simp add: dec_digits.simps[of n])

lemma digits_split:
  assumes "list_all is_digit ds" "rest = [] \<or> \<not> is_digit (hd rest)"
  shows "takeWhile is_digit (ds @ rest) = ds" "dropWhile is_digit (ds @ rest) = rest"
proof -
  have d: "\<forall>c\<in>set ds. is_digit c" using assms(1) by (simp add: list_all_iff)
  have r: "takeWhile is_digit rest = []" "dropWhile is_digit rest = rest"
    using assms(2) by (cases rest; simp)+
  show "takeWhile is_digit (ds @ rest) = ds" using d r by (subst takeWhile_append2) auto
  show "dropWhile is_digit (ds @ rest) = rest" using d r by (subst dropWhile_append2) auto
qed

lemma not_blank_digit: "is_digit c \<Longrightarrow> \<not> is_blank c" "is_digit c \<Longrightarrow> c \<noteq> CHR ''-''" "is_digit c \<Longrightarrow> c \<noteq> CHR ''+''"
  by (auto simp: is_digit_def is_blank_def)

lemma skip_sign_dec: "skip_sign (dec_digits n @ rest) = (False, dec_digits n @ rest)"
proof -
  obtain c cs where c: "dec_digits n = c # cs" by (cases "dec_digits n") auto
  then have "is_digit c" using dec_digits_digits[of c n] by simp
  then show ?thesis using not_blank_digit[of c] by (simp add: skip_sign_def c)
qed

lemma scan_d_fmt_d:
  assumes "rest = [] \<or> \<not> is_digit (hd rest)"
  shows "scan_d (fmt_d n @ rest) = Scanned (sint n) rest"
proof -
  have b: "- (2 ^ 31) \<le> sint n" "sint n < 2 ^ 31" using sint_greater_eq[of n] sint_less[of n] by simp_all
  have d: "list_all is_digit (dec_digits k)" for k using dec_digits_digits by (simp add: list_all_iff)
  have s: "skip_sign (fmt_d n @ rest) = (sint n < 0, dec_digits (nat \<bar>sint n\<bar>) @ rest)"
    using skip_sign_dec by (simp add: fmt_d_def skip_sign_def is_blank_def)
  show ?thesis
    using b by (simp add: scan_d_def s digits_split[OF d assms] digits_val_dec_digits as_int_def Let_def)
qed

lemma atoi_dec_digits: "n < 2 ^ 31 \<Longrightarrow> atoi (dec_digits n) = Some (int n)"
proof -
  assume n: "n < 2 ^ 31"
  have tw: "takeWhile is_digit (dec_digits n) = dec_digits n"
    using dec_digits_digits by (simp add: takeWhile_eq_all_conv)
  show ?thesis using skip_sign_dec[of n "[]"] n
    by (simp add: atoi_def as_int_def digits_val_dec_digits tw)
qed

end
