(* ===== verification/Control.thy ===== *)
theory Control
  imports Framing Bounded_Queue C_Text
begin

text \<open>
  The control plane: the shared state (\<open>include/ipc/yolo_control_state.h\<close>), the server
  (\<open>src/ipc/unix_control_server.cc\<close>) with its string-search JSON, its length-prefixed messages,
  its command dispatch and its connection loop, and the command builder of
  \<open>tools/control_client.cc\<close>. The two commands that wait for the main loop are split into what
  they do before waiting and what they answer afterwards.
\<close>

section \<open>Shared state\<close>

record ctl_state =
  ys_inference_enabled :: bool
  ys_dump_enabled :: bool
  ys_shutdown_requested :: bool
  ys_frame_id :: u64
  ys_fps :: fp
  ys_blackout_requested :: bool
  ys_blackout_active :: bool
  ys_resume_requested :: bool
  ys_resume_done :: bool

definition ctl_init :: ctl_state where
  "ctl_init = \<lparr>ys_inference_enabled = True, ys_dump_enabled = False, ys_shutdown_requested = False,
     ys_frame_id = 0, ys_fps = Fin 0, ys_blackout_requested = False, ys_blackout_active = False,
     ys_resume_requested = False, ys_resume_done = False\<rparr>"

section \<open>JSON by string search\<close>

abbreviation DQ :: char where
  "DQ \<equiv> CHR 0x22"

definition quoted :: "string \<Rightarrow> string" where
  "quoted s = [DQ] @ s @ [DQ]"

text \<open>\<open>json.find (pattern)\<close>: what follows the first occurrence, if there is one.\<close>

fun find_after :: "string \<Rightarrow> string \<Rightarrow> string option" where
  "find_after pat s =
     (if take (length pat) s = pat then Some (drop (length pat) s)
      else case s of [] \<Rightarrow> None | _ # s' \<Rightarrow> find_after pat s')"

declare find_after.simps [simp del]

definition extractString :: "string \<Rightarrow> string \<Rightarrow> string" where
  "extractString json key =
     (case find_after (quoted key @ '':'' @ [DQ]) json of
        None \<Rightarrow> []
      | Some rest \<Rightarrow> if DQ \<in> set rest then takeWhile (\<lambda>c. c \<noteq> DQ) rest else [])"

text \<open>The flag and the value, \<open>None\<close> for not found.\<close>

definition extractBool :: "string \<Rightarrow> string \<Rightarrow> bool option" where
  "extractBool json key =
     (if find_after (quoted key @ '':true'') json \<noteq> None then Some True
      else if find_after (quoted key @ '':false'') json \<noteq> None then Some False
      else None)"

definition okResponse :: string where
  "okResponse = ''{'' @ quoted ''ok'' @ '':true}''"

definition errResponse :: "string \<Rightarrow> string" where
  "errResponse msg = ''{'' @ quoted ''ok'' @ '':false,'' @ quoted ''error'' @ '':'' @ [DQ] @ msg @ [DQ] @ ''}''"

section \<open>Messages\<close>

definition recvMsg :: "delivery list \<Rightarrow> string \<times> delivery list" where
  "recvMsg s =
     (case readExact 4 s of
        (None, s) \<Rightarrow> ([], s)
      | (Some lb, s) \<Rightarrow>
          (let len = dec_u32 0 lb
           in if len = 0 \<or> 2 ^ 20 < unat len then ([], s)
              else case readExact (unat len) s of
                (None, s) \<Rightarrow> ([], s)
              | (Some body, s) \<Rightarrow> (dec_chars 0 (unat len) body, s)))"

text \<open>The length is the size of the message as 32 bits, and that many of its bytes are sent.\<close>

definition sendMsg :: "string \<Rightarrow> sink \<Rightarrow> bool \<times> sink" where
  "sendMsg msg s =
     (let len = of_nat (length msg) :: u32
      in case writeExact (enc_u32 len) s of
           (ok, s') \<Rightarrow> if ok then writeExact (take (unat len) (enc_chars msg)) s' else (False, s'))"

section \<open>The status\<close>

definition fmt_bool :: "bool \<Rightarrow> string" where
  "fmt_bool b = (if b then ''true'' else ''false'')"

text \<open>What \<open>snprintf\<close> would write without a limit, and with the buffer of 320 characters.\<close>

definition status_text :: "nat \<Rightarrow> ctl_state \<Rightarrow> string" where
  "status_text queue_depth st =
     ''{'' @ quoted ''ok'' @ '':true,'' @ quoted ''payload'' @ '':{'' @
     quoted ''inference_enabled'' @ '':'' @ fmt_bool (ys_inference_enabled st) @ '','' @
     quoted ''dump_enabled'' @ '':'' @ fmt_bool (ys_dump_enabled st) @ '','' @
     quoted ''frame_id'' @ '':'' @ dec_digits (unat (ys_frame_id st)) @ '','' @
     quoted ''queue_depth'' @ '':'' @ dec_digits queue_depth @ '','' @
     quoted ''fps'' @ '':'' @ fmt_1f (ys_fps st) @ ''}}''"

definition status_response :: "nat \<Rightarrow> ctl_state \<Rightarrow> string" where
  "status_response queue_depth st = take 319 (status_text queue_depth st)"

section \<open>Command dispatch\<close>

text \<open>A command is answered at once, or the handler waits on the lifecycle condition variable.\<close>

datatype outcome = Reply string | WaitBlackout | WaitResume

definition dispatchCommand :: "nat \<Rightarrow> string \<Rightarrow> ctl_state \<Rightarrow> outcome \<times> ctl_state" where
  "dispatchCommand queue_depth json st =
     (let cmd = extractString json ''cmd''
      in if cmd = ''pause_yolo'' then (Reply okResponse, st\<lparr>ys_inference_enabled := False\<rparr>)
         else if cmd = ''resume_yolo'' then (Reply okResponse, st\<lparr>ys_inference_enabled := True\<rparr>)
         else if cmd = ''get_status'' then (Reply (status_response queue_depth st), st)
         else if cmd = ''set_dump_enabled'' then
           (case extractBool json ''enabled'' of
              None \<Rightarrow> (Reply (errResponse (''missing '' @ [CHR 0x27] @ ''enabled'' @ [CHR 0x27] @
                          '' param (expected true/false)'')), st)
            | Some b \<Rightarrow> (Reply okResponse, st\<lparr>ys_dump_enabled := b\<rparr>))
         else if cmd = ''shutdown'' then (Reply okResponse, st\<lparr>ys_shutdown_requested := True\<rparr>)
         else if cmd = ''blackout'' then
           (WaitBlackout, st\<lparr>ys_inference_enabled := False, ys_blackout_requested := True\<rparr>)
         else if cmd = ''resume'' then
           (if \<not> ys_blackout_active st then (Reply (errResponse ''not in blackout''), st)
            else (WaitResume, st\<lparr>ys_resume_requested := True\<rparr>))
         else (Reply (errResponse ''unknown command''), st))"

text \<open>The answer when the wait ends: the predicate holds, or the timeout has passed.\<close>

definition finish_wait :: "outcome \<Rightarrow> ctl_state \<Rightarrow> string" where
  "finish_wait w st =
     (case w of
        Reply r \<Rightarrow> r
      | WaitBlackout \<Rightarrow> if ys_blackout_active st then okResponse else errResponse ''blackout timeout''
      | WaitResume \<Rightarrow> if ys_resume_done st then okResponse else errResponse ''resume timeout'')"

section \<open>The connection loop\<close>

text \<open>One connection. \<open>runs\<close> are the values of \<open>running_\<close> the loop reads; \<open>env\<close> is what the other
  threads do to the shared state from the dispatch of a command to its answer. The result: the
  answers sent and the final state.\<close>

fun handleConnection ::
  "(outcome \<Rightarrow> ctl_state \<Rightarrow> ctl_state) \<Rightarrow> nat \<Rightarrow> bool list \<Rightarrow> delivery list \<Rightarrow> sink \<Rightarrow> ctl_state
    \<Rightarrow> string list \<times> sink \<times> ctl_state" where
  "handleConnection env depth [] s k st = ([], k, st)"
| "handleConnection env depth (r # runs) s k st =
     (if \<not> r then ([], k, st)
      else case recvMsg s of (req, s') \<Rightarrow>
        if req = [] then ([], k, st)
        else case dispatchCommand depth req st of (w, st1) \<Rightarrow>
          (let st2 = env w st1; resp = finish_wait w st2
           in case sendMsg resp k of (ok, k') \<Rightarrow>
             if \<not> ok then ([resp], k', st2)
             else case handleConnection env depth runs s' k' st2 of
               (resps, k'', st') \<Rightarrow> (resp # resps, k'', st')))"

section \<open>The client\<close>

text \<open>\<open>argv[2]\<close> is the command, \<open>argv[3]\<close> its parameter, if given. The empty string: the usage
  error.\<close>

definition buildCommand :: "string \<Rightarrow> string option \<Rightarrow> string" where
  "buildCommand cmd arg =
     (if cmd = ''set_dump_enabled'' then
        (case arg of
           None \<Rightarrow> []
         | Some a \<Rightarrow>
             ''{'' @ quoted ''cmd'' @ '':'' @ quoted ''set_dump_enabled'' @ '','' @ quoted ''params'' @ '':{'' @
             quoted ''enabled'' @ '':'' @ (if a = ''true'' \<or> a = ''1'' then ''true'' else ''false'') @ ''}}'')
      else ''{'' @ quoted ''cmd'' @ '':'' @ [DQ] @ cmd @ [DQ] @ ''}'')"

section \<open>Searching\<close>

lemma find_after_here: "find_after pat (pat @ rest) = Some rest"
  by (simp add: find_after.simps[of pat "pat @ rest"])

lemma find_after_skip: "pat \<noteq> [] \<Longrightarrow> c \<noteq> hd pat \<Longrightarrow> find_after pat (c # s) = find_after pat s"
  by (subst find_after.simps) (cases pat; simp)

lemma extractString_first:
  assumes "DQ \<notin> set v"
  shows "extractString (CHR ''{'' # quoted key @ '':'' @ [DQ] @ v @ [DQ] @ rest) key = v"
proof -
  let ?p = "quoted key @ '':'' @ [DQ]"
  have "find_after ?p (CHR ''{'' # ?p @ v @ [DQ] @ rest) = Some (v @ [DQ] @ rest)"
  proof -
    have "?p \<noteq> []" "CHR ''{'' \<noteq> hd ?p" by (simp_all add: quoted_def)
    from find_after_skip[OF this] find_after_here[of ?p "v @ [DQ] @ rest"]
    show ?thesis by (simp only: append_assoc)
  qed
  moreover have "takeWhile (\<lambda>c. c \<noteq> DQ) (v @ [DQ] @ rest) = v"
    using assms by (induction v) auto
  ultimately show ?thesis by (simp add: extractString_def)
qed

lemma buildCommand_cmd:
  assumes "DQ \<notin> set cmd" "cmd = ''set_dump_enabled'' \<longrightarrow> arg \<noteq> None"
  shows "extractString (buildCommand cmd arg) ''cmd'' = cmd"
proof (cases "cmd = ''set_dump_enabled''")
  case True
  with assms(2) obtain a where a: "arg = Some a" by auto
  let ?rest = "'','' @ quoted ''params'' @ '':{'' @ quoted ''enabled'' @ '':'' @
     (if a = ''true'' \<or> a = ''1'' then ''true'' else ''false'') @ ''}}''"
  have "buildCommand cmd arg = CHR ''{'' # quoted ''cmd'' @ '':'' @ [DQ] @ cmd @ [DQ] @ ?rest"
    using True a by (simp add: buildCommand_def quoted_def)
  then show ?thesis by (simp only: extractString_first[OF assms(1)])
next
  case False
  then have "buildCommand cmd arg = CHR ''{'' # quoted ''cmd'' @ '':'' @ [DQ] @ cmd @ [DQ] @ ''}''"
    by (simp add: buildCommand_def)
  then show ?thesis by (simp only: extractString_first[OF assms(1)])
qed

lemma buildCommand_enabled:
  "extractBool (buildCommand ''set_dump_enabled'' (Some a)) ''enabled'' = Some (a = ''true'' \<or> a = ''1'')"
proof (cases "a = ''true'' \<or> a = ''1''")
  case True
  then show ?thesis by (auto simp: buildCommand_def extractBool_def quoted_def find_after.simps)
next
  case False
  then show ?thesis by (auto simp: buildCommand_def extractBool_def quoted_def find_after.simps)
qed

section \<open>Message round trip\<close>

definition msg_bytes :: "string \<Rightarrow> bytes" where
  "msg_bytes msg = enc_u32 (of_nat (length msg)) @ enc_chars msg"

lemma length_msg_bytes [simp]: "length (msg_bytes msg) = 4 + length msg"
  by (simp add: msg_bytes_def)

lemma unat_len: "n < 2 ^ 32 \<Longrightarrow> unat (of_nat n :: u32) = n"
  by (simp add: unat_of_nat)

lemma recvMsg_msg:
  assumes "avail s = msg_bytes msg @ rest" "msg \<noteq> []" "length msg \<le> 2 ^ 20"
  obtains s' where "recvMsg s = (msg, s')" "avail s' = rest"
proof -
  have u: "unat (of_nat (length msg) :: u32) = length msg" using assms(3) by (simp add: unat_len)
  have l: "(of_nat (length msg) :: u32) \<noteq> 0" using u assms(2) by (metis length_0_conv unat_0)
  obtain s1 where r1: "readExact 4 s = (Some (enc_u32 (of_nat (length msg))), s1)"
    and a1: "avail s1 = enc_chars msg @ rest"
    by (rule readExact_Some[of 4 s]) (simp_all add: assms(1) msg_bytes_def)
  obtain s2 where r2: "readExact (length msg) s1 = (Some (enc_chars msg), s2)" and a2: "avail s2 = rest"
    by (rule readExact_Some[of "length msg" s1]) (simp_all add: a1)
  have "recvMsg s = (msg, s2)"
    using assms(3) l u by (simp add: recvMsg_def r1 r2 Let_def codec_simps)
  with a2 show thesis using that by blast
qed

lemma sendMsg_write_all:
  "length msg < 2 ^ 32 \<Longrightarrow> sendMsg msg s = write_all [enc_u32 (of_nat (length msg)), enc_chars msg] s"
  by (auto simp: sendMsg_def Let_def unat_len split: prod.splits)

lemma sendMsg_sent:
  assumes "sendMsg msg k = (ok, k')" "length msg < 2 ^ 32"
  shows "if ok then sent k' = sent k @ msg_bytes msg
    else \<exists>n<length (msg_bytes msg). sent k' = sent k @ take n (msg_bytes msg)"
proof -
  have "concat [enc_u32 (of_nat (length msg)), enc_chars msg] = msg_bytes msg"
    by (simp add: msg_bytes_def)
  then show ?thesis
    using write_all_sent[OF assms(1)[unfolded sendMsg_write_all[OF assms(2)]]] by (simp only:)
qed

lemma sendMsg_succeeds:
  assumes "length (msg_bytes msg) \<le> length (accepts k)" "0 \<notin> set (accepts k)" "length msg < 2 ^ 32"
  obtains k' where "sendMsg msg k = (True, k')" "sent k' = sent k @ msg_bytes msg"
    "length (accepts k) \<le> length (accepts k') + length (msg_bytes msg)" "0 \<notin> set (accepts k')"
proof -
  obtain k1 where k1: "writeExact (enc_u32 (of_nat (length msg))) k = (True, k1)"
    "sent k1 = sent k @ enc_u32 (of_nat (length msg))"
    "length (accepts k) \<le> length (accepts k1) + 4" "set (accepts k1) \<subseteq> set (accepts k)"
    using writeExact_succeeds[of "enc_u32 (of_nat (length msg))" k] assms by auto
  have "length (enc_chars msg) \<le> length (accepts k1)" "0 \<notin> set (accepts k1)"
    using k1 assms by auto
  then obtain k2 where k2: "writeExact (enc_chars msg) k1 = (True, k2)" "sent k2 = sent k1 @ enc_chars msg"
    "length (accepts k1) \<le> length (accepts k2) + length msg" "set (accepts k2) \<subseteq> set (accepts k1)"
    using writeExact_succeeds[of "enc_chars msg" k1] by auto
  have "sendMsg msg k = (True, k2)" using k1(1) k2(1) by (simp add: sendMsg_write_all[OF assms(3)])
  then show thesis using k1 k2 assms by (intro that[of k2]) (auto simp: msg_bytes_def)
qed

section \<open>The status text fits its buffer\<close>

lemma maxfin_F32_le: "maxfin F32 \<le> 2 ^ 128"
  by (simp add: maxfin_def)

lemma length_fmt_1f:
  assumes "in_fmt F32 x"
  shows "length (fmt_1f x) \<le> 45"
proof (cases x)
  case (Fin v)
  have "\<bar>v\<bar> \<le> 2 ^ 128" using assms maxfin_F32_le Fin by auto
  then have "\<bar>v\<bar> * 10 + 1 / 2 \<le> of_int (10 ^ 40 - 1)" by simp
  with rne_bounds(1)[of "\<bar>v\<bar> * 10"] have "of_int (rne (\<bar>v\<bar> * 10)) \<le> (of_int (10 ^ 40 - 1) :: rat)"
    by (rule order_trans)
  then have "rne (\<bar>v\<bar> * 10) \<le> 10 ^ 40 - 1" by (simp only: of_int_le_iff)
  then have t: "nat (rne (\<bar>v\<bar> * 10)) < 10 ^ 40" by simp
  have "length (dec_digits (nat (rne (\<bar>v\<bar> * 10)) div 10)) \<le> 40"
    using t by (intro length_dec_digits) (auto simp: div_less_dividend intro: le_less_trans[OF div_le_dividend])
  moreover have "length (dec_digits (nat (rne (\<bar>v\<bar> * 10)) mod 10)) \<le> 1"
    by (intro length_dec_digits) auto
  moreover have "length (fmt_1f x) \<le> 2 + length (dec_digits (nat (rne (\<bar>v\<bar> * 10)) div 10))
      + length (dec_digits (nat (rne (\<bar>v\<bar> * 10)) mod 10))"
    by (simp add: Fin fmt_1f_def Let_def del: abs_mult_pos abs_of_nonneg)
  ultimately show ?thesis by linarith
qed (simp_all add: fmt_1f_def)

lemma length_status:
  assumes "in_fmt F32 (ys_fps st)" "depth < 2 ^ 64"
  shows "length (status_text depth st) \<le> 319"
proof -
  have "unat (ys_frame_id st) < 2 ^ 64" using unsigned_less[of "ys_frame_id st"] by simp
  then have "length (dec_digits (unat (ys_frame_id st))) \<le> 20" by (intro length_dec_digits) auto
  moreover have "length (dec_digits depth) \<le> 20" using assms(2) by (intro length_dec_digits) auto
  ultimately show ?thesis using length_fmt_1f[OF assms(1)]
    by (simp add: status_text_def quoted_def fmt_bool_def)
qed

section \<open>The connection loop answers in order\<close>

text \<open>What the server answers to a list of requests.\<close>

fun answers ::
  "(outcome \<Rightarrow> ctl_state \<Rightarrow> ctl_state) \<Rightarrow> nat \<Rightarrow> string list \<Rightarrow> ctl_state \<Rightarrow> string list \<times> ctl_state" where
  "answers env depth [] st = ([], st)"
| "answers env depth (req # reqs) st =
     (case dispatchCommand depth req st of (w, st1) \<Rightarrow>
        let st2 = env w st1
        in case answers env depth reqs st2 of (rs, st') \<Rightarrow> (finish_wait w st2 # rs, st'))"

lemma response_length:
  assumes "dispatchCommand depth req st = (w, st1)"
  shows "length (finish_wait w st2) < 2 ^ 32"
proof -
  have "length (finish_wait w st2) \<le> 319"
    using assms by (auto simp: dispatchCommand_def Let_def finish_wait_def okResponse_def errResponse_def
        quoted_def status_response_def split: if_splits option.splits)
  then show ?thesis by simp
qed

lemma handleConnection_answers:
  assumes "\<forall>r\<in>set reqs. r \<noteq> [] \<and> length r \<le> 2 ^ 20"
    and "avail s = concat (map msg_bytes reqs)"
    and "length (concat (map msg_bytes (fst (answers env depth reqs st)))) \<le> length (accepts k)"
    and "0 \<notin> set (accepts k)"
  shows "\<exists>k'. handleConnection env depth (replicate (Suc (length reqs)) True) s k st
      = (fst (answers env depth reqs st), k', snd (answers env depth reqs st))
    \<and> sent k' = sent k @ concat (map msg_bytes (fst (answers env depth reqs st)))"
  using assms
proof (induction reqs arbitrary: s k st)
  case Nil
  then have "avail s = []" by simp
  then obtain s' where "readExact 4 s = (None, s')" by (metis readExact_None list.size(3) zero_less_numeral)
  then show ?case by (simp add: recvMsg_def)
next
  case (Cons req reqs)
  obtain s' where s': "recvMsg s = (req, s')" "avail s' = concat (map msg_bytes reqs)"
    by (rule recvMsg_msg[of s req "concat (map msg_bytes reqs)"]) (use Cons.prems in auto)
  obtain w st1 where d: "dispatchCommand depth req st = (w, st1)"
    by (cases "dispatchCommand depth req st")
  let ?st2 = "env w st1" and ?r = "finish_wait w (env w st1)"
  obtain rs st' where a: "answers env depth reqs ?st2 = (rs, st')" by (cases "answers env depth reqs ?st2")
  have ans: "answers env depth (req # reqs) st = (?r # rs, st')" by (simp add: d a Let_def)
  have len: "length (msg_bytes ?r) + length (concat (map msg_bytes rs)) \<le> length (accepts k)"
    using Cons.prems(3) unfolding ans by simp
  then have "length (msg_bytes ?r) \<le> length (accepts k)" by linarith
  from sendMsg_succeeds[OF this Cons.prems(4) response_length[OF d]]
  obtain k1 where k1: "sendMsg ?r k = (True, k1)" "sent k1 = sent k @ msg_bytes ?r"
    "length (accepts k) \<le> length (accepts k1) + length (msg_bytes ?r)" "0 \<notin> set (accepts k1)" .
  then have k1l: "length (concat (map msg_bytes rs)) \<le> length (accepts k1)" using len by linarith
  have "\<exists>k'. handleConnection env depth (replicate (Suc (length reqs)) True) s' k1 ?st2
      = (fst (answers env depth reqs ?st2), k', snd (answers env depth reqs ?st2))
    \<and> sent k' = sent k1 @ concat (map msg_bytes (fst (answers env depth reqs ?st2)))"
    using Cons.prems(1) s'(2) k1(4) k1l by (intro Cons.IH) (simp_all add: a)
  then obtain k' where k': "handleConnection env depth (replicate (Suc (length reqs)) True) s' k1 ?st2
      = (rs, k', st')" "sent k' = sent k1 @ concat (map msg_bytes rs)"
    by (auto simp: a)
  have "handleConnection env depth (replicate (Suc (length (req # reqs))) True) s k st = (?r # rs, k', st')"
    using Cons.prems(1) k1(1) k'(1) by (simp add: s' d Let_def)
  then show ?case using k'(2) k1(2) unfolding ans by (intro exI[of _ k']) simp
qed

section \<open>Properties\<close>

text \<open>From the command line of the client to the server: whatever command is sent, in whatever
  chunks it arrives, the server receives the text the client built and reads out of it the
  command, and for \<open>set_dump_enabled\<close> the value, that was meant.\<close>

theorem control_roundtrip:
  assumes "DQ \<notin> set cmd" "length cmd \<le> 1000" "cmd = ''set_dump_enabled'' \<longrightarrow> arg \<noteq> None"
    and "sendMsg (buildCommand cmd arg) k = (True, k')" "sent k = []" "avail s = sent k'"
  shows "fst (recvMsg s) = buildCommand cmd arg
    \<and> extractString (fst (recvMsg s)) ''cmd'' = cmd
    \<and> (\<forall>a. cmd = ''set_dump_enabled'' \<and> arg = Some a \<longrightarrow>
        extractBool (fst (recvMsg s)) ''enabled'' = Some (a = ''true'' \<or> a = ''1''))"
proof -
  have ne: "buildCommand cmd arg \<noteq> []" and len: "length (buildCommand cmd arg) \<le> 2 ^ 20"
    using assms(2,3) by (auto simp: buildCommand_def quoted_def)
  from sendMsg_sent[OF assms(4)] len assms(5) have "sent k' = msg_bytes (buildCommand cmd arg)" by simp
  with assms(6) have "avail s = msg_bytes (buildCommand cmd arg) @ []" by simp
  from recvMsg_msg[OF this ne len] have r: "fst (recvMsg s) = buildCommand cmd arg" by (metis fst_conv)
  then show ?thesis
    using buildCommand_cmd[OF assms(1,3)] buildCommand_enabled by auto
qed

theorem control_roundtrip_witness:
  "fst (recvMsg [Data (take 3 (msg_bytes (buildCommand ''set_dump_enabled'' (Some ''1'')))),
      Data (drop 3 (msg_bytes (buildCommand ''set_dump_enabled'' (Some ''1''))))])
    = buildCommand ''set_dump_enabled'' (Some ''1'')"
proof -
  let ?m = "buildCommand ''set_dump_enabled'' (Some ''1'')"
  have len: "3 < length ?m" "length ?m \<le> 90" by (simp_all add: buildCommand_def quoted_def)
  obtain k' where k': "sendMsg ?m \<lparr>sent = [], accepts = replicate 100 7\<rparr> = (True, k')"
    "sent k' = msg_bytes ?m"
    using sendMsg_succeeds[of ?m "\<lparr>sent = [], accepts = replicate 100 7\<rparr>"] len by auto
  have "0 < length (take 3 (msg_bytes ?m))" "0 < length (drop 3 (msg_bytes ?m))" using len by simp_all
  then have "take 3 (msg_bytes ?m) \<noteq> []" "drop 3 (msg_bytes ?m) \<noteq> []" by (simp_all only: length_greater_0_conv not_False_eq_True)
  then have "avail [Data (take 3 (msg_bytes ?m)), Data (drop 3 (msg_bytes ?m))] = msg_bytes ?m"
    by (simp add: avail_Data)
  then show ?thesis using control_roundtrip[of "''set_dump_enabled''" "Some ''1''", OF _ _ _ k'(1)] k'(2)
    by simp
qed

text \<open>The server answers every request of a session in order, each against the state the
  previous ones and the other threads left, and sends exactly the framed answers.\<close>

theorem control_session:
  assumes "\<forall>r\<in>set reqs. r \<noteq> [] \<and> length r \<le> 2 ^ 20"
    and "avail s = concat (map msg_bytes reqs)"
    and "length (concat (map msg_bytes (fst (answers env depth reqs st)))) \<le> length (accepts k)"
    and "0 \<notin> set (accepts k)"
  shows "\<exists>k'. handleConnection env depth (replicate (Suc (length reqs)) True) s k st
      = (fst (answers env depth reqs st), k', snd (answers env depth reqs st))
    \<and> sent k' = sent k @ concat (map msg_bytes (fst (answers env depth reqs st)))"
  by (rule handleConnection_answers[OF assms])

theorem control_session_witness:
  "\<exists>k'. handleConnection (\<lambda>w st. st) 0 [True, True] [Data (msg_bytes (buildCommand ''pause_yolo'' None))]
      \<lparr>sent = [], accepts = replicate 100 5\<rparr> ctl_init
    = ([okResponse], k', ctl_init\<lparr>ys_inference_enabled := False\<rparr>)
    \<and> sent k' = msg_bytes okResponse"
proof -
  let ?m = "buildCommand ''pause_yolo'' None"
  have c: "extractString ?m ''cmd'' = ''pause_yolo''" by (rule buildCommand_cmd) auto
  have a: "answers (\<lambda>w st. st) 0 [?m] ctl_init = ([okResponse], ctl_init\<lparr>ys_inference_enabled := False\<rparr>)"
    by (simp add: dispatchCommand_def c finish_wait_def Let_def)
  have "?m \<noteq> []" "length ?m \<le> 2 ^ 20" by (auto simp: buildCommand_def quoted_def)
  moreover have "avail [Data (msg_bytes ?m)] = msg_bytes ?m"
    by (cases "msg_bytes ?m") simp_all
  ultimately show ?thesis
    using control_session[of "[?m]" "[Data (msg_bytes ?m)]" "\<lambda>w st. st" 0 ctl_init "\<lparr>sent = [], accepts = replicate 100 5\<rparr>"]
    unfolding a by (simp add: okResponse_def quoted_def numeral_2_eq_2)
qed

text \<open>What each command does to the shared state and when it is answered: pausing and resuming
  set the inference flag, a shutdown sets the shutdown flag, a blackout stops inference and
  raises the request before it waits, a resume is refused outside a blackout, and every other
  text changes nothing.\<close>

theorem dispatch_effects:
  "dispatchCommand d (buildCommand ''pause_yolo'' None) st = (Reply okResponse, st\<lparr>ys_inference_enabled := False\<rparr>)
   \<and> dispatchCommand d (buildCommand ''resume_yolo'' None) st = (Reply okResponse, st\<lparr>ys_inference_enabled := True\<rparr>)
   \<and> dispatchCommand d (buildCommand ''set_dump_enabled'' (Some a)) st
      = (Reply okResponse, st\<lparr>ys_dump_enabled := (a = ''true'' \<or> a = ''1'')\<rparr>)
   \<and> dispatchCommand d (buildCommand ''shutdown'' None) st = (Reply okResponse, st\<lparr>ys_shutdown_requested := True\<rparr>)
   \<and> dispatchCommand d (buildCommand ''blackout'' None) st
      = (WaitBlackout, st\<lparr>ys_inference_enabled := False, ys_blackout_requested := True\<rparr>)
   \<and> dispatchCommand d (buildCommand ''resume'' None) st
      = (if ys_blackout_active st then (WaitResume, st\<lparr>ys_resume_requested := True\<rparr>)
         else (Reply (errResponse ''not in blackout''), st))
   \<and> (extractString json ''cmd'' \<notin> {''pause_yolo'', ''resume_yolo'', ''get_status'', ''set_dump_enabled'',
        ''shutdown'', ''blackout'', ''resume''}
      \<longrightarrow> dispatchCommand d json st = (Reply (errResponse ''unknown command''), st))"
proof -
  have c: "extractString (buildCommand c x) ''cmd'' = c" if "DQ \<notin> set c" "c = ''set_dump_enabled'' \<longrightarrow> x \<noteq> None" for c x
    using that by (rule buildCommand_cmd)
  show ?thesis by (simp add: dispatchCommand_def c Let_def buildCommand_enabled)
qed

theorem dispatch_effects_witness:
  "dispatchCommand 3 ''hello'' ctl_init = (Reply (errResponse ''unknown command''), ctl_init)"
proof -
  have "extractString ''hello'' ''cmd'' = []"
    by (simp add: extractString_def quoted_def find_after.simps)
  then show ?thesis using dispatch_effects[of 3 ctl_init "[]" "''hello''"] by simp
qed

text \<open>The status answer is never cut off: for any frame counter, any queue depth a
  \<open>size_t\<close> can hold and any frame rate a \<open>float\<close> can hold, the text fits the buffer of 320
  characters.\<close>

theorem status_not_truncated:
  assumes "in_fmt F32 (ys_fps st)" "depth < 2 ^ 64"
  shows "status_response depth st = status_text depth st"
  using length_status[OF assms] by (simp add: status_response_def)

theorem status_not_truncated_witness:
  "status_response 32 ctl_init = status_text 32 ctl_init"
  using status_not_truncated[of ctl_init 32] by (simp add: ctl_init_def)

end
