(* ===== verification/Data_Plane.thy ===== *)
theory Data_Plane
  imports Framing Bounded_Queue
begin

text \<open>
  The data plane of the YOLO process: the in-process messages (\<open>include/postprocess.h\<close>,
  \<open>include/ipc/messages.h\<close>), their serialisation \<open>UnixDataPublisher::sendFrame\<close>, the
  publisher with its bounded queue and sender thread (\<open>src/ipc/unix_data_publisher.cc\<close>), and
  the two reference receivers that decode the detection and track streams
  (\<open>tools/data_receiver.cc\<close>, \<open>tools/tracks_receiver.cc\<close>).
\<close>

section \<open>Messages\<close>

definition OBJ_NAME_MAX_SIZE :: nat where "OBJ_NAME_MAX_SIZE = 16"
definition OBJ_NUMB_MAX_SIZE :: nat where "OBJ_NUMB_MAX_SIZE = 64"
definition OBJ_CLASS_NUM :: nat where "OBJ_CLASS_NUM = 1"

record detect_result =
  dr_name :: string \<comment> \<open>\<open>char[OBJ_NAME_MAX_SIZE]\<close>\<close>
  dr_left :: i32
  dr_right :: i32
  dr_top :: i32
  dr_bottom :: i32
  dr_prop :: fp

record detect_result_group =
  dg_id :: int
  dg_count :: int
  dg_results :: "detect_result list" \<comment> \<open>\<open>detect_result_t[OBJ_NUMB_MAX_SIZE]\<close>\<close>

definition zero_result :: detect_result where
  "zero_result = \<lparr>dr_name = replicate OBJ_NAME_MAX_SIZE NUL, dr_left = 0, dr_right = 0,
     dr_top = 0, dr_bottom = 0, dr_prop = Fin 0\<rparr>"

text \<open>\<open>memset (group, 0, ...)\<close> and \<open>group = {}\<close>: no detection.\<close>

definition zero_group :: detect_result_group where
  "zero_group = \<lparr>dg_id = 0, dg_count = 0, dg_results = replicate OBJ_NUMB_MAX_SIZE zero_result\<rparr>"

record detection_message =
  dm_frame_id :: u64
  dm_timestamp_us :: u64
  dm_group :: detect_result_group

definition wf_group :: "detect_result_group \<Rightarrow> bool" where
  "wf_group g \<longleftrightarrow> 0 \<le> dg_count g \<and> dg_count g \<le> int OBJ_NUMB_MAX_SIZE
     \<and> length (dg_results g) = OBJ_NUMB_MAX_SIZE
     \<and> (\<forall>r\<in>set (dg_results g). length (dr_name r) = OBJ_NAME_MAX_SIZE \<and> in_fmt F32 (dr_prop r))"

lemma wf_zero_group [simp]: "wf_group zero_group"
  by (auto simp: wf_group_def zero_group_def zero_result_def)

section \<open>sendFrame\<close>

text \<open>The wire record of a detection: \<open>WireDetectionRecord rec{}\<close>, then field by field;
  \<open>strncpy\<close> copies at most 15 characters into the zeroed name, which so stays terminated.\<close>

definition wire_of_result :: "detect_result \<Rightarrow> wire_detection" where
  "wire_of_result r = \<lparr>wd_class_name = strncpy (dr_name r) 15 @ [NUL],
     wd_confidence = dr_prop r, wd_left = dr_left r, wd_top = dr_top r, wd_right = dr_right r,
     wd_bottom = dr_bottom r\<rparr>"

definition frame_header :: "detection_message \<Rightarrow> wire_frame_header" where
  "frame_header msg = \<lparr>wh_frame_id = dm_frame_id msg, wh_timestamp_us = dm_timestamp_us msg,
     wh_count = word_of_int (dg_count (dm_group msg)), wh_reserved = replicate 6 0\<rparr>"

text \<open>The record loop. \<open>None\<close>: the loop reads past the 64 results (undefined behaviour).\<close>

function send_results :: "detect_result_group \<Rightarrow> nat \<Rightarrow> sink \<Rightarrow> (bool \<times> sink) option" where
  "send_results g i s =
     (if int i < dg_count g then
        (if i < length (dg_results g) then
           (case writeExact (enc_detection (wire_of_result (dg_results g ! i))) s of
              (ok, s') \<Rightarrow> if ok then send_results g (Suc i) s' else Some (False, s'))
         else None)
      else Some (True, s))"
  by pat_completeness auto
termination
  by (relation "measure (\<lambda>(g, i, s). nat (dg_count g - int i))") auto

declare send_results.simps [simp del]

definition sendFrame :: "detection_message \<Rightarrow> sink \<Rightarrow> (bool \<times> sink) option" where
  "sendFrame msg s =
     (let count = word_of_int (dg_count (dm_group msg)) :: u16;
          body = of_nat sizeof_WireFrameHeader + ucast count * of_nat sizeof_WireDetectionRecord :: u32
      in case writeExact (enc_u32 body) s of
           (ok1, s1) \<Rightarrow>
             if \<not> ok1 then Some (False, s1)
             else case writeExact (enc_header (frame_header msg)) s1 of
               (ok2, s2) \<Rightarrow>
                 if \<not> ok2 then Some (False, s2) else send_results (dm_group msg) 0 s2)"

text \<open>The bytes of a message on the data socket.\<close>

definition message_records :: "detection_message \<Rightarrow> wire_detection list" where
  "message_records msg =
     map wire_of_result (take (nat (dg_count (dm_group msg))) (dg_results (dm_group msg)))"

definition message_bytes :: "detection_message \<Rightarrow> bytes" where
  "message_bytes msg =
     frame_bytes enc_detection sizeof_WireDetectionRecord (frame_header msg) (message_records msg)"

definition wf_message :: "detection_message \<Rightarrow> bool" where
  "wf_message msg \<longleftrightarrow> wf_group (dm_group msg)"

lemma length_message_records:
  "wf_message msg \<Longrightarrow> length (message_records msg) = nat (dg_count (dm_group msg))"
  by (auto simp: wf_message_def wf_group_def message_records_def min_def)

lemma wf_message_records: "wf_message msg \<Longrightarrow> \<forall>r\<in>set (message_records msg). wf_detection r"
  by (auto simp: wf_message_def wf_group_def message_records_def wf_detection_def wire_of_result_def
      dest: in_set_takeD)

lemma wf_frame_header [simp]: "wf_header (frame_header msg)"
  by (simp add: wf_header_def frame_header_def)

lemma frame_header_count:
  "wf_message msg \<Longrightarrow> unat (wh_count (frame_header msg)) = length (message_records msg)"
proof -
  assume wf: "wf_message msg"
  then have c: "0 \<le> dg_count (dm_group msg)" "dg_count (dm_group msg) \<le> 64"
    by (simp_all add: wf_message_def wf_group_def OBJ_NUMB_MAX_SIZE_def)
  have "unat (word_of_int (dg_count (dm_group msg)) :: u16) = nat (dg_count (dm_group msg) mod 2 ^ 16)"
    by (simp add: unat_eq_nat_uint uint_word_of_int)
  then have "unat (wh_count (frame_header msg)) = nat (dg_count (dm_group msg))"
    using c by (simp add: frame_header_def)
  then show ?thesis using wf by (simp add: length_message_records)
qed

lemma send_results_write_all:
  assumes "0 \<le> dg_count g" "dg_count g \<le> int (length (dg_results g))"
  shows "send_results g i s = Some (write_all
    (map (enc_detection \<circ> wire_of_result) (drop i (take (nat (dg_count g)) (dg_results g)))) s)"
  using assms
proof (induction g i s rule: send_results.induct)
  case (1 g i s)
  show ?case
  proof (cases "int i < dg_count g")
    case True
    with "1.prems" have i: "i < length (dg_results g)" by linarith
    have d: "drop i (take (nat (dg_count g)) (dg_results g))
        = dg_results g ! i # drop (Suc i) (take (nat (dg_count g)) (dg_results g))"
      using True i by (subst Cons_nth_drop_Suc [symmetric]) auto
    obtain ok s' where w: "writeExact (enc_detection (wire_of_result (dg_results g ! i))) s = (ok, s')"
      by (cases "writeExact (enc_detection (wire_of_result (dg_results g ! i))) s")
    show ?thesis
    proof (cases ok)
      case True
      with "1.IH"[OF \<open>int i < dg_count g\<close> i w[symmetric]] "1.prems" i \<open>int i < dg_count g\<close>
      show ?thesis unfolding d by (simp add: send_results.simps[of g i s] w)
    next
      case False
      with i \<open>int i < dg_count g\<close> show ?thesis unfolding d by (simp add: send_results.simps[of g i s] w)
    qed
  next
    case False
    then show ?thesis by (simp add: send_results.simps[of g i s])
  qed
qed

text \<open>For a group the postprocessing can produce, \<open>sendFrame\<close> is the framing of its records.\<close>

lemma sendFrame_send_frame:
  assumes "wf_message msg"
  shows "sendFrame msg s = Some (send_frame enc_detection sizeof_WireDetectionRecord
    (frame_header msg) (message_records msg) s)"
proof -
  have g: "0 \<le> dg_count (dm_group msg)" "dg_count (dm_group msg) \<le> int (length (dg_results (dm_group msg)))"
    using assms by (simp_all add: wf_message_def wf_group_def)
  have "(ucast (word_of_int (dg_count (dm_group msg)) :: u16) :: u32)
      = of_nat (unat (wh_count (frame_header msg)))"
    by (simp add: frame_header_def)
  also have "\<dots> = of_nat (length (message_records msg))"
    by (simp only: frame_header_count[OF assms])
  finally have "of_nat sizeof_WireFrameHeader + ucast (word_of_int (dg_count (dm_group msg)) :: u16)
      * of_nat sizeof_WireDetectionRecord = body_size sizeof_WireDetectionRecord (length (message_records msg))"
    by (simp add: body_size_def)
  then show ?thesis
    unfolding sendFrame_def send_frame_def Let_def
    by (simp add: send_results_write_all[OF g] message_records_def split: prod.splits)
qed

section \<open>The receivers\<close>

text \<open>\<open>receiveLoop\<close> of \<open>tools/data_receiver.cc\<close> and of \<open>tools/tracks_receiver.cc\<close>: the frames
  printed and why the loop ended.\<close>

definition data_receiveLoop ::
  "delivery list \<Rightarrow> (wire_frame_header \<times> wire_detection list) list \<times> wire_detection recv" where
  "data_receiveLoop s = recv_loop dec_detection sizeof_WireDetectionRecord s"

definition tracks_receiveLoop ::
  "delivery list \<Rightarrow> (wire_frame_header \<times> wire_track list) list \<times> wire_track recv" where
  "tracks_receiveLoop s = recv_loop dec_track sizeof_WireTrackRecord s"

lemma data_receiveLoop_messages:
  assumes "\<forall>m\<in>set msgs. wf_message m" and "avail s = concat (map message_bytes msgs)"
  shows "data_receiveLoop s = (map (\<lambda>m. (frame_header m, message_records m)) msgs, Closed)"
  unfolding data_receiveLoop_def
proof (rule det.recv_loop_frames)
  show "\<forall>(h, rs)\<in>set (map (\<lambda>m. (frame_header m, message_records m)) msgs).
      wf_header h \<and> unat (wh_count h) = length rs \<and> length rs \<le> kMaxDetections
      \<and> (\<forall>r\<in>set rs. wf_detection r)"
    using assms(1) wf_message_records
    by (auto simp: frame_header_count length_message_records wf_message_def wf_group_def
        OBJ_NUMB_MAX_SIZE_def kMaxDetections_def)
  show "avail s = concat (map (\<lambda>(h, rs). frame_bytes enc_detection sizeof_WireDetectionRecord h rs)
      (map (\<lambda>m. (frame_header m, message_records m)) msgs))"
    by (simp add: assms(2) comp_def message_bytes_def [abs_def])
qed (simp add: sizeof_WireDetectionRecord_def)

section \<open>UnixDataPublisher\<close>

text \<open>
  The publisher's state: the queue the pipeline pushes to, the running flag, whether the
  listening socket is open, and the consumer connection of the sender thread. The events are
  the calls of the pipeline thread (\<open>start\<close>, \<open>publish\<close>, \<open>stop\<close>) and the steps of
  \<open>senderLoop\<close> (an \<open>accept\<close>, one turn of the inner loop).
\<close>

record publisher =
  pb_queue :: "detection_message bqueue"
  pb_running :: bool
  pb_listen :: bool
  pb_conn :: "sink option"

definition pub_new :: "nat \<Rightarrow> publisher" where
  "pub_new queueCapacity = \<lparr>pb_queue = bq_new queueCapacity kDropOldest, pb_running = False,
     pb_listen = False, pb_conn = None\<rparr>"

text \<open>\<open>start\<close>: the outcome of \<open>socket\<close>, \<open>bind\<close> and \<open>listen\<close> are inputs; any failure leaves the
  publisher not running and without a socket.\<close>

definition pub_start :: "bool \<Rightarrow> bool \<Rightarrow> bool \<Rightarrow> publisher \<Rightarrow> publisher" where
  "pub_start socket_ok bind_ok listen_ok p =
     (if \<not> socket_ok then p
      else if \<not> bind_ok then p\<lparr>pb_listen := False\<rparr>
      else if \<not> listen_ok then p\<lparr>pb_listen := False\<rparr>
      else p\<lparr>pb_listen := True, pb_running := True\<rparr>)"

definition pub_stop :: "publisher \<Rightarrow> publisher" where
  "pub_stop p = p\<lparr>pb_running := False, pb_queue := bq_close (pb_queue p), pb_listen := False\<rparr>"

definition pub_publish :: "detection_message \<Rightarrow> publisher \<Rightarrow> (bool \<times> publisher) option" where
  "pub_publish msg p = map_option (\<lambda>(ok, q). (ok, p\<lparr>pb_queue := q\<rparr>)) (bq_push msg (pb_queue p))"

definition queueDepth :: "publisher \<Rightarrow> nat" where
  "queueDepth p = bq_size (pb_queue p)"

text \<open>\<open>senderLoop\<close>, outer loop: accept a consumer while running.\<close>

definition sender_accept :: "sink \<Rightarrow> publisher \<Rightarrow> publisher" where
  "sender_accept k p =
     (if pb_running p \<and> pb_listen p \<and> pb_conn p = None then p\<lparr>pb_conn := Some k\<rparr> else p)"

text \<open>One turn of the inner loop: the frame taken from the queue, if any, with whether it was
  sent completely. A failed send, or the end of the loop, closes the connection.\<close>

definition sender_turn :: "publisher \<Rightarrow> ((detection_message \<times> bool) option \<times> publisher) option" where
  "sender_turn p =
     (case pb_conn p of
        None \<Rightarrow> Some (None, p)
      | Some k \<Rightarrow>
          if \<not> pb_running p then Some (None, p\<lparr>pb_conn := None\<rparr>)
          else case bq_pop (pb_queue p) of
            (None, q) \<Rightarrow> Some (None, p\<lparr>pb_queue := q\<rparr>)
          | (Some msg, q) \<Rightarrow>
              (case sendFrame msg k of
                 None \<Rightarrow> None
               | Some (True, k') \<Rightarrow> Some (Some (msg, True), p\<lparr>pb_queue := q, pb_conn := Some k'\<rparr>)
               | Some (False, k') \<Rightarrow> Some (Some (msg, False), p\<lparr>pb_queue := q, pb_conn := None\<rparr>)))"

datatype pub_event = EvPublish detection_message | EvAccept sink | EvTurn | EvStop

fun pub_step :: "pub_event \<Rightarrow> publisher \<Rightarrow> ((detection_message \<times> bool) list \<times> publisher) option" where
  "pub_step (EvPublish m) p = map_option (\<lambda>(ok, p'). ([], p')) (pub_publish m p)"
| "pub_step (EvAccept k) p = Some ([], sender_accept k p)"
| "pub_step EvTurn p = map_option (\<lambda>(out, p'). (case out of None \<Rightarrow> [] | Some o' \<Rightarrow> [o'], p')) (sender_turn p)"
| "pub_step EvStop p = Some ([], pub_stop p)"

fun pub_run :: "pub_event list \<Rightarrow> publisher \<Rightarrow> ((detection_message \<times> bool) list \<times> publisher) option" where
  "pub_run [] p = Some ([], p)"
| "pub_run (e # es) p = (case pub_step e p of
     None \<Rightarrow> None
   | Some (out, p') \<Rightarrow> map_option (\<lambda>(outs, p''). (out @ outs, p'')) (pub_run es p'))"

fun published :: "pub_event list \<Rightarrow> detection_message list" where
  "published [] = []"
| "published (EvPublish m # es) = m # published es"
| "published (EvAccept k # es) = published es"
| "published (EvTurn # es) = published es"
| "published (EvStop # es) = published es"

definition pub_inv :: "publisher \<Rightarrow> bool" where
  "pub_inv p \<longleftrightarrow> bq_inv (pb_queue p) \<and> (\<forall>m\<in>set (bq_items (pb_queue p)). wf_message m)"

lemma bq_push_set: "bq_push x q = Some (ok, q') \<Longrightarrow> set (bq_items q') \<subseteq> insert x (set (bq_items q))"
  by (auto dest!: bq_push_subseq subseq_set_subset)

lemma pub_step_inv:
  assumes "pub_inv p" "\<forall>m\<in>set (published [e]). wf_message m" "pub_step e p = Some (out, p')"
  shows "pub_inv p'"
proof (cases e)
  case (EvPublish m)
  with assms(3) obtain ok q where q: "bq_push m (pb_queue p) = Some (ok, q)" and p': "p' = p\<lparr>pb_queue := q\<rparr>"
    by (auto simp: pub_publish_def)
  from assms(1) have "bq_inv q" by (auto simp: pub_inv_def intro: bq_push_inv[OF _ q])
  then show ?thesis using assms(1,2) EvPublish bq_push_set[OF q] by (auto simp: pub_inv_def p')
next
  case (EvAccept k)
  with assms show ?thesis by (auto simp: sender_accept_def pub_inv_def split: if_splits)
next
  case EvTurn
  with assms bq_pop_inv[of "pb_queue p"] show ?thesis
    by (auto simp: sender_turn_def pub_inv_def bq_pop_def split: option.splits if_splits list.splits bool.splits)
next
  case EvStop
  with assms show ?thesis by (auto simp: pub_stop_def pub_inv_def bq_close_inv) (simp add: bq_close_def)
qed

lemma pub_step_total:
  assumes "pub_inv p"
  obtains out p' where "pub_step e p = Some (out, p')"
proof (cases e)
  case (EvPublish m)
  from assms have "bq_inv (pb_queue p)" by (simp add: pub_inv_def)
  then obtain ok q where "bq_push m (pb_queue p) = Some (ok, q)" by (rule bq_push_total)
  with EvPublish show ?thesis by (intro that) (simp add: pub_publish_def)
next
  case EvTurn
  have "sender_turn p \<noteq> None"
    using assms by (auto simp: sender_turn_def pub_inv_def bq_pop_def sendFrame_send_frame
        split: option.splits list.splits bool.splits prod.splits)
  with EvTurn show ?thesis using that by auto
qed (use that in auto)

lemma pub_step_subseq:
  assumes "pub_step e p = Some (out, p')"
  shows "subseq (map fst out @ bq_items (pb_queue p')) (bq_items (pb_queue p) @ published [e])"
proof (cases e)
  case (EvPublish m)
  with assms show ?thesis by (auto simp: pub_publish_def dest: bq_push_subseq)
next
  case EvTurn
  with assms show ?thesis
    by (auto simp: sender_turn_def bq_pop_def split: option.splits if_splits list.splits bool.splits)
qed (use assms in \<open>auto simp: sender_accept_def pub_stop_def bq_close_def\<close>)

lemma published_Cons: "published (e # es) = published [e] @ published es"
  by (cases e) auto

lemma pub_run_total:
  assumes "pub_inv p" "\<forall>m\<in>set (published es). wf_message m"
  shows "\<exists>outs p'. pub_run es p = Some (outs, p') \<and> pub_inv p'"
  using assms
proof (induction es arbitrary: p)
  case (Cons e es)
  from Cons.prems(2) have wf: "\<forall>m\<in>set (published [e]). wf_message m" "\<forall>m\<in>set (published es). wf_message m"
    unfolding published_Cons[of e es] by auto
  from pub_step_total[OF Cons.prems(1)] obtain out p1 where s: "pub_step e p = Some (out, p1)" .
  with Cons.prems(1) wf(1) have "pub_inv p1" by (blast intro: pub_step_inv)
  from Cons.IH[OF this wf(2)] s show ?case by auto
qed simp

lemma pub_run_subseq:
  "pub_run es p = Some (outs, p') \<Longrightarrow>
   subseq (map fst outs @ bq_items (pb_queue p')) (bq_items (pb_queue p) @ published es)"
proof (induction es arbitrary: p outs)
  case (Cons e es)
  then obtain out p1 outs' where step: "pub_step e p = Some (out, p1)"
    and run: "pub_run es p1 = Some (outs', p')" and outs: "outs = out @ outs'"
    by (auto split: option.splits)
  have "subseq (map fst out @ (map fst outs' @ bq_items (pb_queue p')))
      (map fst out @ (bq_items (pb_queue p1) @ published es))"
    by (rule list_emb_append_mono[OF subseq_order.order_refl Cons.IH[OF run]])
  also have "subseq (map fst out @ (bq_items (pb_queue p1) @ published es))
      ((bq_items (pb_queue p) @ published [e]) @ published es)"
    using list_emb_append_mono[OF pub_step_subseq[OF step] subseq_order.order_refl[of "published es"]]
    by simp
  finally show ?case using published_Cons[of e es] by (simp add: outs)
qed simp

text \<open>While one consumer stays connected, the socket carries exactly the frames taken.\<close>

lemma pub_step_stream:
  assumes "pub_step e p = Some (out, p')" "pub_inv p" "\<forall>k. e \<noteq> EvAccept k" "pb_conn p' = Some k'"
  obtains k where "pb_conn p = Some k" "\<forall>(m, ok)\<in>set out. ok"
    "sent k' = sent k @ concat (map (message_bytes \<circ> fst) out)"
proof (cases e)
  case (EvPublish m)
  with assms that show thesis by (auto simp: pub_publish_def)
next
  case (EvAccept k)
  with assms show thesis by simp
next
  case EvTurn
  with assms(1) obtain o' where t: "sender_turn p = Some (o', p')" and out: "out = (case o' of None \<Rightarrow> [] | Some x \<Rightarrow> [x])"
    by auto
  from t assms(4) obtain k where k: "pb_conn p = Some k" and run: "pb_running p"
    by (auto simp: sender_turn_def split: option.splits if_splits)
  show thesis
  proof (cases "bq_items (pb_queue p)")
    case Nil
    with t k run out assms(4) show thesis by (intro that[of k]) (auto simp: sender_turn_def bq_pop_def)
  next
    case (Cons m ms)
    with assms(2) have wf: "wf_message m" by (simp add: pub_inv_def)
    obtain ok s where sf: "send_frame enc_detection sizeof_WireDetectionRecord (frame_header m)
        (message_records m) k = (ok, s)" by (cases "send_frame enc_detection sizeof_WireDetectionRecord
          (frame_header m) (message_records m) k")
    with t k run Cons assms(4) have "ok" "s = k'" "o' = Some (m, True)"
      by (auto simp: sender_turn_def bq_pop_def sendFrame_send_frame[OF wf] split: bool.splits)
    with send_frame_sent[OF sf] k out show thesis
      by (intro that[of k]) (auto simp: message_bytes_def)
  qed
next
  case EvStop
  with assms that show thesis by (auto simp: pub_stop_def)
qed

lemma pub_run_stream:
  assumes "pub_run es p = Some (outs, p')" "pub_inv p" "\<forall>m\<in>set (published es). wf_message m"
    "\<forall>k. EvAccept k \<notin> set es" "pb_conn p' = Some k'"
  shows "\<exists>k. pb_conn p = Some k \<and> (\<forall>(m, ok)\<in>set outs. ok)
    \<and> sent k' = sent k @ concat (map (message_bytes \<circ> fst) outs)"
  using assms
proof (induction es arbitrary: p outs)
  case (Cons e es)
  then obtain out p1 outs' where step: "pub_step e p = Some (out, p1)"
    and run: "pub_run es p1 = Some (outs', p')" and outs: "outs = out @ outs'"
    by (auto split: option.splits)
  from Cons.prems(3) have wf: "\<forall>m\<in>set (published [e]). wf_message m" "\<forall>m\<in>set (published es). wf_message m"
    unfolding published_Cons[of e es] by auto
  have inv1: "pub_inv p1" by (rule pub_step_inv[OF Cons.prems(2) wf(1) step])
  from Cons.prems(4) have na: "\<forall>k. EvAccept k \<notin> set es" "\<forall>k. e \<noteq> EvAccept k" by auto
  from Cons.IH[OF run inv1 wf(2) na(1) Cons.prems(5)] obtain k1 where k1: "pb_conn p1 = Some k1"
    "\<forall>(m, ok)\<in>set outs'. ok" "sent k' = sent k1 @ concat (map (message_bytes \<circ> fst) outs')" by blast
  from pub_step_stream[OF step Cons.prems(2) na(2) k1(1)] obtain k where k: "pb_conn p = Some k"
    "\<forall>(m, ok)\<in>set out. ok" "sent k1 = sent k @ concat (map (message_bytes \<circ> fst) out)" .
  show ?case using k k1 by (auto simp: outs comp_def)
qed simp

section \<open>Properties\<close>

text \<open>\<open>sendFrame\<close> never reads outside the group of a message the postprocessing can produce,
  and what it puts on the socket is the frame \<open>[length][header][records]\<close>: all of it when it
  reports success, a proper prefix when it reports failure.\<close>

theorem sendFrame_correct:
  assumes "wf_message msg"
  shows "\<exists>ok s'. sendFrame msg s = Some (ok, s')
    \<and> (if ok then sent s' = sent s @ message_bytes msg
       else \<exists>k<length (message_bytes msg). sent s' = sent s @ take k (message_bytes msg))"
proof -
  obtain ok s' where sf: "send_frame enc_detection sizeof_WireDetectionRecord (frame_header msg)
      (message_records msg) s = (ok, s')" by fastforce
  then show ?thesis
    using send_frame_sent[OF sf] by (simp add: sendFrame_send_frame[OF assms] message_bytes_def)
qed

theorem sendFrame_correct_witness:
  "\<exists>ok s'. sendFrame \<lparr>dm_frame_id = 7, dm_timestamp_us = 9, dm_group = zero_group\<rparr>
      \<lparr>sent = [], accepts = [1, 100, 100]\<rparr> = Some (ok, s')"
  using sendFrame_correct[of "\<lparr>dm_frame_id = 7, dm_timestamp_us = 9, dm_group = zero_group\<rparr>"
      "\<lparr>sent = [], accepts = [1, 100, 100]\<rparr>"]
  by (auto simp: wf_message_def)

text \<open>The publisher never blocks on undefined behaviour and never reorders or duplicates:
  for any interleaving of \<open>publish\<close>, \<open>accept\<close>, sender turns and \<open>stop\<close>, the run is defined and
  the frames handed to the socket, followed by those still queued, are in order a subsequence of
  the frames that were published.\<close>

theorem publisher_order:
  assumes "0 < c" "\<forall>m\<in>set (published es). wf_message m"
  shows "\<exists>outs p. pub_run es ((pub_new c)\<lparr>pb_running := True, pb_listen := True\<rparr>) = Some (outs, p)
    \<and> subseq (map fst outs @ bq_items (pb_queue p)) (published es)"
proof -
  let ?p = "(pub_new c)\<lparr>pb_running := True, pb_listen := True\<rparr>"
  have "pub_inv ?p" using bq_inv_new[OF assms(1)] by (simp add: pub_inv_def pub_new_def bq_new_def)
  from pub_run_total[OF this assms(2)] obtain outs p where run: "pub_run es ?p = Some (outs, p)" by blast
  from pub_run_subseq[OF run] run show ?thesis by (simp add: pub_new_def bq_new_def)
qed

theorem publisher_order_witness:
  "\<exists>outs p. pub_run [EvPublish \<lparr>dm_frame_id = 7, dm_timestamp_us = 9, dm_group = zero_group\<rparr>, EvStop]
     ((pub_new 2)\<lparr>pb_running := True, pb_listen := True\<rparr>) = Some (outs, p)"
  using publisher_order[of 2 "[EvPublish \<lparr>dm_frame_id = 7, dm_timestamp_us = 9, dm_group = zero_group\<rparr>, EvStop]"]
  by (auto simp: wf_message_def)

text \<open>C10: end to end: while one consumer stays connected, a receiver that reads what the
  publisher sent on that connection, however the stream is chunked, decodes exactly the frames
  the sender thread took from the queue, in order, each with its header and all its records,
  and then sees the close.\<close>

theorem publisher_to_receiver:
  assumes "pub_run es p = Some (outs, p')" "pub_inv p" "\<forall>m\<in>set (published es). wf_message m"
    "\<forall>k. EvAccept k \<notin> set es" "pb_conn p = Some k" "sent k = []" "pb_conn p' = Some k'"
    "avail s = sent k'"
  shows "data_receiveLoop s = (map (\<lambda>(m, ok). (frame_header m, message_records m)) outs, Closed)"
proof -
  from pub_run_stream[OF assms(1-4,7)] assms(5,6)
  have "sent k' = concat (map message_bytes (map fst outs))" by (simp add: comp_def)
  moreover have "\<forall>m\<in>set (map fst outs). wf_message m"
  proof
    fix m assume "m \<in> set (map fst outs)"
    with subseq_set_subset[OF pub_run_subseq[OF assms(1)]]
    have "m \<in> set (bq_items (pb_queue p) @ published es)" by auto
    with assms(2,3) show "wf_message m" by (auto simp: pub_inv_def)
  qed
  ultimately have "data_receiveLoop s = (map (\<lambda>m. (frame_header m, message_records m)) (map fst outs), Closed)"
    using assms(8) by (intro data_receiveLoop_messages) auto
  then show ?thesis by (simp add: comp_def case_prod_beta)
qed

definition sample_message :: detection_message where
  "sample_message = \<lparr>dm_frame_id = 7, dm_timestamp_us = 9,
     dm_group = zero_group\<lparr>dg_count := 1, dg_results := zero_result\<lparr>dr_left := 3, dr_right := 8\<rparr>
       # replicate 63 zero_result\<rparr>\<rparr>"

theorem publisher_to_receiver_witness:
  "\<exists>k. data_receiveLoop [Data (message_bytes sample_message)]
     = ([(frame_header sample_message, message_records sample_message)], Closed)"
proof -
  let ?p = "(pub_new 2)\<lparr>pb_running := True, pb_conn := Some \<lparr>sent = [], accepts = replicate 88 64\<rparr>\<rparr>"
  have wf: "wf_message sample_message"
    by (auto simp: sample_message_def wf_message_def wf_group_def zero_group_def zero_result_def
        OBJ_NUMB_MAX_SIZE_def)
  have inv: "pub_inv ?p"
    by (simp add: pub_inv_def pub_new_def bq_new_def bq_inv_def)
  have len: "length (message_bytes sample_message) = 64"
    by (simp add: message_bytes_def frame_bytes_def message_records_def sample_message_def
        zero_group_def enc_header_def enc_detection_def frame_header_def wire_of_result_def)
  obtain k' where sf: "send_frame enc_detection sizeof_WireDetectionRecord (frame_header sample_message)
      (message_records sample_message) \<lparr>sent = [], accepts = replicate 88 64\<rparr> = (True, k')"
    and sent: "sent k' = message_bytes sample_message"
    using send_frame_succeeds[of enc_detection sizeof_WireDetectionRecord "frame_header sample_message"
        "message_records sample_message" "\<lparr>sent = [], accepts = replicate 88 64\<rparr>"] len
    by (auto simp: message_bytes_def)
  obtain p' where run: "pub_run [EvPublish sample_message, EvTurn] ?p = Some ([(sample_message, True)], p')"
    and conn: "pb_conn p' = Some k'"
    by (auto simp: pub_publish_def sender_turn_def bq_push_def bq_pop_def pub_new_def bq_new_def
        sendFrame_send_frame[OF wf] sf)
  have "avail [Data (message_bytes sample_message)] = sent k'"
    using len sent by (cases "message_bytes sample_message") auto
  from publisher_to_receiver[OF run inv _ _ _ _ conn this] wf show ?thesis by simp
qed

end
