(* ===== verification/Float_Bounds.thy ===== *)
theory Float_Bounds
  imports Float_Bits
begin

text \<open>
  Interval reasoning for the floating-point code: a finite value between two representable
  bounds stays finite and inside the bounds the exact operation gives, because rounding is
  monotone. The conversions to \<open>int\<close> are defined on such intervals.
\<close>

definition fin_in :: "rat \<Rightarrow> rat \<Rightarrow> fp \<Rightarrow> bool" where
  "fin_in a b x \<longleftrightarrow> is_fin x \<and> a \<le> fval x \<and> fval x \<le> b"

text \<open>A bound: representable, and small enough in both formats.\<close>

definition bound :: "prec \<Rightarrow> rat \<Rightarrow> bool" where
  "bound p a \<longleftrightarrow> frep p a \<and> \<bar>a\<bar> \<le> 2 ^ 100"

lemma bound_int: "\<bar>n\<bar> \<le> 2 ^ mbits p \<Longrightarrow> bound p (of_int n)"
proof -
  assume n: "\<bar>n\<bar> \<le> 2 ^ mbits p"
  have "\<bar>rat_of_int n\<bar> = rat_of_int \<bar>n\<bar>" by simp
  also have "\<dots> \<le> rat_of_int (2 ^ mbits p)" using n by (simp only: of_int_le_iff)
  also have "\<dots> \<le> 2 ^ 100" by (cases p) simp_all
  finally show ?thesis using n by (simp add: bound_def frep_of_int)
qed

lemma bound_simps [simp]:
  "bound p 0" "bound p 1"
  "(numeral n :: int) \<le> 2 ^ mbits p \<Longrightarrow> bound p (numeral n)"
  "bound p (- a) \<longleftrightarrow> bound p a"
  using bound_int[of 0 p] bound_int[of 1 p] bound_int[of "numeral n" p] by (simp_all add: bound_def)

lemma bound_power2: "k \<le> 100 \<Longrightarrow> bound p (2 ^ k)"
proof -
  assume "k \<le> 100"
  moreover have "frep p (of_int 1 * 2 powi int k)" by (rule frepI) (cases p; simp)+
  moreover have "k \<le> 100 \<Longrightarrow> (2::rat) ^ k \<le> 2 ^ 100" by (rule power_increasing) auto
  ultimately show ?thesis by (simp add: bound_def powi_nat del: power_numeral)
qed

lemma fround_bounds:
  assumes "a \<le> v" "v \<le> b" "bound p a" "bound p b"
  shows "fin_in a b (fround p s v)" "fval (fround p s v) = rnd p v" "is_fin (fround p s v)"
proof -
  have "\<bar>v\<bar> \<le> maxfin p"
    using assms big_le_maxfin[of p] by (auto simp: bound_def)
  then show "fval (fround p s v) = rnd p v" "is_fin (fround p s v)" by (simp_all add: fround_fin)
  with assms show "fin_in a b (fround p s v)"
    by (simp add: fin_in_def bound_def rnd_le rnd_ge)
qed

lemma fin_inD: "fin_in a b x \<Longrightarrow> is_fin x" "fin_in a b x \<Longrightarrow> a \<le> fval x" "fin_in a b x \<Longrightarrow> fval x \<le> b"
  by (simp_all add: fin_in_def)

lemma fin_in_not_NaN: "fin_in a b x \<Longrightarrow> x \<noteq> NaN"
  by (auto simp: fin_in_def)

lemma fin_in_weaken: "fin_in a b x \<Longrightarrow> a' \<le> a \<Longrightarrow> b \<le> b' \<Longrightarrow> fin_in a' b' x"
  by (auto simp: fin_in_def)

lemma fin_in_fof_int:
  assumes "a \<le> of_int n" "of_int n \<le> b" "bound p a" "bound p b"
  shows "fin_in a b (fof_int p n)"
  unfolding fof_int_def using assms by (rule fround_bounds(1))

lemma fin_in_fadd:
  assumes "fin_in a b x" "fin_in c d y" "bound p (a + c)" "bound p (b + d)"
  shows "fin_in (a + c) (b + d) (fadd p x y)"
  using assms fround_bounds(1)[of "a + c" "fval x + fval y" "b + d" p]
  by (simp add: fin_in_def fadd_fin add_mono)

lemma fin_in_fsub:
  assumes "fin_in a b x" "fin_in c d y" "bound p (a - d)" "bound p (b - c)"
  shows "fin_in (a - d) (b - c) (fsub p x y)"
  using assms fround_bounds(1)[of "a - d" "fval x - fval y" "b - c" p]
  by (simp add: fin_in_def fsub_fin diff_mono)

lemma fin_in_fmul:
  assumes "fin_in a b x" "fin_in c d y" "0 \<le> c" "a \<le> 0" "0 \<le> b" "bound p (a * d)" "bound p (b * d)"
  shows "fin_in (a * d) (b * d) (fmul p x y)"
proof -
  have x: "is_fin x" "a \<le> fval x" "fval x \<le> b" and y: "is_fin y" "c \<le> fval y" "fval y \<le> d"
    using assms by (auto simp: fin_in_def)
  have "a * d \<le> a * fval y" using y assms by (intro mult_left_mono_neg) auto
  also have "\<dots> \<le> fval x * fval y" using x y assms by (intro mult_right_mono) auto
  finally have lo: "a * d \<le> fval x * fval y" .
  have "fval x * fval y \<le> b * fval y" using x y assms by (intro mult_right_mono) auto
  also have "\<dots> \<le> b * d" using y assms by (intro mult_left_mono) auto
  finally have hi: "fval x * fval y \<le> b * d" .
  show ?thesis using fround_bounds(1)[OF lo hi assms(6,7)] x y by (simp add: fmul_fin)
qed

section \<open>Conversion to int\<close>

lemma rtrunc_bounds: "of_int a \<le> v \<Longrightarrow> v \<le> of_int b \<Longrightarrow> a \<le> rtrunc v \<and> rtrunc v \<le> b"
  unfolding rtrunc_def by (auto simp: le_floor_iff ceiling_le_iff) linarith+

lemma rtrunc_mono: "v \<le> w \<Longrightarrow> rtrunc v \<le> rtrunc w"
proof -
  assume vw: "v \<le> w"
  show ?thesis
  proof (cases "0 \<le> v \<or> w < 0")
    case True
    then show ?thesis using vw by (auto simp: rtrunc_def intro: floor_mono ceiling_mono)
  next
    case False
    then have "\<lceil>v\<rceil> \<le> 0" "0 \<le> \<lfloor>w\<rfloor>" by (auto simp only: ceiling_le_iff le_floor_iff of_int_0 not_le not_less)
    then have "\<lceil>v\<rceil> \<le> \<lfloor>w\<rfloor>" by (rule order_trans)
    then show ?thesis using False by (simp add: rtrunc_def)
  qed
qed

lemma rtrunc_of_int [simp]: "rtrunc (of_int n) = n"
  by (simp add: rtrunc_def)

lemma fto_int_fin:
  assumes "fin_in (of_int a) (of_int b) x" "- (2 ^ 31) \<le> a" "b < 2 ^ 31"
  shows "fto_int x = Some (rtrunc (fval x))" "a \<le> rtrunc (fval x)" "rtrunc (fval x) \<le> b"
proof -
  show ab: "a \<le> rtrunc (fval x)" "rtrunc (fval x) \<le> b"
    using assms rtrunc_bounds by (auto simp: fin_in_def)
  then show "fto_int x = Some (rtrunc (fval x))"
    using assms by (cases x) (auto simp: fin_in_def rtrunc_def[of 0])
qed

section \<open>Scaling by a power of two\<close>

lemma ilog2_unique: "2 powi e \<le> v \<Longrightarrow> v < 2 powi (e + 1) \<Longrightarrow> ilog2 v = e"
proof -
  assume e: "2 powi e \<le> v" "v < 2 powi (e + 1)"
  then have v: "0 < v" using powi_pos[of e] by linarith
  have "(2::rat) powi e < 2 powi (ilog2 v + 1)" "(2::rat) powi ilog2 v < 2 powi (e + 1)"
    using ilog2_bounds[OF v] e by linarith+
  then show ?thesis by (simp add: powi_less_iff)
qed

lemma ilog2_scale: "0 < v \<Longrightarrow> ilog2 (v * 2 powi k) = ilog2 v + k"
proof (rule ilog2_unique)
  assume v: "0 < v"
  show "2 powi (ilog2 v + k) \<le> v * 2 powi k"
    using ilog2_bounds(1)[OF v] by (simp add: powi_split mult_right_mono)
  have "v * 2 powi k < 2 powi (ilog2 v + 1) * 2 powi k"
    using ilog2_bounds(2)[OF v] by (simp add: mult_strict_right_mono)
  then show "v * 2 powi k < 2 powi (ilog2 v + k + 1)"
    by (simp add: powi_split[symmetric] algebra_simps)
qed

text \<open>Above the subnormal range, scaling commutes with rounding.\<close>

lemma rnd_scale:
  assumes "2 powi (emin p + int (mbits p) - 1) \<le> v" "0 \<le> k"
  shows "rnd p (v * 2 powi k) = rnd p v * 2 powi k"
proof -
  have v: "0 < v" using assms(1) powi_pos[of "emin p + int (mbits p) - 1"] by linarith
  then have vk: "0 < v * 2 powi k" by simp
  have "(2::rat) powi (emin p + int (mbits p) - 1) < 2 powi (ilog2 v + 1)"
    using assms(1) ilog2_bounds(2)[OF v] by linarith
  then have il: "emin p + int (mbits p) - 1 \<le> ilog2 v" by (simp add: powi_less_iff)
  have u: "ulpexp p (v * 2 powi k) = ulpexp p v + k"
    using il assms(2) v vk by (simp add: ulpexp_def ilog2_scale)
  have "v * 2 powi k / 2 powi (ulpexp p v + k) = v / 2 powi ulpexp p v"
    by (simp add: powi_split)
  then show ?thesis using v vk by (simp add: rnd_def u Let_def) (simp add: powi_split)
qed

end
