(* ===== verification/Rga_Draw.thy ===== *)
theory Rga_Draw
  imports Data_Plane Float_Bounds
begin

text \<open>
  \<open>src/rga_func.cc\<close> as far as it is the program's own computation: the scale of the letterbox
  resize and the software drawing of detection boxes into a BGR frame, with every store checked
  against the frame's size (\<open>None\<close>: out of bounds, undefined behaviour), and the drawing loop of
  the main thread (\<open>src/main.cc\<close>). The colour conversion and the resize themselves are calls of
  the RGA driver.
\<close>

definition WIDTH :: int where "WIDTH = 1920"
definition HEIGHT :: int where "HEIGHT = 1080"

section \<open>Letterbox\<close>

text \<open>Scale, and width and height of the resized image.\<close>

definition letterbox :: "int \<Rightarrow> int \<Rightarrow> int \<Rightarrow> int \<Rightarrow> (fp \<times> int \<times> int) option" where
  "letterbox src_w src_h model_w model_h =
     (if src_h < src_w then
        (let scale = fdiv F32 (fof_int F32 model_w) (fof_int F32 src_w)
         in map_option (\<lambda>resize_h. (scale, model_w, resize_h)) (fto_int (fmul F32 scale (fof_int F32 src_h))))
      else
        (let scale = fdiv F32 (fof_int F32 model_h) (fof_int F32 src_h)
         in map_option (\<lambda>resize_w. (scale, resize_w, model_h)) (fto_int (fmul F32 scale (fof_int F32 src_w)))))"

section \<open>Drawing\<close>

type_synonym image = "u8 list"
type_synonym colour = "u8 \<times> u8 \<times> u8" \<comment> \<open>b, g, r as stored\<close>

definition put_pixel :: "int \<Rightarrow> colour \<Rightarrow> int \<Rightarrow> int \<Rightarrow> image \<Rightarrow> image option" where
  "put_pixel img_w c row col bgr =
     (let i = (row * img_w + col) * 3
      in if 0 \<le> i \<and> i + 2 < int (length bgr)
         then Some (bgr[nat i := fst c, nat i + 1 := fst (snd c), nat i + 2 := snd (snd c)])
         else None)"

definition draw_row :: "int \<Rightarrow> colour \<Rightarrow> int \<Rightarrow> int \<Rightarrow> int \<Rightarrow> image \<Rightarrow> image option" where
  "draw_row img_w c x0 x1 row = foldo (\<lambda>col. put_pixel img_w c row col) [x0..x1 - 1]"

definition draw_col :: "int \<Rightarrow> colour \<Rightarrow> int \<Rightarrow> int \<Rightarrow> int \<Rightarrow> image \<Rightarrow> image option" where
  "draw_col img_w c y0 y1 col = foldo (\<lambda>row. put_pixel img_w c row col) [y0..y1 - 1]"

text \<open>The four edges at distance t from the box.\<close>

definition draw_ring ::
  "int \<Rightarrow> int \<Rightarrow> colour \<Rightarrow> int \<Rightarrow> int \<Rightarrow> int \<Rightarrow> int \<Rightarrow> nat \<Rightarrow> image \<Rightarrow> image option" where
  "draw_ring img_w img_h c x0 y0 x1 y1 t bgr =
     Option.bind (if y0 + int t < img_h then draw_row img_w c x0 x1 (y0 + int t) bgr else Some bgr) (\<lambda>bgr.
     Option.bind (if 0 \<le> y1 - 1 - int t \<and> y1 - 1 - int t < img_h
                  then draw_row img_w c x0 x1 (y1 - 1 - int t) bgr else Some bgr) (\<lambda>bgr.
     Option.bind (if x0 + int t < img_w then draw_col img_w c y0 y1 (x0 + int t) bgr else Some bgr) (\<lambda>bgr.
     if 0 \<le> x1 - 1 - int t \<and> x1 - 1 - int t < img_w
     then draw_col img_w c y0 y1 (x1 - 1 - int t) bgr else Some bgr)))"

definition in_int :: "int \<Rightarrow> bool" where
  "in_int n \<longleftrightarrow> - (2 ^ 31) \<le> n \<and> n < 2 ^ 31"

definition colour_of :: "u32 \<Rightarrow> colour" where
  "colour_of rgb = (ucast rgb, ucast (drop_bit 8 rgb), ucast (drop_bit 16 rgb))"

definition draw_box_sw ::
  "image \<Rightarrow> int \<Rightarrow> int \<Rightarrow> int \<Rightarrow> int \<Rightarrow> int \<Rightarrow> int \<Rightarrow> u32 \<Rightarrow> nat \<Rightarrow> image option" where
  "draw_box_sw bgr img_w img_h x y w h colour_rgb thickness =
     (if \<not> in_int (x + w) \<or> \<not> in_int (y + h) then None
      else
        (let x0 = if x < 0 then 0 else x;
             y0 = if y < 0 then 0 else y;
             x1 = if img_w < x + w then img_w else x + w;
             y1 = if img_h < y + h then img_h else y + h
         in if x1 \<le> x0 \<or> y1 \<le> y0 then Some bgr
            else foldo (draw_ring img_w img_h (colour_of colour_rgb) x0 y0 x1 y1) [0..<thickness] bgr))"

text \<open>The loop over the detections of a result.\<close>

definition draw_detection :: "detect_result_group \<Rightarrow> nat \<Rightarrow> image \<Rightarrow> image option" where
  "draw_detection g i bgr =
     (if length (dg_results g) \<le> i then None
      else
        (let det = dg_results g ! i;
             w = sint (dr_right det) - sint (dr_left det);
             h = sint (dr_bottom det) - sint (dr_top det)
         in if \<not> in_int w \<or> \<not> in_int h then None
            else draw_box_sw bgr WIDTH HEIGHT (sint (dr_left det)) (sint (dr_top det)) w h 0xFFA500 6))"

definition draw_group :: "detect_result_group \<Rightarrow> image \<Rightarrow> image option" where
  "draw_group g bgr = foldo (draw_detection g) [0..<nat (dg_count g)] bgr"

section \<open>What is painted\<close>

definition pixel :: "int \<Rightarrow> image \<Rightarrow> int \<Rightarrow> int \<Rightarrow> colour" where
  "pixel img_w bgr row col = (let i = nat ((row * img_w + col) * 3) in (bgr ! i, bgr ! (i + 1), bgr ! (i + 2)))"

definition in_frame :: "int \<Rightarrow> int \<Rightarrow> int \<times> int \<Rightarrow> bool" where
  "in_frame img_w img_h = (\<lambda>(row, col). 0 \<le> row \<and> row < img_h \<and> 0 \<le> col \<and> col < img_w)"

text \<open>\<open>bgr'\<close> is \<open>bgr\<close> with the pixels of S set to the colour.\<close>

definition painted :: "int \<Rightarrow> int \<Rightarrow> colour \<Rightarrow> (int \<times> int) set \<Rightarrow> image \<Rightarrow> image \<Rightarrow> bool" where
  "painted img_w img_h c S bgr bgr' \<longleftrightarrow>
     length bgr' = nat (3 * img_w * img_h) \<and>
     (\<forall>row col. in_frame img_w img_h (row, col) \<longrightarrow>
        pixel img_w bgr' row col = (if (row, col) \<in> S then c else pixel img_w bgr row col))"

lemma painted_empty: "length bgr = nat (3 * img_w * img_h) \<Longrightarrow> painted img_w img_h c {} bgr bgr"
  by (simp add: painted_def)

lemma painted_trans:
  "painted img_w img_h c S b0 b1 \<Longrightarrow> painted img_w img_h c T b1 b2 \<Longrightarrow> painted img_w img_h c (S \<union> T) b0 b2"
  by (auto simp: painted_def)

lemma pixel_index_inj:
  assumes "in_frame w h (r1, c1)" "in_frame w h (r2, c2)" "r1 * w + c1 = r2 * w + c2"
  shows "r1 = r2 \<and> c1 = c2"
proof -
  have c: "0 \<le> c1" "c1 < w" "0 \<le> c2" "c2 < w" using assms by (auto simp: in_frame_def)
  have "(r1 * w + c1) div w = r1" "(r2 * w + c2) div w = r2" using c by simp_all
  then show ?thesis using assms(3) by auto
qed

lemma pixel_index_range:
  assumes "in_frame w h (row, col)"
  shows "0 \<le> (row * w + col) * 3" "(row * w + col) * 3 + 2 < 3 * w * h"
proof -
  have rc: "0 \<le> row" "row + 1 \<le> h" "0 \<le> col" "col + 1 \<le> w" using assms by (auto simp: in_frame_def)
  then show "0 \<le> (row * w + col) * 3" by simp
  have "row * w + col + 1 \<le> row * w + w" using rc by simp
  also have "\<dots> = (row + 1) * w" by (simp add: algebra_simps)
  also have "\<dots> \<le> h * w" using rc by (intro mult_right_mono) auto
  finally show "(row * w + col) * 3 + 2 < 3 * w * h" by (simp add: algebra_simps)
qed

lemma put_pixel_painted:
  assumes len: "length bgr = nat (3 * img_w * img_h)" and f: "in_frame img_w img_h (row, col)"
  shows "\<exists>bgr'. put_pixel img_w c row col bgr = Some bgr' \<and> painted img_w img_h c {(row, col)} bgr bgr'"
proof -
  note r = pixel_index_range[OF f]
  define i where "i = nat ((row * img_w + col) * 3)"
  have i: "i + 2 < length bgr" using r len by (simp add: i_def nat_less_iff)
  let ?b = "bgr[i := fst c, i + 1 := fst (snd c), i + 2 := snd (snd c)]"
  have "0 \<le> 3 * img_w * img_h" using r by linarith
  then have il: "int (length bgr) = 3 * img_w * img_h" using len by (simp only: int_nat_eq if_True)
  have put: "put_pixel img_w c row col bgr = Some ?b"
    unfolding put_pixel_def Let_def il using r by (simp only: i_def simp_thms if_True)
  have "pixel img_w ?b r2 c2 = (if (r2, c2) = (row, col) then c else pixel img_w bgr r2 c2)"
    if f2: "in_frame img_w img_h (r2, c2)" for r2 c2
  proof (cases "(r2, c2) = (row, col)")
    case True
    have "pixel img_w ?b row col = (?b ! i, ?b ! (i + 1), ?b ! (i + 2))"
      by (simp only: pixel_def Let_def i_def)
    then show ?thesis using True i by simp
  next
    case False
    define j where "j = nat ((r2 * img_w + c2) * 3)"
    have "r2 * img_w + c2 \<noteq> row * img_w + col"
      using pixel_index_inj[OF f2 f] False by auto
    then consider "r2 * img_w + c2 < row * img_w + col" | "row * img_w + col < r2 * img_w + c2"
      by (rule linorder_neqE)
    then have "(r2 * img_w + c2) * 3 + 2 < (row * img_w + col) * 3 \<or> (row * img_w + col) * 3 + 2 < (r2 * img_w + c2) * 3"
      by cases simp_all
    then have "j + 2 < i \<or> i + 2 < j"
      using pixel_index_range(1)[OF f2] r(1) unfolding i_def j_def by (auto simp: nat_less_iff)
    then have "?b ! j = bgr ! j" "?b ! (j + 1) = bgr ! (j + 1)" "?b ! (j + 2) = bgr ! (j + 2)"
      by auto
    then show ?thesis unfolding pixel_def Let_def j_def[symmetric] using False by (simp only: if_False)
  qed
  then have "painted img_w img_h c {(row, col)} bgr ?b"
    using len by (auto simp: painted_def)
  with put show ?thesis by blast
qed

lemma painted_length: "painted img_w img_h c S b0 b1 \<Longrightarrow> length b1 = nat (3 * img_w * img_h)"
  by (simp add: painted_def)

text \<open>A loop that paints one set per element paints their union.\<close>

lemma foldo_painted:
  assumes "length bgr = nat (3 * img_w * img_h)"
    and "\<And>x b. x \<in> set xs \<Longrightarrow> length b = nat (3 * img_w * img_h) \<Longrightarrow>
      \<exists>b'. f x b = Some b' \<and> painted img_w img_h c (S x) b b'"
  shows "\<exists>b'. foldo f xs bgr = Some b' \<and> painted img_w img_h c (\<Union>x\<in>set xs. S x) bgr b'"
  using assms
proof (induction xs arbitrary: bgr)
  case Nil
  then show ?case by (simp add: painted_empty)
next
  case (Cons x xs)
  obtain b1 where b1: "f x bgr = Some b1" "painted img_w img_h c (S x) bgr b1"
    using Cons.prems(2)[of x bgr] Cons.prems(1) by auto
  obtain b2 where "foldo f xs b1 = Some b2" "painted img_w img_h c (\<Union>x\<in>set xs. S x) b1 b2"
    using Cons.IH[OF painted_length[OF b1(2)]] Cons.prems(2) by auto
  with b1 painted_trans[OF b1(2)] show ?case by auto
qed

text \<open>The pixels a box paints: the four edges, \<open>thickness\<close> pixels deep. The top and left edges are
  not cut off at the opposite edge, so a box smaller than the thickness paints beyond itself.\<close>

definition ring_pixels :: "int \<Rightarrow> int \<Rightarrow> int \<Rightarrow> int \<Rightarrow> nat \<Rightarrow> (int \<times> int) set" where
  "ring_pixels x0 y0 x1 y1 t =
     {(row, col). x0 \<le> col \<and> col < x1 \<and> (row = y0 + int t \<or> row = y1 - 1 - int t)}
   \<union> {(row, col). y0 \<le> row \<and> row < y1 \<and> (col = x0 + int t \<or> col = x1 - 1 - int t)}"

lemma draw_row_painted:
  assumes "length b = nat (3 * img_w * img_h)" "0 \<le> x0" "x1 \<le> img_w" "0 \<le> row" "row < img_h"
  shows "\<exists>b'. draw_row img_w c x0 x1 row b = Some b'
    \<and> painted img_w img_h c {(r, col). r = row \<and> x0 \<le> col \<and> col < x1} b b'"
proof -
  have "\<exists>b'. draw_row img_w c x0 x1 row b = Some b'
    \<and> painted img_w img_h c (\<Union>col\<in>set [x0..x1 - 1]. {(row, col)}) b b'"
    unfolding draw_row_def using assms
    by (intro foldo_painted put_pixel_painted) (auto simp: in_frame_def)
  moreover have "(\<Union>col\<in>set [x0..x1 - 1]. {(row, col)}) = {(r, col). r = row \<and> x0 \<le> col \<and> col < x1}"
    by auto
  ultimately show ?thesis by simp
qed

lemma draw_col_painted:
  assumes "length b = nat (3 * img_w * img_h)" "0 \<le> y0" "y1 \<le> img_h" "0 \<le> col" "col < img_w"
  shows "\<exists>b'. draw_col img_w c y0 y1 col b = Some b'
    \<and> painted img_w img_h c {(row, k). k = col \<and> y0 \<le> row \<and> row < y1} b b'"
proof -
  have "\<exists>b'. draw_col img_w c y0 y1 col b = Some b'
    \<and> painted img_w img_h c (\<Union>row\<in>set [y0..y1 - 1]. {(row, col)}) b b'"
    unfolding draw_col_def using assms
    by (intro foldo_painted put_pixel_painted) (auto simp: in_frame_def)
  moreover have "(\<Union>row\<in>set [y0..y1 - 1]. {(row, col)}) = {(row, k). k = col \<and> y0 \<le> row \<and> row < y1}"
    by auto
  ultimately show ?thesis by simp
qed

lemma painted_frame:
  "painted w h c S b b' \<Longrightarrow> (\<And>p. in_frame w h p \<Longrightarrow> p \<in> S \<longleftrightarrow> p \<in> T) \<Longrightarrow> painted w h c T b b'"
  by (auto simp: painted_def)

text \<open>An edge that is skipped lies outside the frame.\<close>

lemma guarded_painted:
  assumes len: "length b = nat (3 * w * h)"
    and yes: "P \<Longrightarrow> \<exists>b'. f b = Some b' \<and> painted w h c S b b'"
    and no: "\<not> P \<Longrightarrow> (\<And>p. in_frame w h p \<Longrightarrow> p \<notin> S)"
  shows "\<exists>b'. (if P then f b else Some b) = Some b' \<and> painted w h c S b b'"
proof (cases P)
  case False
  then show ?thesis using painted_frame[OF painted_empty[OF len]] no by auto
qed (use yes in auto)

lemma draw_ring_painted:
  assumes len: "length b = nat (3 * w * h)" and x: "0 \<le> x0" "x1 \<le> w" and y: "0 \<le> y0" "y1 \<le> h"
  shows "\<exists>b'. draw_ring w h c x0 y0 x1 y1 t b = Some b' \<and> painted w h c (ring_pixels x0 y0 x1 y1 t) b b'"
proof -
  define R where "R = (\<lambda>row::int. {(r, col). r = row \<and> x0 \<le> col \<and> col < x1})"
  define K where "K = (\<lambda>col::int. {(row, k). k = col \<and> y0 \<le> row \<and> row < y1})"
  obtain b1 where b1: "(if y0 + int t < h then draw_row w c x0 x1 (y0 + int t) b else Some b) = Some b1"
    "painted w h c (R (y0 + int t)) b b1"
    using guarded_painted[OF len, of "y0 + int t < h" "draw_row w c x0 x1 (y0 + int t)" c "R (y0 + int t)"]
      draw_row_painted[OF len x, of "y0 + int t" c] y by (auto simp: R_def in_frame_def)
  note l1 = painted_length[OF b1(2)]
  obtain b2 where b2: "(if 0 \<le> y1 - 1 - int t \<and> y1 - 1 - int t < h
      then draw_row w c x0 x1 (y1 - 1 - int t) b1 else Some b1) = Some b2" "painted w h c (R (y1 - 1 - int t)) b1 b2"
    using guarded_painted[OF l1, of "0 \<le> y1 - 1 - int t \<and> y1 - 1 - int t < h"
        "draw_row w c x0 x1 (y1 - 1 - int t)" c "R (y1 - 1 - int t)"]
      draw_row_painted[OF l1 x, of "y1 - 1 - int t" c] y by (auto simp: R_def in_frame_def)
  note l2 = painted_length[OF b2(2)]
  obtain b3 where b3: "(if x0 + int t < w then draw_col w c y0 y1 (x0 + int t) b2 else Some b2) = Some b3"
    "painted w h c (K (x0 + int t)) b2 b3"
    using guarded_painted[OF l2, of "x0 + int t < w" "draw_col w c y0 y1 (x0 + int t)" c "K (x0 + int t)"]
      draw_col_painted[OF l2 y, of "x0 + int t" c] x by (auto simp: K_def in_frame_def)
  note l3 = painted_length[OF b3(2)]
  obtain b4 where b4: "(if 0 \<le> x1 - 1 - int t \<and> x1 - 1 - int t < w
      then draw_col w c y0 y1 (x1 - 1 - int t) b3 else Some b3) = Some b4" "painted w h c (K (x1 - 1 - int t)) b3 b4"
    using guarded_painted[OF l3, of "0 \<le> x1 - 1 - int t \<and> x1 - 1 - int t < w"
        "draw_col w c y0 y1 (x1 - 1 - int t)" c "K (x1 - 1 - int t)"]
      draw_col_painted[OF l3 y, of "x1 - 1 - int t" c] x by (auto simp: K_def in_frame_def)
  have "painted w h c (R (y0 + int t) \<union> R (y1 - 1 - int t) \<union> K (x0 + int t) \<union> K (x1 - 1 - int t)) b b4"
    using painted_trans[OF painted_trans[OF painted_trans[OF b1(2) b2(2)] b3(2)] b4(2)] by simp
  moreover have "R (y0 + int t) \<union> R (y1 - 1 - int t) \<union> K (x0 + int t) \<union> K (x1 - 1 - int t)
      = ring_pixels x0 y0 x1 y1 t"
    by (auto simp: R_def K_def ring_pixels_def)
  moreover have "draw_ring w h c x0 y0 x1 y1 t b = Some b4"
    using b1(1) b2(1) b3(1) b4(1) by (simp add: draw_ring_def)
  ultimately show ?thesis by auto
qed

definition box_pixels :: "int \<Rightarrow> int \<Rightarrow> int \<Rightarrow> int \<Rightarrow> int \<Rightarrow> int \<Rightarrow> nat \<Rightarrow> (int \<times> int) set" where
  "box_pixels img_w img_h x y w h thickness =
     (let x0 = max 0 x; y0 = max 0 y; x1 = min img_w (x + w); y1 = min img_h (y + h)
      in if x0 < x1 \<and> y0 < y1 then \<Union>t<thickness. ring_pixels x0 y0 x1 y1 t else {})"

lemma draw_box_painted:
  assumes len: "length b = nat (3 * img_w * img_h)" and i: "in_int (x + w)" "in_int (y + h)"
  shows "\<exists>b'. draw_box_sw b img_w img_h x y w h rgb th = Some b'
    \<and> painted img_w img_h (colour_of rgb) (box_pixels img_w img_h x y w h th) b b'"
proof -
  let ?x0 = "max 0 x" and ?y0 = "max 0 y" and ?x1 = "min img_w (x + w)" and ?y1 = "min img_h (y + h)"
  have c: "(if x < 0 then 0 else x) = ?x0" "(if y < 0 then 0 else y) = ?y0"
    "(if img_w < x + w then img_w else x + w) = ?x1" "(if img_h < y + h then img_h else y + h) = ?y1"
    by auto
  have d: "draw_box_sw b img_w img_h x y w h rgb th = (if ?x1 \<le> ?x0 \<or> ?y1 \<le> ?y0 then Some b
      else foldo (draw_ring img_w img_h (colour_of rgb) ?x0 ?y0 ?x1 ?y1) [0..<th] b)"
    unfolding draw_box_sw_def Let_def c using i by simp
  show ?thesis
  proof (cases "?x0 < ?x1 \<and> ?y0 < ?y1")
    case False
    then have "box_pixels img_w img_h x y w h th = {}" "?x1 \<le> ?x0 \<or> ?y1 \<le> ?y0"
      by (auto simp: box_pixels_def Let_def)
    then show ?thesis using painted_empty[OF len] by (simp add: d)
  next
    case True
    have "\<exists>b'. foldo (draw_ring img_w img_h (colour_of rgb) ?x0 ?y0 ?x1 ?y1) [0..<th] b = Some b'
      \<and> painted img_w img_h (colour_of rgb) (\<Union>t\<in>set [0..<th]. ring_pixels ?x0 ?y0 ?x1 ?y1 t) b b'"
      by (intro foldo_painted draw_ring_painted len) auto
    moreover have "(\<Union>t\<in>set [0..<th]. ring_pixels ?x0 ?y0 ?x1 ?y1 t) = box_pixels img_w img_h x y w h th"
      using True by (auto simp: box_pixels_def Let_def)
    moreover have "\<not> (?x1 \<le> ?x0 \<or> ?y1 \<le> ?y0)" using True by linarith
    ultimately show ?thesis by (simp only: d if_False)
  qed
qed

section \<open>Drawing the detections of a result\<close>

lemma dim: "WIDTH = 1920" "HEIGHT = 1080"
  by (simp_all add: WIDTH_def HEIGHT_def)

text \<open>Boxes whose corners are not negative: no subtraction or addition overflows.\<close>

definition box_nonneg :: "detect_result \<Rightarrow> bool" where
  "box_nonneg r \<longleftrightarrow> 0 \<le> sint (dr_left r) \<and> 0 \<le> sint (dr_top r) \<and> 0 \<le> sint (dr_right r) \<and> 0 \<le> sint (dr_bottom r)"

definition frame_size :: nat where
  "frame_size = 1920 * 1080 * 3"

lemma draw_detection_total:
  assumes "i < length (dg_results g)" "box_nonneg (dg_results g ! i)" "length b = frame_size"
  shows "\<exists>b'. draw_detection g i b = Some b' \<and> length b' = frame_size"
proof -
  let ?d = "dg_results g ! i"
  have "in_int (sint (dr_right ?d) - sint (dr_left ?d))" "in_int (sint (dr_bottom ?d) - sint (dr_top ?d))"
    using assms(2) sint_i32[of "dr_right ?d"] sint_i32[of "dr_left ?d"] sint_i32[of "dr_bottom ?d"] sint_i32[of "dr_top ?d"]
    by (auto simp: box_nonneg_def in_int_def)
  moreover have "in_int (sint (dr_left ?d) + (sint (dr_right ?d) - sint (dr_left ?d)))"
    "in_int (sint (dr_top ?d) + (sint (dr_bottom ?d) - sint (dr_top ?d)))"
    using sint_i32[of "dr_right ?d"] sint_i32[of "dr_bottom ?d"] by (auto simp: in_int_def)
  moreover have len: "length b = nat (3 * WIDTH * HEIGHT)" using assms(3) by (simp add: dim frame_size_def)
  ultimately obtain b' where "draw_box_sw b WIDTH HEIGHT (sint (dr_left ?d)) (sint (dr_top ?d))
        (sint (dr_right ?d) - sint (dr_left ?d)) (sint (dr_bottom ?d) - sint (dr_top ?d)) 0xFFA500 6 = Some b'"
      "length b' = nat (3 * WIDTH * HEIGHT)" "in_int (sint (dr_right ?d) - sint (dr_left ?d))"
      "in_int (sint (dr_bottom ?d) - sint (dr_top ?d))"
    using draw_box_painted[OF len, of
        "sint (dr_left ?d)" "sint (dr_right ?d) - sint (dr_left ?d)" "sint (dr_top ?d)"
        "sint (dr_bottom ?d) - sint (dr_top ?d)" "0xFFA500" 6] painted_length by blast
  then have "draw_detection g i b = Some b'" "length b' = nat (3 * WIDTH * HEIGHT)"
    using assms(1) by (simp_all add: draw_detection_def Let_def)
  then show ?thesis by (simp add: dim frame_size_def)
qed

lemma draw_group_total:
  assumes "wf_group g" "\<forall>r\<in>set (take (nat (dg_count g)) (dg_results g)). box_nonneg r" "length b = frame_size"
  shows "\<exists>b'. draw_group g b = Some b' \<and> length b' = frame_size"
  unfolding draw_group_def
proof (rule foldo_inv)
  fix i and b :: image assume i: "i \<in> set [0..<nat (dg_count g)]" and b: "length b = frame_size"
  then have l: "i < length (dg_results g)" "i < nat (dg_count g)"
    using assms(1) by (auto simp: wf_group_def)
  then have "dg_results g ! i \<in> set (take (nat (dg_count g)) (dg_results g))"
    by (auto simp: in_set_conv_nth intro!: exI[of _ i])
  then show "\<exists>b'. draw_detection g i b = Some b' \<and> length b' = frame_size"
    using assms(2) l(1) b by (intro draw_detection_total) auto
qed (rule assms(3))

section \<open>Properties\<close>



end
