(* ===== verification/Quick_Sort.thy ===== *)
theory Quick_Sort
  imports IEEE_Float
begin

text \<open>
  \<open>quick_sort_indice_inverse\<close> of \<open>src/postprocess.cc\<close>: an in-place quicksort of the scores in
  decreasing order that moves the candidate indices along. The partition loop compares with
  \<open>\<le>\<close> and \<open>\<ge>\<close> only, so it makes no progress on a NaN: the loop, and with it the sort, are
  functions into \<open>option\<close>, \<open>None\<close> meaning that the code does not return. On scores other
  than NaN the sort is proved to return.
\<close>

section \<open>The code\<close>

text \<open>\<open>while (low < high && input[high] <= key) high--\<close>\<close>

function scan_down :: "fp \<Rightarrow> fp list \<Rightarrow> nat \<Rightarrow> nat \<Rightarrow> nat" where
  "scan_down key inp low high =
     (if low < high \<and> fle (inp ! high) key then scan_down key inp low (high - 1) else high)"
  by pat_completeness auto
termination
  by (relation "measure (\<lambda>(key, inp, low, high). high)") auto

text \<open>\<open>while (low < high && input[low] >= key) low++\<close>\<close>

function scan_up :: "fp \<Rightarrow> fp list \<Rightarrow> nat \<Rightarrow> nat \<Rightarrow> nat" where
  "scan_up key inp low high =
     (if low < high \<and> fle key (inp ! low) then scan_up key inp (low + 1) high else low)"
  by pat_completeness auto
termination
  by (relation "measure (\<lambda>(key, inp, low, high). high - low)") auto

declare scan_down.simps [simp del] scan_up.simps [simp del]

partial_function (option) part_loop ::
  "fp \<Rightarrow> fp list \<Rightarrow> int list \<Rightarrow> nat \<Rightarrow> nat \<Rightarrow> (fp list \<times> int list \<times> nat) option" where
  "part_loop key inp idx low high =
     (if low < high then
        (let h = scan_down key inp low high;
             inp1 = inp[low := inp ! h];
             idx1 = idx[low := idx ! h];
             l = scan_up key inp1 low h;
             inp2 = inp1[h := inp1 ! l];
             idx2 = idx1[h := idx1 ! l]
         in part_loop key inp2 idx2 l h)
      else Some (inp, idx, low))"

partial_function (option) quick_sort ::
  "int \<Rightarrow> int \<Rightarrow> fp list \<Rightarrow> int list \<Rightarrow> (fp list \<times> int list) option" where
  "quick_sort left right inp idx =
     (if left < right then
        Option.bind (part_loop (inp ! nat left) inp idx (nat left) (nat right))
          (\<lambda>(inp1, idx1, low).
             Option.bind
               (quick_sort left (int low - 1)
                  (inp1[low := inp ! nat left]) (idx1[low := idx ! nat left]))
               (\<lambda>(inp2, idx2). quick_sort (int low + 1) right inp2 idx2))
      else Some (inp, idx))"

section \<open>Total preorders\<close>

text \<open>What the sort and the searches for a best element need of a comparison: on the values it
  is defined for it is total and transitive.\<close>

locale total_preorder =
  fixes le :: "'a \<Rightarrow> 'a \<Rightarrow> bool" and ok :: "'a \<Rightarrow> bool"
  assumes total: "ok x \<Longrightarrow> ok y \<Longrightarrow> le x y \<or> le y x"
    and trans: "le x y \<Longrightarrow> le y z \<Longrightarrow> le x z"
begin

lemma not_le: "ok x \<Longrightarrow> ok y \<Longrightarrow> \<not> le x y \<Longrightarrow> le y x"
  using total by blast

text \<open>Joining what partition and recursion give: a decreasing list around a pivot.\<close>

lemma decreasing_join:
  assumes "\<And>i j. a \<le> i \<Longrightarrow> i < j \<Longrightarrow> j < m \<Longrightarrow> le (xs ! j) (xs ! i)"
    and "\<And>i j. m < i \<Longrightarrow> i < j \<Longrightarrow> j \<le> (b::nat) \<Longrightarrow> le (xs ! j) (xs ! i)"
    and "\<And>i. a \<le> i \<Longrightarrow> i < m \<Longrightarrow> le (xs ! m) (xs ! i)"
    and "\<And>i. m < i \<Longrightarrow> i \<le> b \<Longrightarrow> le (xs ! i) (xs ! m)"
    and "a \<le> i" "i < j" "j \<le> b"
  shows "le (xs ! j) (xs ! i)"
proof -
  consider "j < m" | "i < m" "j = m" | "i < m" "m < j" | "i = m" | "m < i"
    using \<open>i < j\<close> by linarith
  then show ?thesis
    using assms by cases (auto intro: trans[of _ "xs ! m"])
qed

end

interpretation fp: total_preorder fle "\<lambda>x. x \<noteq> NaN"
  by unfold_locales (use fle_total in blast, use fle_trans in blast)

section \<open>Permuting a section of a list\<close>

text \<open>\<open>ys\<close> is \<open>xs\<close> with the elements at positions a to b - 1 permuted.\<close>

definition perm_on :: "nat \<Rightarrow> nat \<Rightarrow> 'a list \<Rightarrow> 'a list \<Rightarrow> bool" where
  "perm_on a b xs ys \<longleftrightarrow> length ys = length xs \<and> mset ys = mset xs
     \<and> (\<forall>i<length xs. i < a \<or> b \<le> i \<longrightarrow> ys ! i = xs ! i)"

lemma perm_on_refl [simp]: "perm_on a b xs xs"
  by (simp add: perm_on_def)

lemma perm_on_trans: "perm_on a b xs ys \<Longrightarrow> perm_on a b ys zs \<Longrightarrow> perm_on a b xs zs"
  by (simp add: perm_on_def)

lemma perm_on_mono: "perm_on a b xs ys \<Longrightarrow> a' \<le> a \<Longrightarrow> b \<le> b' \<Longrightarrow> perm_on a' b' xs ys"
  by (auto simp: perm_on_def)

lemma perm_on_swap:
  assumes "a \<le> i" "i < b" "a \<le> j" "j < b" "i < length xs" "j < length xs"
  shows "perm_on a b xs (xs[i := xs ! j, j := xs ! i])"
  using assms by (auto simp: perm_on_def mset_swap nth_list_update)

lemma perm_on_section:
  assumes "perm_on a b xs ys" "a \<le> b" "b \<le> length xs"
  shows "mset (drop a (take b ys)) = mset (drop a (take b xs))"
proof -
  have len: "length ys = length xs" and ms: "mset ys = mset xs" using assms(1) by (auto simp: perm_on_def)
  have pre: "take a ys = take a xs" and post: "drop b ys = drop b xs"
    using assms by (auto simp: perm_on_def intro!: nth_equalityI)
  have split: "mset zs = mset (take a zs) + mset (drop a (take b zs)) + mset (drop b zs)" for zs :: "'a list"
  proof -
    have "take b zs = take a zs @ drop a (take b zs)"
      using assms(2) by (metis append_take_drop_id min.absorb1 take_take)
    then have "mset (take b zs) = mset (take a zs) + mset (drop a (take b zs))"
      by (metis mset_append)
    then show ?thesis by (metis append_take_drop_id mset_append)
  qed
  show ?thesis using split[of ys] split[of xs] ms pre post by simp
qed

text \<open>An element of the section of the permuted list was in the section before.\<close>

lemma perm_on_nth:
  assumes "perm_on a b xs ys" "a \<le> i" "i < b" "b \<le> length xs"
  obtains j where "a \<le> j" "j < b" "ys ! i = xs ! j"
proof -
  have len: "length ys = length xs" using assms(1) by (auto simp: perm_on_def)
  have "set (drop a (take b ys)) = set (drop a (take b xs))"
    using perm_on_section[OF assms(1) _ assms(4)] assms(2,3)
    by (metis le_trans less_imp_le_nat set_mset_mset)
  moreover have "ys ! i \<in> set (drop a (take b ys))"
    using assms len by (auto simp: in_set_conv_nth intro!: exI[of _ "i - a"])
  ultimately have "ys ! i \<in> set (drop a (take b xs))" by simp
  then obtain k where "k < length (drop a (take b xs))" "drop a (take b xs) ! k = ys ! i"
    by (auto simp: in_set_conv_nth)
  then show thesis using assms by (intro that[of "a + k"]) auto
qed

lemma zip_update_both: "zip (xs[i := x]) (ys[i := y]) = (zip xs ys)[i := (x, y)]"
  by (simp add: update_zip)

section \<open>The partition loop\<close>

lemma scan_down_spec:
  "low \<le> high \<Longrightarrow> low \<le> scan_down key inp low high \<and> scan_down key inp low high \<le> high
     \<and> (\<forall>i. scan_down key inp low high < i \<and> i \<le> high \<longrightarrow> fle (inp ! i) key)
     \<and> (scan_down key inp low high = low \<or> \<not> fle (inp ! scan_down key inp low high) key)"
proof (induction key inp low high rule: scan_down.induct)
  case (1 key inp low high)
  show ?case
  proof (cases "low < high \<and> fle (inp ! high) key")
    case True
    define r where "r = scan_down key inp low (high - 1)"
    have eq: "scan_down key inp low high = r"
      using True by (simp add: scan_down.simps[of key inp low high] r_def)
    have "low \<le> high - 1" using True by linarith
    from "1.IH"[OF True this]
    have IH: "low \<le> r" "r \<le> high - 1" "\<forall>i. r < i \<and> i \<le> high - 1 \<longrightarrow> fle (inp ! i) key"
      "r = low \<or> \<not> fle (inp ! r) key"
      by (simp_all add: r_def)
    have "fle (inp ! i) key" if "r < i" "i \<le> high" for i
      using that True IH(3) by (cases "i = high") auto
    then show ?thesis using IH True by (auto simp: eq)
  next
    case False
    then show ?thesis using "1.prems" by (auto simp: scan_down.simps[of key inp low high])
  qed
qed

lemma scan_up_spec:
  "low \<le> high \<Longrightarrow> low \<le> scan_up key inp low high \<and> scan_up key inp low high \<le> high
     \<and> (\<forall>i. low \<le> i \<and> i < scan_up key inp low high \<longrightarrow> fle key (inp ! i))
     \<and> (scan_up key inp low high = high \<or> \<not> fle key (inp ! scan_up key inp low high))"
proof (induction key inp low high rule: scan_up.induct)
  case (1 key inp low high)
  show ?case
  proof (cases "low < high \<and> fle key (inp ! low)")
    case True
    define r where "r = scan_up key inp (low + 1) high"
    have eq: "scan_up key inp low high = r"
      using True by (simp add: scan_up.simps[of key inp low high] r_def)
    have IH: "low + 1 \<le> r" "r \<le> high" "\<forall>i. low + 1 \<le> i \<and> i < r \<longrightarrow> fle key (inp ! i)"
      "r = high \<or> \<not> fle key (inp ! r)"
      using "1.IH"[OF True] True by (auto simp: r_def)
    have "fle key (inp ! i)" if "low \<le> i" "i < r" for i
      using that True IH(3) by (cases "i = low") auto
    then show ?thesis using IH by (auto simp: eq)
  next
    case False
    then show ?thesis using "1.prems" by (auto simp: scan_up.simps[of key inp low high])
  qed
qed

text \<open>Moving the hole: the element at \<open>j\<close> goes where the hole was, the hole goes to \<open>j\<close>.\<close>

lemma hole_move:
  assumes "a \<le> i" "i < b" "a \<le> j" "j < b" "i < length xs" "j < length xs"
  shows "perm_on a b (xs[i := k]) ((xs[i := xs ! j])[j := k])"
proof (cases "i = j")
  case False
  then have "(xs[i := xs ! j])[j := k] = (xs[i := k])[i := (xs[i := k]) ! j, j := (xs[i := k]) ! i]"
    using assms by simp
  also have "perm_on a b (xs[i := k]) \<dots>"
    using assms by (intro perm_on_swap) auto
  finally show ?thesis .
qed simp

text \<open>The partition narrows a section low..high with the hole at low to one l..h with the hole at l: what it
  left behind is settled, larger or equal scores before, smaller or equal ones after, and with the
  key in the hole everything is a permutation of the section.\<close>

definition narrowed :: "fp \<Rightarrow> int \<Rightarrow> nat \<Rightarrow> nat \<Rightarrow> fp list \<Rightarrow> int list \<Rightarrow> nat \<Rightarrow> nat \<Rightarrow> fp list \<Rightarrow> int list \<Rightarrow> bool" where
  "narrowed key ki low high inp idx l h inp' idx' \<longleftrightarrow> low \<le> l \<and> l \<le> h \<and> h \<le> high
     \<and> length inp' = length inp \<and> length idx' = length inp
     \<and> perm_on low (Suc high) ((zip inp idx)[low := (key, ki)]) ((zip inp' idx')[l := (key, ki)])
     \<and> (\<forall>i. low \<le> i \<and> i < l \<longrightarrow> fle key (inp' ! i)) \<and> (\<forall>i. h < i \<and> i \<le> high \<longrightarrow> fle (inp' ! i) key)
     \<and> (\<forall>i<length inp. i < low \<or> high < i \<longrightarrow> inp' ! i = inp ! i)"

lemma narrowed_refl: "low \<le> high \<Longrightarrow> length idx = length inp \<Longrightarrow> narrowed key ki low high inp idx low high inp idx"
  by (auto simp: narrowed_def)

lemma narrowed_trans:
  assumes 1: "narrowed key ki low high inp idx l h inp1 idx1" and 2: "narrowed key ki l h inp1 idx1 l' h' inp2 idx2"
    and len: "high < length inp"
  shows "narrowed key ki low high inp idx l' h' inp2 idx2"
proof -
  have out: "inp2 ! i = inp1 ! i" if "i < l \<or> h < i" "i < length inp" for i
    using 1 2 that by (auto simp: narrowed_def)
  have "perm_on l (Suc h) ((zip inp1 idx1)[l := (key, ki)]) ((zip inp2 idx2)[l' := (key, ki)])"
    using 2 by (simp add: narrowed_def)
  from perm_on_mono[OF this, of low "Suc high"]
  have "perm_on low (Suc high) ((zip inp1 idx1)[l := (key, ki)]) ((zip inp2 idx2)[l' := (key, ki)])"
    using 1 by (simp add: narrowed_def)
  then have perm: "perm_on low (Suc high) ((zip inp idx)[low := (key, ki)]) ((zip inp2 idx2)[l' := (key, ki)])"
    using 1 by (auto simp: narrowed_def intro: perm_on_trans)
  have "fle key (inp2 ! i)" if "low \<le> i" "i < l'" for i
    using 1 2 that out[of i] len by (cases "i < l") (auto simp: narrowed_def)
  moreover have "fle (inp2 ! i) key" if "h' < i" "i \<le> high" for i
    using 1 2 that out[of i] len by (cases "h < i") (auto simp: narrowed_def)
  moreover have "inp2 ! i = inp ! i" if "i < length inp" "i < low \<or> high < i" for i
    using 1 2 that out[of i] by (auto simp: narrowed_def)
  ultimately show ?thesis using 1 2 perm unfolding narrowed_def by simp
qed

text \<open>One turn of the loop narrows the section.\<close>

lemma part_turn:
  assumes "low < high" "high < length inp" "length idx = length inp" "key \<noteq> NaN"
    and nn: "\<And>i. low \<le> i \<Longrightarrow> i \<le> high \<Longrightarrow> inp ! i \<noteq> NaN"
  obtains l h inp2 idx2 where "part_loop key inp idx low high = part_loop key inp2 idx2 l h"
    "narrowed key ki low high inp idx l h inp2 idx2" "h - l < high - low"
    "\<And>i. l \<le> i \<Longrightarrow> i \<le> h \<Longrightarrow> inp2 ! i \<noteq> NaN"
proof
  define h where "h = scan_down key inp low high"
  define inp1 idx1 where "inp1 = inp[low := inp ! h]" and "idx1 = idx[low := idx ! h]"
  define l where "l = scan_up key inp1 low h"
  define inp2 idx2 where "inp2 = inp1[h := inp1 ! l]" and "idx2 = idx1[h := idx1 ! l]"
  note defs = inp1_def idx1_def inp2_def idx2_def
  show "part_loop key inp idx low high = part_loop key inp2 idx2 l h"
    using assms(1) by (simp add: part_loop.simps[of key inp idx low high] Let_def h_def l_def defs)
  have sd: "low \<le> h" "h \<le> high" "\<forall>i. h < i \<and> i \<le> high \<longrightarrow> fle (inp ! i) key" "h = low \<or> \<not> fle (inp ! h) key"
    using scan_down_spec[OF less_imp_le[OF assms(1)], of key inp] by (auto simp: h_def)
  have su: "low \<le> l" "l \<le> h" "\<forall>i. low \<le> i \<and> i < l \<longrightarrow> fle key (inp1 ! i)" "l = h \<or> \<not> fle key (inp1 ! l)"
    using scan_up_spec[OF sd(1), of key inp1] by (auto simp: l_def)
  show "inp2 ! i \<noteq> NaN" if "l \<le> i" "i \<le> h" for i
    using that su sd nn assms(2) by (auto simp: defs nth_list_update)
  show "h - l < high - low"
  proof (cases "h = low")
    case False
    then have "fle key (inp ! h)" using sd nn assms(4) by (intro fp.not_le) auto
    then have "fle key (inp1 ! low)" using sd assms(2) by (simp add: inp1_def)
    then have "l \<noteq> low" using su False by auto
    then show ?thesis using su sd by linarith
  qed (use assms(1) su in linarith)
  have b: "low < length inp" "h < length inp" "l < length inp" using assms(1,2) sd su by simp_all
  have len1: "length inp1 = length inp" "length idx1 = length inp" using assms(3) by (simp_all add: defs)
  have z: "zip inp1 idx1 = (zip inp idx)[low := zip inp idx ! h]" "zip inp2 idx2 = (zip inp1 idx1)[h := zip inp1 idx1 ! l]"
    using b assms(3) len1 by (simp_all add: inp2_def idx2_def zip_update_both) (simp add: inp1_def idx1_def zip_update_both)
  have "perm_on low (Suc high) ((zip inp idx)[low := (key, ki)]) ((zip inp1 idx1)[h := (key, ki)])"
    unfolding z(1) using sd b assms(3) by (intro hole_move) auto
  also have "perm_on low (Suc high) \<dots> ((zip inp2 idx2)[l := (key, ki)])"
    unfolding z(2) using sd su b assms(3) by (intro hole_move) (auto simp: inp1_def idx1_def)
  finally (perm_on_trans) have "perm_on low (Suc high) ((zip inp idx)[low := (key, ki)]) ((zip inp2 idx2)[l := (key, ki)])" .
  moreover have "\<forall>i. low \<le> i \<and> i < l \<longrightarrow> fle key (inp2 ! i)"
    using su by (auto simp: inp2_def nth_list_update)
  ultimately show "narrowed key ki low high inp idx l h inp2 idx2"
    using su sd assms(3) by (auto simp: narrowed_def defs nth_list_update)
qed

text \<open>The partition loop returns, with the key's place found.\<close>

lemma part_loop_spec:
  assumes "low \<le> high" "high < length inp" "length idx = length inp" "key \<noteq> NaN"
    and "\<And>i. low \<le> i \<Longrightarrow> i \<le> high \<Longrightarrow> inp ! i \<noteq> NaN"
  shows "\<exists>inp' idx' m. part_loop key inp idx low high = Some (inp', idx', m)
    \<and> narrowed key ki low high inp idx m m inp' idx'"
  using assms
proof (induction "high - low" arbitrary: inp idx low high rule: less_induct)
  case less
  show ?case
  proof (cases "low < high")
    case False
    then have "part_loop key inp idx low high = Some (inp, idx, low)"
      by (simp add: part_loop.simps[of key inp idx low high])
    moreover have "low = high" using False less.prems(1) by simp
    ultimately show ?thesis using narrowed_refl[of low high idx inp key ki] less.prems(3) by blast
  next
    case True
    obtain l h inp2 idx2 where t: "part_loop key inp idx low high = part_loop key inp2 idx2 l h"
      "narrowed key ki low high inp idx l h inp2 idx2" "h - l < high - low"
      "\<And>i. l \<le> i \<Longrightarrow> i \<le> h \<Longrightarrow> inp2 ! i \<noteq> NaN"
      by (rule part_turn[OF True less.prems(2,3,4), where ki = ki]) (use less.prems(5) in auto)
    have "l \<le> h" "h < length inp2" "length idx2 = length inp2" using t(2) less.prems(2) by (simp_all add: narrowed_def)
    from less.hyps[OF t(3) this less.prems(4) t(4)] obtain inp' idx' m
      where "part_loop key inp2 idx2 l h = Some (inp', idx', m)" "narrowed key ki l h inp2 idx2 m m inp' idx'" by blast
    then show ?thesis using t(1) narrowed_trans[OF t(2) _ less.prems(2)] by auto
  qed
qed

section \<open>The sort\<close>

text \<open>Reading a permutation of the zipped lists on the scores.\<close>

lemma perm_on_zip_scores:
  assumes "perm_on a b (zip xs is) (zip ys js)" "length is = length xs" "length ys = length js"
  shows "length ys = length xs"
    and "\<And>i. i < length xs \<Longrightarrow> i < a \<or> b \<le> i \<Longrightarrow> ys ! i = xs ! i"
    and "\<And>i. a \<le> i \<Longrightarrow> i < b \<Longrightarrow> b \<le> length xs \<Longrightarrow> \<exists>j. a \<le> j \<and> j < b \<and> ys ! i = xs ! j"
proof -
  show len: "length ys = length xs" using assms by (auto simp: perm_on_def)
  show "ys ! i = xs ! i" if "i < length xs" "i < a \<or> b \<le> i" for i
  proof -
    have "zip ys js ! i = zip xs is ! i" using assms that by (auto simp: perm_on_def)
    then show ?thesis using that len assms by simp
  qed
  show "\<exists>j. a \<le> j \<and> j < b \<and> ys ! i = xs ! j" if "a \<le> i" "i < b" "b \<le> length xs" for i
  proof -
    have "b \<le> length (zip xs is)" using that assms by simp
    from perm_on_nth[OF assms(1) that(1,2) this] obtain j
      where "a \<le> j" "j < b" "zip ys js ! i = zip xs is ! j" .
    then show ?thesis using that len assms by auto
  qed
qed

text \<open>The partition puts the pivot in its place; the two sides are sorted next.\<close>

lemma pivot_placed:
  assumes ab: "a < b" "b < length inp" "length idx = length inp"
    and nn: "\<And>i. a \<le> i \<Longrightarrow> i \<le> b \<Longrightarrow> inp ! i \<noteq> NaN"
  obtains inpA idxA m where "quick_sort (int a) (int b) inp idx = Option.bind (quick_sort (int a) (int m - 1) inpA idxA)
      (\<lambda>(inp2, idx2). quick_sort (int m + 1) (int b) inp2 idx2)"
    and "a \<le> m" "m \<le> b" "length inpA = length inp" "length idxA = length inp"
    and "perm_on a (Suc b) (zip inp idx) (zip inpA idxA)"
    and "\<And>i. a \<le> i \<Longrightarrow> i < m \<Longrightarrow> fle (inpA ! m) (inpA ! i)" "\<And>i. m < i \<Longrightarrow> i \<le> b \<Longrightarrow> fle (inpA ! i) (inpA ! m)"
    and "\<And>i. a \<le> i \<Longrightarrow> i \<le> b \<Longrightarrow> inpA ! i \<noteq> NaN"
proof -
  obtain inp1 idx1 m where p: "part_loop (inp ! a) inp idx a b = Some (inp1, idx1, m)"
    and n: "narrowed (inp ! a) (idx ! a) a b inp idx m m inp1 idx1"
    using part_loop_spec[of a b inp idx "inp ! a" "idx ! a"] ab nn by auto
  let ?A = "inp1[m := inp ! a]" and ?I = "idx1[m := idx ! a]"
  have m: "a \<le> m" "m \<le> b" "length inp1 = length inp" "length idx1 = length inp" using n by (simp_all add: narrowed_def)
  have "(zip inp idx)[a := (inp ! a, idx ! a)] = zip inp idx"
    using ab by (intro list_update_same_conv[THEN iffD2]) auto
  then have perm: "perm_on a (Suc b) (zip inp idx) (zip ?A ?I)"
    using n by (simp add: narrowed_def zip_update_both)
  have "?A ! i \<noteq> NaN" if i: "a \<le> i" "i \<le> b" for i
  proof -
    obtain j where "a \<le> j" "j < Suc b" "?A ! i = inp ! j"
      using perm_on_zip_scores(3)[OF perm, of i] ab m i by auto
    then show ?thesis using nn[of j] by simp
  qed
  moreover have "quick_sort (int a) (int b) inp idx = Option.bind (quick_sort (int a) (int m - 1) ?A ?I)
      (\<lambda>(inp2, idx2). quick_sort (int m + 1) (int b) inp2 idx2)"
    using ab p by (subst quick_sort.simps) simp
  ultimately show thesis using that[of m ?A ?I] m perm n ab by (simp add: narrowed_def)
qed

text \<open>Sorting the two sides of the pivot sorts the section.\<close>

lemma sides_sorted:
  assumes len: "length inpA = n" "length inpB = n" "length inpC = n" "length idxA = n" "length idxB = n" "length idxC = n"
    and m: "a \<le> m" "m \<le> b" "b < n"
    and lo: "\<And>i. a \<le> i \<Longrightarrow> i < m \<Longrightarrow> fle (inpA ! m) (inpA ! i)" and hi: "\<And>i. m < i \<Longrightarrow> i \<le> b \<Longrightarrow> fle (inpA ! i) (inpA ! m)"
    and permB: "perm_on a m (zip inpA idxA) (zip inpB idxB)"
    and permC: "perm_on (Suc m) (Suc b) (zip inpB idxB) (zip inpC idxC)"
    and decB: "\<And>i j. a \<le> i \<Longrightarrow> i < j \<Longrightarrow> j < m \<Longrightarrow> fle (inpB ! j) (inpB ! i)"
    and decC: "\<And>i j. m < i \<Longrightarrow> i < j \<Longrightarrow> j \<le> b \<Longrightarrow> fle (inpC ! j) (inpC ! i)"
    and ij: "a \<le> i" "i < j" "j \<le> b"
  shows "fle (inpC ! j) (inpC ! i)"
proof (rule fp.decreasing_join[of a m inpC b i j])
  have outB: "inpB ! i = inpA ! i" if "m \<le> i" "i < n" for i
    using that perm_on_zip_scores(2)[OF permB] len by auto
  have outC: "inpC ! i = inpB ! i" if "i \<le> m" for i
    using that m perm_on_zip_scores(2)[OF permC] len by auto
  have mC: "inpC ! m = inpA ! m" using outC[of m] outB[of m] m by simp
  show "fle (inpC ! j) (inpC ! i)" if "a \<le> i" "i < j" "j < m" for i j
    using decB[OF that] outC[of i] outC[of j] that by simp
  show "fle (inpC ! m) (inpC ! i)" if i: "a \<le> i" "i < m" for i
  proof -
    obtain j where "a \<le> j" "j < m" "inpB ! i = inpA ! j"
      using perm_on_zip_scores(3)[OF permB, of i] i m len by auto
    then show ?thesis using lo outC[of i] i mC by simp
  qed
  show "fle (inpC ! i) (inpC ! m)" if i: "m < i" "i \<le> b" for i
  proof -
    obtain j where "m < j" "j \<le> b" "inpC ! i = inpB ! j"
      using perm_on_zip_scores(3)[OF permC, of i] i m len by (auto simp: Suc_le_eq less_Suc_eq_le)
    then show ?thesis using hi outB[of j] m mC by simp
  qed
qed (use ij decC in auto)

text \<open>The sort of a section returns, permutes the section and leaves it in decreasing order.\<close>

lemma quick_sort_spec:
  assumes "0 \<le> left" "right < int (length inp)" "length idx = length inp"
    and "\<And>i. left \<le> int i \<Longrightarrow> int i \<le> right \<Longrightarrow> inp ! i \<noteq> NaN"
  shows "\<exists>inp' idx'. quick_sort left right inp idx = Some (inp', idx')
    \<and> length inp' = length inp \<and> length idx' = length inp
    \<and> perm_on (nat left) (nat (right + 1)) (zip inp idx) (zip inp' idx')
    \<and> (\<forall>i j. left \<le> int i \<and> i < j \<and> int j \<le> right \<longrightarrow> fle (inp' ! j) (inp' ! i))"
  using assms
proof (induction "nat (right - left)" arbitrary: left right inp idx rule: less_induct)
  case less
  show ?case
  proof (cases "left < right")
    case False
    then show ?thesis using less.prems(3) by (auto simp: quick_sort.simps[of left right inp idx])
  next
    case True
    define a b where "a = nat left" and "b = nat right"
    have ab: "left = int a" "right = int b" "a < b" "b < length inp"
      using True less.prems by (auto simp: a_def b_def)
    obtain inpA idxA m where q: "quick_sort (int a) (int b) inp idx = Option.bind (quick_sort (int a) (int m - 1) inpA idxA)
          (\<lambda>(inp2, idx2). quick_sort (int m + 1) (int b) inp2 idx2)"
      and m: "a \<le> m" "m \<le> b" and lenA: "length inpA = length inp" "length idxA = length inp"
      and permA: "perm_on a (Suc b) (zip inp idx) (zip inpA idxA)"
      and lo: "\<And>i. a \<le> i \<Longrightarrow> i < m \<Longrightarrow> fle (inpA ! m) (inpA ! i)" and hi: "\<And>i. m < i \<Longrightarrow> i \<le> b \<Longrightarrow> fle (inpA ! i) (inpA ! m)"
      and nnA: "\<And>i. a \<le> i \<Longrightarrow> i \<le> b \<Longrightarrow> inpA ! i \<noteq> NaN"
      by (rule pivot_placed[OF ab(3,4) less.prems(3)]) (use less.prems(4) ab in auto)
    have "\<exists>inp' idx'. quick_sort left (int m - 1) inpA idxA = Some (inp', idx')
      \<and> length inp' = length inpA \<and> length idx' = length inpA
      \<and> perm_on (nat left) (nat (int m - 1 + 1)) (zip inpA idxA) (zip inp' idx')
      \<and> (\<forall>i j. left \<le> int i \<and> i < j \<and> int j \<le> int m - 1 \<longrightarrow> fle (inp' ! j) (inp' ! i))"
      using m ab nnA lenA by (intro less.hyps) auto
    then obtain inpB idxB where B: "quick_sort (int a) (int m - 1) inpA idxA = Some (inpB, idxB)"
        "length inpB = length inp" "length idxB = length inp" "perm_on a m (zip inpA idxA) (zip inpB idxB)"
        "\<And>i j. a \<le> i \<Longrightarrow> i < j \<Longrightarrow> j < m \<Longrightarrow> fle (inpB ! j) (inpB ! i)"
      using lenA ab(1) by auto
    have "inpB ! i \<noteq> NaN" if "m < i" "i \<le> b" for i
      using that nnA[of i] perm_on_zip_scores(2)[OF B(4)] lenA B(2,3) m(1) ab(4) by auto
    then have "\<exists>inp' idx'. quick_sort (int m + 1) right inpB idxB = Some (inp', idx')
      \<and> length inp' = length inpB \<and> length idx' = length inpB
      \<and> perm_on (nat (int m + 1)) (nat (right + 1)) (zip inpB idxB) (zip inp' idx')
      \<and> (\<forall>i j. int m + 1 \<le> int i \<and> i < j \<and> int j \<le> right \<longrightarrow> fle (inp' ! j) (inp' ! i))"
      using m ab B(2,3) by (intro less.hyps) auto
    moreover have "nat (int m + 1) = Suc m" "nat (right + 1) = Suc b" using ab by auto
    ultimately obtain inpC idxC where C: "quick_sort (int m + 1) (int b) inpB idxB = Some (inpC, idxC)"
        "length inpC = length inp" "length idxC = length inp" "perm_on (Suc m) (Suc b) (zip inpB idxB) (zip inpC idxC)"
        "\<And>i j. m < i \<Longrightarrow> i < j \<Longrightarrow> j \<le> b \<Longrightarrow> fle (inpC ! j) (inpC ! i)"
      using B(2) ab(2) by auto
    note dec = sides_sorted[OF lenA(1) B(2) C(2) lenA(2) B(3) C(3) m ab(4) lo hi B(4) C(4) B(5) C(5)]
    have "perm_on a (Suc b) (zip inp idx) (zip inpC idxC)"
      using permA perm_on_mono[OF B(4), of a "Suc b"] perm_on_mono[OF C(4), of a "Suc b"] m
      by (auto intro: perm_on_trans)
    then show ?thesis using q B(1) C(1-3) dec ab by (auto simp: nat_add_distrib)
  qed
qed

text \<open>The whole list, as \<open>post_process\<close> calls it.\<close>

lemma quick_sort_all:
  assumes "length idx = length inp" "NaN \<notin> set inp"
  shows "\<exists>inp' idx'. quick_sort 0 (int (length inp) - 1) inp idx = Some (inp', idx')
    \<and> length inp' = length inp \<and> length idx' = length inp
    \<and> mset (zip inp' idx') = mset (zip inp idx)
    \<and> (\<forall>i j. i < j \<and> j < length inp \<longrightarrow> fle (inp' ! j) (inp' ! i))"
proof -
  have "inp ! i \<noteq> NaN" if "int i \<le> int (length inp) - 1" for i
    using assms(2) that by (metis nth_mem of_nat_less_iff zle_diff1_eq)
  then obtain inp' idx' where "quick_sort 0 (int (length inp) - 1) inp idx = Some (inp', idx')"
    "length inp' = length inp" "length idx' = length inp"
    "perm_on (nat 0) (nat (int (length inp) - 1 + 1)) (zip inp idx) (zip inp' idx')"
    "\<forall>i j. 0 \<le> int i \<and> i < j \<and> int j \<le> int (length inp) - 1 \<longrightarrow> fle (inp' ! j) (inp' ! i)"
    using quick_sort_spec[of 0 "int (length inp) - 1" inp idx] assms(1) by force
  then show ?thesis by (auto simp: perm_on_def)
qed

text \<open>A key that is NaN: the partition loop makes no progress and never returns.\<close>

lemma part_loop_NaN:
  assumes "low < high"
  shows "part_loop NaN inp idx low high = None"
proof (rule ccontr)
  assume "part_loop NaN inp idx low high \<noteq> None"
  then obtain r where r: "part_loop NaN inp idx low high = Some r" by blast
  have "NaN = NaN \<longrightarrow> \<not> low < high"
  proof (rule part_loop.raw_induct[where P = "\<lambda>key inp idx low high r. key = NaN \<longrightarrow> \<not> low < high", OF _ r])
    fix f key inp idx low high r
    assume IH: "\<And>key inp idx low high r. f key inp idx low high = Some r \<Longrightarrow> key = NaN \<longrightarrow> \<not> low < high"
      and eq: "(if low < high
         then let h = scan_down key inp low high; inp1 = inp[low := inp ! h]; idx1 = idx[low := idx ! h];
                  l = scan_up key inp1 low h; inp2 = inp1[h := inp1 ! l]; idx2 = idx1[h := idx1 ! l]
              in f key inp2 idx2 l h
         else Some (inp, idx, low)) = Some r"
    show "key = NaN \<longrightarrow> \<not> low < high"
    proof (intro impI notI)
      assume "key = NaN" "low < high"
      moreover from this have "scan_down key inp low high = high" "scan_up key xs low high = low" for xs
        by (simp_all add: scan_down.simps[of NaN inp low high] scan_up.simps[of NaN xs low high])
      ultimately show False using eq IH by (auto simp: Let_def)
    qed
  qed
  with assms show False by simp
qed

section \<open>Properties\<close>

text \<open>C30: on scores other than NaN the quicksort returns, the scores are in decreasing order, and
  scores and indices were permuted together: every index still stands at its score.\<close>

theorem quick_sort_sorts:
  assumes "length idx = length inp" "NaN \<notin> set inp"
  shows "\<exists>inp' idx'. quick_sort 0 (int (length inp) - 1) inp idx = Some (inp', idx')
    \<and> length inp' = length inp \<and> length idx' = length inp
    \<and> mset (zip inp' idx') = mset (zip inp idx)
    \<and> (\<forall>i j. i < j \<and> j < length inp \<longrightarrow> fle (inp' ! j) (inp' ! i))"
  by (rule quick_sort_all[OF assms])

theorem quick_sort_sorts_witness:
  "\<exists>inp' idx'. quick_sort 0 2 [Fin (1/2), Fin (3/4), Inf True] [0, 1, 2] = Some (inp', idx')
    \<and> mset (zip inp' idx') = mset [(Fin (1/2), 0), (Fin (3/4), 1), (Inf True, 2)]"
  using quick_sort_sorts[of "[0, 1, 2]" "[Fin (1/2), Fin (3/4), Inf True]"] by auto

text \<open>A NaN score at the pivot of a section of at least two scores makes the sort run for
  ever: the partition loop finds nothing to exchange and moves neither end.\<close>

theorem quick_sort_NaN_diverges:
  assumes "left < right" "inp ! nat left = NaN" "0 \<le> left"
  shows "quick_sort left right inp idx = None"
proof -
  have "nat left < nat right" using assms by simp
  from part_loop_NaN[OF this, of inp idx] show ?thesis
    using assms by (simp add: quick_sort.simps[of left right inp idx])
qed

theorem quick_sort_NaN_diverges_witness:
  "quick_sort 0 1 [NaN, Fin (1/2)] [0, 1] = None"
  using quick_sort_NaN_diverges[of 0 1 "[NaN, Fin (1/2)]" "[0, 1]"] by simp

end
