(* ===== verification/Nms.thy ===== *)
theory Nms
  imports Quick_Sort "HOL-Library.Sublist"
begin

text \<open>
  Non-maximum suppression of \<open>src/postprocess.cc\<close>: the overlap of two boxes
  (\<open>CalculateOverlap\<close>, in the mixture of \<open>float\<close> and \<open>double\<close> the code computes it in) and
  \<open>nms\<close>, which overwrites the indices of suppressed candidates by -1. With the one class the
  program is built for, what it keeps is proved to be the greedy selection on lists.
\<close>

section \<open>The code\<close>

definition CalculateOverlap :: "fp \<Rightarrow> fp \<Rightarrow> fp \<Rightarrow> fp \<Rightarrow> fp \<Rightarrow> fp \<Rightarrow> fp \<Rightarrow> fp \<Rightarrow> fp" where
  "CalculateOverlap xmin0 ymin0 xmax0 ymax0 xmin1 ymin1 xmax1 ymax1 =
     (let w = fconv F32 (fmax (Fin 0) (fadd F64 (fsub F32 (fmin xmax0 xmax1) (fmax xmin0 xmin1)) (Fin 1)));
          h = fconv F32 (fmax (Fin 0) (fadd F64 (fsub F32 (fmin ymax0 ymax1) (fmax ymin0 ymin1)) (Fin 1)));
          i = fmul F32 w h;
          area0 = fmul F64 (fadd F64 (fsub F32 xmax0 xmin0) (Fin 1)) (fadd F64 (fsub F32 ymax0 ymin0) (Fin 1));
          area1 = fmul F64 (fadd F64 (fsub F32 xmax1 xmin1) (Fin 1)) (fadd F64 (fsub F32 ymax1 ymin1) (Fin 1));
          u = fconv F32 (fsub F64 (fadd F64 area0 area1) i)
      in if fle u (Fin 0) then Fin 0 else fdiv F32 i u)"

text \<open>The overlap of the candidates n and m, whose corners are four consecutive floats each.\<close>

definition overlap_at :: "fp list \<Rightarrow> int \<Rightarrow> int \<Rightarrow> fp" where
  "overlap_at boxes n m = CalculateOverlap
     (boxes ! nat (n * 4 + 0)) (boxes ! nat (n * 4 + 1)) (boxes ! nat (n * 4 + 2)) (boxes ! nat (n * 4 + 3))
     (boxes ! nat (m * 4 + 0)) (boxes ! nat (m * 4 + 1)) (boxes ! nat (m * 4 + 2)) (boxes ! nat (m * 4 + 3))"

text \<open>The body of the inner loop. The class it tests is that of position i of \<open>classIds\<close>, which the
  sort has not permuted, as in the code.\<close>

definition nms_inner ::
  "fp list \<Rightarrow> int list \<Rightarrow> int \<Rightarrow> fp \<Rightarrow> nat \<Rightarrow> int \<Rightarrow> nat \<Rightarrow> int list \<Rightarrow> int list" where
  "nms_inner boxes classIds filterId threshold i n j order =
     (let m = order ! j
      in if m = -1 \<or> classIds ! i \<noteq> filterId then order
         else if flt threshold (overlap_at boxes n m) then order[j := -1] else order)"

definition nms_outer ::
  "nat \<Rightarrow> fp list \<Rightarrow> int list \<Rightarrow> int \<Rightarrow> fp \<Rightarrow> nat \<Rightarrow> int list \<Rightarrow> int list" where
  "nms_outer validCount boxes classIds filterId threshold i order =
     (if order ! i = -1 \<or> classIds ! i \<noteq> filterId then order
      else fold (nms_inner boxes classIds filterId threshold i (order ! i)) [i + 1..<validCount] order)"

definition nms ::
  "nat \<Rightarrow> fp list \<Rightarrow> int list \<Rightarrow> int list \<Rightarrow> int \<Rightarrow> fp \<Rightarrow> int list" where
  "nms validCount boxes classIds order filterId threshold =
     fold (nms_outer validCount boxes classIds filterId threshold) [0..<validCount] order"

section \<open>Greedy selection\<close>

text \<open>The specification: keep the first element, drop what it suppresses, go on.\<close>

fun greedy :: "('a \<Rightarrow> 'a \<Rightarrow> bool) \<Rightarrow> 'a list \<Rightarrow> 'a list" where
  "greedy ov [] = []"
| "greedy ov (x # xs) = x # greedy ov (filter (\<lambda>y. \<not> ov x y) xs)"

lemma greedy_subseq: "subseq (greedy ov xs) xs"
proof (induction ov xs rule: greedy.induct)
  case (2 ov x xs)
  then show ?case by (auto intro: subseq_order.order_trans subseq_filter_left)
qed simp

lemma set_subseq: "subseq xs ys \<Longrightarrow> set xs \<subseteq> set ys"
  by (induction rule: list_emb.induct) auto

text \<open>No kept element is suppressed by one kept before it.\<close>

lemma greedy_separated: "sorted_wrt (\<lambda>x y. \<not> ov x y) (greedy ov xs)"
proof (induction ov xs rule: greedy.induct)
  case (2 ov x xs)
  have "set (greedy ov (filter (\<lambda>y. \<not> ov x y) xs)) \<subseteq> {y. \<not> ov x y}"
    using set_subseq[OF greedy_subseq[of ov "filter (\<lambda>y. \<not> ov x y) xs"]] by auto
  with 2 show ?case by auto
qed simp

text \<open>Every dropped element is suppressed by a kept one that stands before it.\<close>

lemma greedy_covers:
  "xs = us @ x # vs \<Longrightarrow> x \<in> set (greedy ov xs) \<or> (\<exists>y\<in>set us. y \<in> set (greedy ov xs) \<and> ov y x)"
proof (induction ov xs arbitrary: us vs rule: greedy.induct)
  case (2 ov z zs)
  show ?case
  proof (cases us)
    case Nil
    with 2 show ?thesis by simp
  next
    case (Cons u us')
    with "2.prems" have zs: "zs = us' @ x # vs" "u = z" by auto
    show ?thesis
    proof (cases "ov z x")
      case True
      then show ?thesis using Cons zs by auto
    next
      case False
      then have "filter (\<lambda>y. \<not> ov z y) zs = filter (\<lambda>y. \<not> ov z y) us' @ x # filter (\<lambda>y. \<not> ov z y) vs"
        using zs by simp
      from "2.IH"[OF this] show ?thesis using Cons zs by auto
    qed
  qed
qed simp

section \<open>What the loops do to the index list\<close>

lemma fold_nms_inner:
  assumes "classIds ! i = c" "a \<le> v" "v \<le> length order"
  shows "fold (nms_inner boxes classIds c t i n) [a..<v] order =
    take a order @ map (\<lambda>m. if m \<noteq> -1 \<and> flt t (overlap_at boxes n m) then -1 else m)
      (drop a (take v order)) @ drop v order"
  using assms
proof (induction "v - a" arbitrary: a order)
  case 0
  then have "a = v" by simp
  then show ?case by simp
next
  case (Suc k)
  then have av: "a < v" "a < length order" and k: "k = v - Suc a" "Suc a \<le> v" by auto
  let ?f = "\<lambda>m. if m \<noteq> -1 \<and> flt t (overlap_at boxes n m) then -1 else m"
  let ?o = "nms_inner boxes classIds c t i n a order"
  have o: "?o = order[a := ?f (order ! a)]"
    using Suc.prems(1) av list_update_id[of order a]
    by (cases "order ! a = -1") (simp_all add: nms_inner_def Let_def)
  have "fold (nms_inner boxes classIds c t i n) [a..<v] order
      = fold (nms_inner boxes classIds c t i n) [Suc a..<v] ?o"
    using av by (simp add: upt_conv_Cons)
  also have "\<dots> = take (Suc a) ?o @ map ?f (drop (Suc a) (take v ?o)) @ drop v ?o"
    using Suc.hyps(1)[OF k(1) Suc.prems(1) k(2)] Suc.prems(3) unfolding o by simp
  also have "\<dots> = take a order @ map ?f (drop a (take v order)) @ drop v order"
  proof -
    have "take (Suc a) ?o = take a order @ [?f (order ! a)]"
      using av unfolding o by (simp add: take_Suc_conv_app_nth)
    moreover have "drop (Suc a) (take v ?o) = drop (Suc a) (take v order)" "drop v ?o = drop v order"
      using av unfolding o by (simp_all add: take_update_swap)
    moreover have "drop a (take v order) = order ! a # drop (Suc a) (take v order)"
      using av by (subst Cons_nth_drop_Suc[symmetric]) auto
    ultimately show ?thesis by simp
  qed
  finally show ?case .
qed

abbreviation suppresses :: "fp list \<Rightarrow> fp \<Rightarrow> int \<Rightarrow> int \<Rightarrow> bool" where
  "suppresses boxes t n m \<equiv> flt t (overlap_at boxes n m)"

text \<open>The entries that survive among the first v of the index list.\<close>

definition kept :: "nat \<Rightarrow> int list \<Rightarrow> int list" where
  "kept v order = filter (\<lambda>m. m \<noteq> -1) (take v order)"

lemma filter_suppress:
  "filter (\<lambda>m. m \<noteq> -1) (map (\<lambda>m. if m \<noteq> -1 \<and> P m then -1 else m) xs)
     = filter (\<lambda>m. \<not> P m) (filter (\<lambda>m. m \<noteq> (-1::int)) xs)"
  by (induction xs) auto

lemma nms_outer_suffix:
  assumes "i < v" "v \<le> length order" "classIds ! i = c"
  shows "take (Suc i) (nms_outer v boxes classIds c t i order) = take (Suc i) order"
    and "length (nms_outer v boxes classIds c t i order) = length order"
    and "filter (\<lambda>m. m \<noteq> -1) (drop (Suc i) (take v (nms_outer v boxes classIds c t i order))) =
      (let rest = filter (\<lambda>m. m \<noteq> -1) (drop (Suc i) (take v order))
       in if order ! i = -1 then rest else filter (\<lambda>m. \<not> suppresses boxes t (order ! i) m) rest)"
proof -
  show "take (Suc i) (nms_outer v boxes classIds c t i order) = take (Suc i) order"
    and "length (nms_outer v boxes classIds c t i order) = length order"
    using assms by (auto simp: nms_outer_def fold_nms_inner)
  show "filter (\<lambda>m. m \<noteq> -1) (drop (Suc i) (take v (nms_outer v boxes classIds c t i order))) =
      (let rest = filter (\<lambda>m. m \<noteq> -1) (drop (Suc i) (take v order))
       in if order ! i = -1 then rest else filter (\<lambda>m. \<not> suppresses boxes t (order ! i) m) rest)"
  proof (cases "order ! i = -1")
    case True
    then show ?thesis by (simp add: nms_outer_def Let_def)
  next
    case False
    then show ?thesis using assms
      by (simp add: nms_outer_def Let_def fold_nms_inner filter_suppress min_def del: filter_filter)
  qed
qed

lemma nms_from:
  assumes "i \<le> v" "v \<le> length order" "\<forall>k<v. classIds ! k = c"
  shows "take i (fold (nms_outer v boxes classIds c t) [i..<v] order) = take i order
    \<and> length (fold (nms_outer v boxes classIds c t) [i..<v] order) = length order
    \<and> filter (\<lambda>m. m \<noteq> -1) (drop i (take v (fold (nms_outer v boxes classIds c t) [i..<v] order)))
      = greedy (suppresses boxes t) (filter (\<lambda>m. m \<noteq> -1) (drop i (take v order)))"
  using assms(1,2)
proof (induction "v - i" arbitrary: i order)
  case 0
  then show ?case by simp
next
  case (Suc k)
  then have iv: "i < v" "i < length order" and k: "k = v - Suc i" "Suc i \<le> v" by auto
  let ?F = "nms_outer v boxes classIds c t"
  have c: "classIds ! i = c" using assms(3) iv by simp
  note outer = nms_outer_suffix[of i v order classIds c boxes t, OF iv(1) Suc.prems(2) c]
  define o1 where "o1 = ?F i order"
  define r where "r = fold ?F [Suc i..<v] o1"
  have run: "fold ?F [i..<v] order = r"
    using iv by (simp add: upt_conv_Cons r_def o1_def)
  have IH: "take (Suc i) r = take (Suc i) o1" "length r = length o1"
    "filter (\<lambda>m. m \<noteq> -1) (drop (Suc i) (take v r))
      = greedy (suppresses boxes t) (filter (\<lambda>m. m \<noteq> -1) (drop (Suc i) (take v o1)))"
    using Suc.hyps(1)[OF k(1,2), of o1] Suc.prems(2) outer(2) by (simp_all add: r_def o1_def)
  have pre: "take (Suc i) r = take (Suc i) order" and len: "length r = length order"
    using IH outer by (simp_all add: o1_def)
  have "r ! i = order ! i" using pre by (metis nth_take lessI)
  have heads: "drop i (take v r) = order ! i # drop (Suc i) (take v r)"
    "drop i (take v order) = order ! i # drop (Suc i) (take v order)"
    using iv len \<open>r ! i = order ! i\<close> by (subst Cons_nth_drop_Suc[symmetric]; simp)+
  have "take i r = take i order" using pre by (metis take_take min.absorb1 le_SucI order_refl)
  moreover have "filter (\<lambda>m. m \<noteq> -1) (drop i (take v r))
      = greedy (suppresses boxes t) (filter (\<lambda>m. m \<noteq> -1) (drop i (take v order)))"
    using IH(3) outer(3) by (simp add: heads o1_def Let_def)
  ultimately show ?case using len by (simp add: run)
qed

lemma nms_kept:
  assumes "v \<le> length order" "\<forall>k<v. classIds ! k = c"
  shows "kept v (nms v boxes classIds order c t) = greedy (suppresses boxes t) (kept v order)"
    and "length (nms v boxes classIds order c t) = length order"
  using nms_from[of 0 v order classIds c boxes t] assms by (simp_all add: nms_def kept_def)

section \<open>Properties\<close>

text \<open>With one class, \<open>nms\<close> is greedy selection in the order of the index list: the indices it
  leaves are the ones the list algorithm keeps.\<close>

theorem nms_is_greedy:
  assumes "v \<le> length order" "\<forall>k<v. classIds ! k = c"
  shows "kept v (nms v boxes classIds order c t)
    = greedy (\<lambda>n m. flt t (overlap_at boxes n m)) (kept v order)"
  by (rule nms_kept(1)[OF assms])

text \<open>Non-maximum suppression keeps what it should: candidates that are kept do not overlap more
  than the threshold, and a candidate that is dropped overlaps, by more than the threshold, one
  that is kept and stands before it in the order of the scores.\<close>

theorem nms_keeps_maxima:
  assumes "v \<le> length order" "\<forall>k<v. classIds ! k = c" "-1 \<notin> set order"
  shows "let res = kept v (nms v boxes classIds order c t)
    in subseq res (take v order)
    \<and> sorted_wrt (\<lambda>n m. \<not> flt t (overlap_at boxes n m)) res
    \<and> (\<forall>j<v. order ! j \<in> set res
        \<or> (\<exists>i<j. order ! i \<in> set res \<and> flt t (overlap_at boxes (order ! i) (order ! j))))"
proof -
  define res where "res = kept v (nms v boxes classIds order c t)"
  have "kept v order = take v order"
    using assms(3) by (auto simp: kept_def filter_id_conv dest: in_set_takeD)
  then have res: "res = greedy (suppresses boxes t) (take v order)"
    using nms_kept(1)[OF assms(1,2)] by (simp add: res_def)
  have "order ! j \<in> set res
        \<or> (\<exists>i<j. order ! i \<in> set res \<and> suppresses boxes t (order ! i) (order ! j))" if j: "j < v" for j
  proof -
    have "take v order = take j (take v order) @ take v order ! j # drop (Suc j) (take v order)"
      using j assms(1) by (intro id_take_nth_drop) simp
    then have "take v order = take j order @ order ! j # drop (Suc j) (take v order)"
      using j by (simp add: min_def)
    from greedy_covers[OF this, of "suppresses boxes t"]
    have "order ! j \<in> set res \<or> (\<exists>y\<in>set (take j order). y \<in> set res \<and> suppresses boxes t y (order ! j))"
      by (simp only: res)
    then show ?thesis using j assms(1) by (auto simp: in_set_conv_nth[of _ "take j order"])
  qed
  then show ?thesis
    using greedy_subseq greedy_separated by (auto simp: res res_def[symmetric] Let_def)
qed

text \<open>Three candidates: the second overlaps the first by 10/12, the third is far away.\<close>

definition sample_boxes :: "fp list" where
  "sample_boxes = map Fin [0, 0, 10, 10,  1, 0, 11, 10,  100, 100, 110, 110]"

lemma sample_overlaps:
  "flt (Fin (1/2)) (overlap_at sample_boxes 1 0)" "\<not> flt (Fin (1/2)) (overlap_at sample_boxes 1 2)"
  "\<not> flt (Fin (1/2)) (overlap_at sample_boxes 0 2)"
proof -
  have "overlap_at sample_boxes 1 0 = fdiv F32 (Fin 110) (Fin 132)"
    by (simp add: overlap_at_def sample_boxes_def CalculateOverlap_def fp_eval del: fdiv.simps)
  moreover have "flt (Fin (1/2)) (fdiv F32 (Fin 110) (Fin 132))" by code_simp
  ultimately show "flt (Fin (1/2)) (overlap_at sample_boxes 1 0)" by simp
  have "overlap_at sample_boxes 1 2 = Fin 0" "overlap_at sample_boxes 0 2 = Fin 0"
    by (simp_all add: overlap_at_def sample_boxes_def CalculateOverlap_def fp_eval)
  then show "\<not> flt (Fin (1/2)) (overlap_at sample_boxes 1 2)"
    "\<not> flt (Fin (1/2)) (overlap_at sample_boxes 0 2)" by simp_all
qed

theorem nms_is_greedy_witness:
  "kept 3 (nms 3 sample_boxes [0, 0, 0] [1, 0, 2] 0 (Fin (1/2))) = [1, 2]"
proof -
  have "kept 3 (nms 3 sample_boxes [0, 0, 0] [1, 0, 2] 0 (Fin (1/2)))
    = greedy (\<lambda>n m. flt (Fin (1/2)) (overlap_at sample_boxes n m)) (kept 3 [1, 0, 2])"
    by (rule nms_is_greedy) (auto simp: less_Suc_eq numeral_3_eq_3)
  also have "\<dots> = [1, 2]" by (simp add: kept_def sample_overlaps)
  finally show ?thesis .
qed

theorem nms_keeps_maxima_witness:
  "sorted_wrt (\<lambda>n m. \<not> flt (Fin (1/2)) (overlap_at sample_boxes n m))
     (kept 3 (nms 3 sample_boxes [0, 0, 0] [1, 0, 2] 0 (Fin (1/2))))
   \<and> -1 \<notin> set [1, 0, 2 :: int]"
  using nms_keeps_maxima[of 3 "[1, 0, 2]" "[0, 0, 0]" 0 sample_boxes "Fin (1/2)"]
  by (auto simp: less_Suc_eq numeral_3_eq_3 Let_def)

text \<open>The class test of \<open>nms\<close> indexes the unsorted class list by a position of the sorted index
  list. With more than one class it so suppresses across classes: here the candidate of class 0
  is removed by an overlapping candidate of class 1 while class 0 is being filtered. With the
  single class the program is built for the test is always true and the slip has no effect.\<close>

theorem nms_class_test_misindexed:
  "let classIds = [0, 1]; order = [1, 0]
   in classIds ! nat (order ! 0) \<noteq> classIds ! nat (order ! 1)
    \<and> nms 2 sample_boxes classIds order 0 (Fin (1/2)) = [1, -1]"
  by (simp add: nms_def nms_outer_def nms_inner_def upt_rec sample_overlaps Let_def)

end
