(* ===== verification/Postprocess.thy ===== *)
theory Postprocess
  imports Nms Data_Plane Float_Bounds
begin

text \<open>
  \<open>src/postprocess.cc\<close>: from the three quantised output tensors of the model to the detections
  of a frame. The label file, the dequantisation and threshold arithmetic, the DFL decoding of
  the box sides, the candidate scan of one output head, and \<open>post_process\<close>, which sorts, caps,
  suppresses and collects. Undefined behaviour (a NaN converted to an integer, a null label, a
  sort that does not return) is \<open>None\<close>. \<open>expf\<close> and \<open>logf\<close> of libm, whose results the language
  does not fix, are arguments.
\<close>

section \<open>Labels\<close>

text \<open>The file as the characters still to be read; \<open>None\<close> is the null pointer. The allocations are
  assumed to succeed.\<close>

definition readLine :: "string \<Rightarrow> string option \<times> string" where
  "readLine inp =
     (let line = takeWhile (\<lambda>c. c \<noteq> CHR 0x0A) inp;
          rest = dropWhile (\<lambda>c. c \<noteq> CHR 0x0A) inp
      in if rest = [] \<and> line = [] then (None, [])
         else (Some line, tl rest))"

lemma readLine_shorter:
  assumes "readLine inp = (Some line, rest)"
  shows "length rest < length inp"
proof -
  let ?d = "dropWhile (\<lambda>c. c \<noteq> CHR 0x0A) inp"
  from assms have rest: "rest = tl ?d" and ne: "?d \<noteq> [] \<or> inp \<noteq> []"
    by (auto simp: readLine_def Let_def split: if_splits)
  have "length ?d \<le> length inp" by (rule length_dropWhile_le)
  then show ?thesis using rest ne by (cases ?d) auto
qed

function readLines_loop :: "nat \<Rightarrow> nat \<Rightarrow> string option list \<Rightarrow> string \<Rightarrow> nat \<times> string option list" where
  "readLines_loop i max_line lines inp =
     (case readLine inp of
        (None, rest) \<Rightarrow> (i, lines)
      | (Some s, rest) \<Rightarrow>
          (let lines = lines[i := Some s]; i = i + 1
           in if max_line \<le> i then (i, lines) else readLines_loop i max_line lines rest))"
  by pat_completeness auto
termination
  by (relation "measure (\<lambda>(i, m, lines, inp). length inp)") (auto dest: readLine_shorter[OF sym])

declare readLines_loop.simps [simp del]

definition readLines :: "string option \<Rightarrow> string option list \<Rightarrow> nat \<Rightarrow> int \<times> string option list" where
  "readLines inp lines max_line =
     (case inp of
        None \<Rightarrow> (-1, lines)
      | Some text \<Rightarrow> (case readLines_loop 0 max_line lines text of (i, lines) \<Rightarrow> (int i, lines)))"

text \<open>The result of \<open>readLines\<close> is not looked at.\<close>

definition loadLabelName :: "string option \<Rightarrow> string option list \<Rightarrow> int \<times> string option list" where
  "loadLabelName inp label = (case readLines inp label OBJ_CLASS_NUM of (_, label) \<Rightarrow> (0, label))"

section \<open>Arithmetic\<close>

text \<open>\<open>clamp\<close> compares in \<open>float\<close> and returns \<open>int\<close>.\<close>

definition clamp :: "fp \<Rightarrow> int \<Rightarrow> int \<Rightarrow> int option" where
  "clamp val mn mx =
     fto_int (if flt (fof_int F32 mn) val
              then (if flt val (fof_int F32 mx) then val else fof_int F32 mx)
              else fof_int F32 mn)"

definition sigmoid :: "(fp \<Rightarrow> fp) \<Rightarrow> fp \<Rightarrow> fp" where
  "sigmoid expf x = fconv F32 (fdiv F64 (Fin 1) (fadd F64 (Fin 1) (expf (fneg x))))"

definition unsigmoid :: "(fp \<Rightarrow> fp) \<Rightarrow> fp \<Rightarrow> fp" where
  "unsigmoid logf y =
     fconv F32 (fmul F64 (Fin (-1)) (logf (fconv F32 (fsub F64 (fdiv F64 (Fin 1) y) (Fin 1)))))"

text \<open>Schraudolph's exponential: the bits of the result are a linear function of the argument. The
  conversion and the addition are in \<open>int32_t\<close>.\<close>

definition fast_expf :: "fp \<Rightarrow> fp option" where
  "fast_expf x =
     (case fto_int (fmul F32 (Fin 12102203) x) of
        None \<Rightarrow> None
      | Some n \<Rightarrow>
          (let u = n + 1065353216
           in if 2 ^ 31 \<le> u then None
              else if 0 < u then Some (f32_of_bits (word_of_int u)) else Some (Fin 0)))"

definition clip32 :: "fp \<Rightarrow> fp \<Rightarrow> fp \<Rightarrow> int option" where
  "clip32 val mn mx =
     (let f = if fle val mn then mn else if fle mx val then mx else val in fto_int f)"

definition qnt_f32_to_affine :: "fp \<Rightarrow> int \<Rightarrow> fp \<Rightarrow> i8 option" where
  "qnt_f32_to_affine f32 zp scale =
     (let dst_val = fadd F32 (fdiv F32 f32 scale) (fof_int F32 zp)
      in map_option word_of_int (clip32 dst_val (Fin (-128)) (Fin 127)))"

definition deqnt_affine_to_f32 :: "i8 \<Rightarrow> int \<Rightarrow> fp \<Rightarrow> fp" where
  "deqnt_affine_to_f32 qnt zp scale =
     fmul F32 (fsub F32 (fof_int F32 (sint qnt)) (fof_int F32 zp)) scale"

section \<open>DFL decoding\<close>

definition decode_max :: "i8 list \<Rightarrow> i8" where
  "decode_max x = fold (\<lambda>i m. if sint m < sint (x ! i) then x ! i else m) [1..<64] (x ! 0)"

text \<open>One of the four sides: the weighted mean of 0 to 15 with the exponentials as weights.\<close>

definition decode_side :: "i8 list \<Rightarrow> i8 \<Rightarrow> fp \<Rightarrow> nat \<Rightarrow> fp option" where
  "decode_side x x_max scale s =
     map_option (\<lambda>(sum, output). fdiv F32 output sum)
       (foldo (\<lambda>k (sum, output).
          map_option (\<lambda>e. (fadd F32 sum e, fadd F32 output (fmul F32 (fof_int F32 (int k)) e)))
            (fast_expf (fmul F32 (fof_int F32 (sint (x ! (s * 16 + k)) - sint x_max)) scale)))
        [0..<16] (Fin 0, Fin 0))"

definition decode_box4 :: "i8 list \<Rightarrow> fp \<Rightarrow> fp list option" where
  "decode_box4 x scale =
     (let x_max = decode_max x
      in foldo (\<lambda>s out4. map_option (\<lambda>v. out4[s := v]) (decode_side x x_max scale s))
           [0..<4] (replicate 4 (Fin 0)))"

section \<open>The candidates of one output head\<close>

record candidates =
  cd_boxes :: "fp list"    \<comment> \<open>x1, y1, x2, y2 of each candidate\<close>
  cd_objProbs :: "fp list"
  cd_classId :: "int list"

definition no_candidates :: candidates where
  "no_candidates = \<lparr>cd_boxes = [], cd_objProbs = [], cd_classId = []\<rparr>"

definition cell_size :: nat where
  "cell_size = OBJ_CLASS_NUM + 4 * 16"

text \<open>The class scan of a cell: the largest score above the threshold and above 0.\<close>

definition best_class :: "i8 list \<Rightarrow> i8 \<Rightarrow> nat \<Rightarrow> i8 \<times> int" where
  "best_class input thres_i8 cell =
     fold (\<lambda>k (maxClassProbs, maxClassId).
        let prob = input ! (cell * cell_size + k)
        in if sint thres_i8 \<le> sint prob \<and> sint maxClassProbs < sint prob then (prob, int k)
           else (maxClassProbs, maxClassId))
      [0..<OBJ_CLASS_NUM] (0, -1)"

definition sigmoid_lut :: "(fp \<Rightarrow> fp) \<Rightarrow> int \<Rightarrow> fp \<Rightarrow> fp list" where
  "sigmoid_lut expf zp scale =
     map (\<lambda>q. sigmoid expf (deqnt_affine_to_f32 (word_of_int q) zp scale)) [-128..127]"

definition cell_box :: "nat \<Rightarrow> nat \<Rightarrow> fp list \<Rightarrow> int \<Rightarrow> fp list" where
  "cell_box i j dfl stride =
     (let px = fadd F32 (fof_int F32 (int j)) (Fin (1/2));
          py = fadd F32 (fof_int F32 (int i)) (Fin (1/2));
          st = fof_int F32 stride
      in [fmul F32 (fsub F32 px (dfl ! 0)) st, fmul F32 (fsub F32 py (dfl ! 1)) st,
          fmul F32 (fadd F32 px (dfl ! 2)) st, fmul F32 (fadd F32 py (dfl ! 3)) st])"

definition process_cell ::
  "i8 list \<Rightarrow> nat \<Rightarrow> int \<Rightarrow> i8 \<Rightarrow> fp list \<Rightarrow> fp \<Rightarrow> nat \<Rightarrow> nat \<Rightarrow> candidates \<times> int
    \<Rightarrow> (candidates \<times> int) option" where
  "process_cell input grid_w stride thres_i8 lut scale i j cv =
     (case cv of (c, validCount) \<Rightarrow>
      case best_class input thres_i8 (i * grid_w + j) of (maxClassProbs, maxClassId) \<Rightarrow>
        if 0 \<le> maxClassId then
          (let offset = (i * grid_w + j) * cell_size + OBJ_CLASS_NUM
           in map_option (\<lambda>dfl.
                (c\<lparr>cd_boxes := cd_boxes c @ cell_box i j dfl stride,
                   cd_objProbs := cd_objProbs c @ [lut ! nat (sint maxClassProbs + 128)],
                   cd_classId := cd_classId c @ [maxClassId]\<rparr>, validCount + 1))
              (decode_box4 (drop offset input) scale))
        else Some (c, validCount))"

definition process ::
  "(fp \<Rightarrow> fp) \<Rightarrow> (fp \<Rightarrow> fp) \<Rightarrow> i8 list \<Rightarrow> nat \<Rightarrow> nat \<Rightarrow> int \<Rightarrow> candidates \<Rightarrow> fp \<Rightarrow> int \<Rightarrow> fp
    \<Rightarrow> (candidates \<times> int) option" where
  "process expf logf input grid_h grid_w stride c threshold zp scale =
     (case qnt_f32_to_affine (unsigmoid logf threshold) zp scale of
        None \<Rightarrow> None
      | Some thres_i8 \<Rightarrow>
          (let lut = sigmoid_lut expf zp scale
           in foldo (\<lambda>i. foldo (\<lambda>j. process_cell input grid_w stride thres_i8 lut scale i j) [0..<grid_w])
                [0..<grid_h] (c, 0)))"

section \<open>post_process\<close>

text \<open>The statics of the file: whether the labels were loaded, and the labels.\<close>

record pp_state =
  pp_init :: int
  pp_labels :: "string option list"

definition pp_start :: pp_state where
  "pp_start = \<lparr>pp_init = -1, pp_labels = replicate OBJ_CLASS_NUM None\<rparr>"

definition pp_load :: "string option \<Rightarrow> pp_state \<Rightarrow> int \<times> pp_state" where
  "pp_load label_file st =
     (if pp_init st = -1 then
        (case loadLabelName label_file (pp_labels st) of
           (ret, labels) \<Rightarrow>
             if ret < 0 then (-1, st\<lparr>pp_labels := labels\<rparr>)
             else (0, st\<lparr>pp_init := 0, pp_labels := labels\<rparr>))
      else (0, st))"

definition TOP_K :: nat where
  "TOP_K = 200"

text \<open>The three heads, one after the other into the same vectors.\<close>

definition all_candidates ::
  "(fp \<Rightarrow> fp) \<Rightarrow> (fp \<Rightarrow> fp) \<Rightarrow> i8 list list \<Rightarrow> nat \<Rightarrow> nat \<Rightarrow> fp \<Rightarrow> int list \<Rightarrow> fp list
    \<Rightarrow> (candidates \<times> int) option" where
  "all_candidates expf logf inputs model_in_h model_in_w conf_threshold qnt_zps qnt_scales =
     Option.bind (process expf logf (inputs ! 0) (model_in_h div 8) (model_in_w div 8) 8
         no_candidates conf_threshold (qnt_zps ! 0) (qnt_scales ! 0))
       (\<lambda>(c0, validCount0).
     Option.bind (process expf logf (inputs ! 1) (model_in_h div 16) (model_in_w div 16) 16
         c0 conf_threshold (qnt_zps ! 1) (qnt_scales ! 1))
       (\<lambda>(c1, validCount1).
     Option.bind (process expf logf (inputs ! 2) (model_in_h div 32) (model_in_w div 32) 32
         c1 conf_threshold (qnt_zps ! 2) (qnt_scales ! 2))
       (\<lambda>(c2, validCount2). Some (c2, validCount0 + validCount1 + validCount2))))"

text \<open>The corner of a box in image coordinates: \<open>(int) (clamp (x, 0, limit) / scale)\<close>.\<close>

definition to_image :: "fp \<Rightarrow> nat \<Rightarrow> fp \<Rightarrow> int option" where
  "to_image x limit scale =
     Option.bind (clamp x 0 (int limit)) (\<lambda>v. fto_int (fdiv F32 (fof_int F32 v) scale))"

definition collect_one ::
  "string option list \<Rightarrow> nat \<Rightarrow> nat \<Rightarrow> fp \<Rightarrow> fp \<Rightarrow> candidates \<Rightarrow> fp list \<Rightarrow> int list \<Rightarrow> nat
    \<Rightarrow> detect_result list \<times> nat \<Rightarrow> (detect_result list \<times> nat) option" where
  "collect_one labels model_in_h model_in_w scale_w scale_h c objProbs indexArray i rl =
     (case rl of (results, last_count) \<Rightarrow>
      if indexArray ! i = -1 \<or> OBJ_NUMB_MAX_SIZE \<le> last_count then Some (results, last_count)
      else
        (let n = indexArray ! i
         in Option.bind (to_image (cd_boxes c ! nat (n * 4 + 0)) model_in_w scale_w) (\<lambda>left.
            Option.bind (to_image (cd_boxes c ! nat (n * 4 + 1)) model_in_h scale_h) (\<lambda>top.
            Option.bind (to_image (cd_boxes c ! nat (n * 4 + 2)) model_in_w scale_w) (\<lambda>right.
            Option.bind (to_image (cd_boxes c ! nat (n * 4 + 3)) model_in_h scale_h) (\<lambda>bottom.
            Option.bind (labels ! nat (cd_classId c ! nat n)) (\<lambda>label.
              Some (results[last_count :=
                \<lparr>dr_name = strncpy label OBJ_NAME_MAX_SIZE, dr_left = word_of_int left,
                  dr_right = word_of_int right, dr_top = word_of_int top,
                  dr_bottom = word_of_int bottom, dr_prop = objProbs ! i\<rparr>], last_count + 1))))))))"

definition select_and_collect ::
  "string option list \<Rightarrow> nat \<Rightarrow> nat \<Rightarrow> fp \<Rightarrow> fp \<Rightarrow> fp \<Rightarrow> candidates \<Rightarrow> nat
    \<Rightarrow> (detect_result list \<times> nat) option" where
  "select_and_collect labels model_in_h model_in_w nms_threshold scale_w scale_h c validCount =
     Option.bind (quick_sort 0 (int validCount - 1) (cd_objProbs c) (map int [0..<validCount]))
       (\<lambda>(objProbs, indexArray).
         let validCount = (if TOP_K < validCount then TOP_K else validCount);
             indexArray = fold (\<lambda>k order. nms validCount (cd_boxes c) (cd_classId c) order (int k) nms_threshold)
               [0..<OBJ_CLASS_NUM] indexArray
         in foldo (collect_one labels model_in_h model_in_w scale_w scale_h c objProbs indexArray)
              [0..<validCount] (replicate OBJ_NUMB_MAX_SIZE zero_result, 0))"

definition post_process ::
  "(fp \<Rightarrow> fp) \<Rightarrow> (fp \<Rightarrow> fp) \<Rightarrow> string option \<Rightarrow> i8 list list \<Rightarrow> nat \<Rightarrow> nat \<Rightarrow> fp \<Rightarrow> fp \<Rightarrow> fp \<Rightarrow> fp
    \<Rightarrow> int list \<Rightarrow> fp list \<Rightarrow> detect_result_group \<Rightarrow> pp_state
    \<Rightarrow> (int \<times> detect_result_group \<times> pp_state) option" where
  "post_process expf logf label_file inputs model_in_h model_in_w conf_threshold nms_threshold
      scale_w scale_h qnt_zps qnt_scales grp st =
     (case pp_load label_file st of (ret, st) \<Rightarrow>
      if ret < 0 then Some (-1, grp, st)
      else
        Option.bind (all_candidates expf logf inputs model_in_h model_in_w conf_threshold qnt_zps qnt_scales)
          (\<lambda>(c, validCount).
            if validCount \<le> 0 then Some (0, zero_group, st)
            else
              map_option (\<lambda>(results, last_count).
                  (0, zero_group\<lparr>dg_count := int last_count, dg_results := results\<rparr>, st))
                (select_and_collect (pp_labels st) model_in_h model_in_w nms_threshold scale_w scale_h
                  c (nat validCount))))"

text \<open>The labels are freed; the flag that they are loaded stays set.\<close>

definition deinitPostProcess :: "pp_state \<Rightarrow> pp_state" where
  "deinitPostProcess st = st\<lparr>pp_labels := replicate OBJ_CLASS_NUM None\<rparr>"

section \<open>DFL decoding stays in range\<close>

text \<open>The dequantisation scales the decoding is sound for: 255 steps of 1/4 keep the exponentials
  of a side from all being 0.\<close>

definition ok_scale :: "fp \<Rightarrow> bool" where
  "ok_scale s \<longleftrightarrow> (case s of Fin v \<Rightarrow> 0 < v \<and> v \<le> 1 / 4 \<and> frep F32 v | _ \<Rightarrow> False)"

lemma f32_of_bits_unit:
  assumes "290812224 \<le> u" "u \<le> 1065353216"
  shows "fin_in (2 powi (-100)) 1 (f32_of_bits (word_of_int u))"
proof -
  define n where "n = nat u"
  define ex fr where "ex = n div 2 ^ 23" and "fr = n mod 2 ^ 23"
  have n: "290812224 \<le> n" "n \<le> 1065353216" using assms by (auto simp: n_def)
  have un: "unat (word_of_int u :: u32) = n"
    using assms by (simp add: unat_eq_nat_uint uint_word_of_int n_def)
  have ex: "34 \<le> ex" "ex \<le> 127" using n by (auto simp: ex_def)
  have fr: "fr < 2 ^ 23" by (simp add: fr_def)
  have "n = ex * 2 ^ 23 + fr" by (simp add: ex_def fr_def)
  then have ex127: "ex = 127 \<Longrightarrow> fr = 0" using n by simp
  have bits: "f32_of_bits (word_of_int u) = Fin (of_nat (2 ^ 23 + fr) * 2 powi (int ex - 150))"
    using ex n fr by (simp add: f32_of_bits_def un f32_of_nat_def f32_fields_def Let_def ex_def fr_def)
  have "(2::rat) powi (-100) \<le> 2 powi (-93)" by (simp only: powi_le_iff)
  also have "\<dots> = of_nat (2 ^ 23) * (2::rat) powi (-116)" by simp
  also have "\<dots> \<le> of_nat (2 ^ 23 + fr) * 2 powi (int ex - 150)"
    using ex by (intro mult_mono) (auto simp only: of_nat_le_iff powi_le_iff powi_pos less_imp_le)
  finally have lo: "(2::rat) powi (-100) \<le> of_nat (2 ^ 23 + fr) * 2 powi (int ex - 150)" .
  have hi: "of_nat (2 ^ 23 + fr) * (2::rat) powi (int ex - 150) \<le> 1"
  proof (cases "ex = 127")
    case True
    then show ?thesis using ex127 by simp
  next
    case False
    have "2 ^ 23 + fr \<le> 2 ^ 24" using fr by simp
    then have "of_nat (2 ^ 23 + fr) * (2::rat) powi (int ex - 150) \<le> of_nat (2 ^ 24) * 2 powi (-24)"
      using ex False by (intro mult_mono) (auto simp only: of_nat_le_iff powi_le_iff powi_pos less_imp_le)
    then show ?thesis by simp
  qed
  show ?thesis using lo hi by (simp add: bits fin_in_def)
qed

lemma bound_pow: "-100 \<le> k \<Longrightarrow> k \<le> 100 \<Longrightarrow> bound p (2 powi k)"
proof -
  assume k: "-100 \<le> k" "k \<le> 100"
  have "frep p (of_int 1 * 2 powi k)" using k by (intro frepI) (cases p; simp)+
  moreover have "(2::rat) powi k \<le> 2 powi 100" using k by (simp only: powi_le_iff)
  ultimately show ?thesis by (simp add: bound_def)
qed

lemma fast_expf_unit:
  assumes "-255 \<le> d" "d \<le> 0" "ok_scale scale"
  shows "\<exists>e. fast_expf (fmul F32 (fof_int F32 d) scale) = Some e
    \<and> fin_in (2 powi (-100)) 1 e \<and> in_fmt F32 e"
proof -
  obtain v where v: "scale = Fin v" "0 < v" "v \<le> 1 / 4"
    using assms(3) by (auto simp: ok_scale_def split: fp.splits)
  have "fin_in (-256) 0 (fof_int F32 d)" using assms by (intro fin_in_fof_int) auto
  moreover have "fin_in 0 (1/4) scale" using v by (simp add: fin_in_def)
  ultimately have "fin_in (-256 * (1/4)) (0 * (1/4)) (fmul F32 (fof_int F32 d) scale)"
    by (intro fin_in_fmul) auto
  then have x: "fin_in (-64) 0 (fmul F32 (fof_int F32 d) scale)" by simp
  let ?x = "fmul F32 (fof_int F32 d) scale"
  have fr: "frep F32 (-774540992)"
    using frepI[of "-12102203" F32 6] by simp
  have p: "fval ?x * 12102203 \<ge> -774540992" "fval ?x * 12102203 \<le> 0" using fin_inD[OF x] by auto
  have "fin_in (-774540992) 0 (fmul F32 (Fin 12102203) ?x)"
    using fround_bounds(1)[of "-774540992" "12102203 * fval ?x" 0 F32] p fr fin_inD(1)[OF x]
    by (simp add: fmul_fin bound_def mult.commute)
  then have y: "fin_in (of_int (-774540992)) (of_int 0) (fmul F32 (Fin 12102203) ?x)" by simp
  note t = fto_int_fin[OF y, simplified]
  define u where "u = rtrunc (fval (fmul F32 (Fin 12102203) ?x)) + 1065353216"
  have u: "290812224 \<le> u" "u \<le> 1065353216" using t by (auto simp: u_def)
  have "fast_expf ?x = Some (f32_of_bits (word_of_int u))"
    using t u by (simp add: fast_expf_def Let_def u_def)
  then show ?thesis using f32_of_bits_unit[OF u] by auto
qed

text \<open>The loop of one side: the weighted sum is at most 16 times the sum of the weights, in every
  rounding step, since multiplication by 16 is exact.\<close>

definition side_inv :: "nat \<Rightarrow> fp \<times> fp \<Rightarrow> bool" where
  "side_inv k so = (case so of (s, out) \<Rightarrow> fin_in 0 (of_nat k) s \<and> fin_in 0 256 out
     \<and> fval out \<le> 16 * fval s \<and> (0 < k \<longrightarrow> 2 powi (-100) \<le> fval s))"

lemma side_step:
  assumes inv: "side_inv k (s, out)" and k: "k < 16"
    and e: "fin_in (2 powi (-100)) 1 e" "in_fmt F32 e"
  shows "side_inv (Suc k) (fadd F32 s e, fadd F32 out (fmul F32 (fof_int F32 (int k)) e))"
proof -
  have s: "fin_in 0 (of_nat k) s" and out: "fin_in 0 256 out" "fval out \<le> 16 * fval s"
    using inv by (auto simp: side_inv_def)
  note e' = fin_inD[OF e(1)] and s' = fin_inD[OF s] and o' = fin_inD[OF out(1)]
  have e0: "0 < fval e" using e'(2) powi_pos[of "-100"] by linarith
  have ef: "frep F32 (fval e)" using e(2) e'(1) by (cases e) auto
  have kk: "(of_nat k :: rat) + 1 = of_int (int k + 1)" by simp
  have b1: "bound F32 (of_nat k + 1)" unfolding kk using k by (intro bound_int) auto
  have s1: "fin_in (2 powi (-100)) (of_nat k + 1) (fadd F32 s e)"
    using fin_in_fadd[OF s e(1), of F32] b1 bound_pow[of "-100"] by simp
  have s1v: "fval (fadd F32 s e) = rnd F32 (fval s + fval e)"
    using fround_bounds(2)[of 0 "fval s + fval e" "of_nat k + 1" F32] s' e' e0 b1
    by (simp add: fadd_fin)
  have scale: "rnd F32 (v * 16) = rnd F32 v * 16" if "2 powi (-100) \<le> v" for v
  proof -
    have "(2::rat) powi (-126) \<le> 2 powi (-100)" by (simp only: powi_le_iff)
    then have "rnd F32 (v * 2 powi 4) = rnd F32 v * 2 powi 4" using that by (intro rnd_scale) auto
    then show ?thesis by simp
  qed
  define q where "q = fmul F32 (fof_int F32 (int k)) e"
  have fk: "fof_int F32 (int k) = Fin (of_nat k)" using fof_int_exact[of "int k" F32] k by simp
  have ke: "0 \<le> of_nat k * fval e" "of_nat k * fval e \<le> fval e * 16" "of_nat k * fval e \<le> 16"
    using k e0 e'(3) by (auto intro: mult_mono) (use mult_mono[of "of_nat k" 16 "fval e" 1] in auto)
  note qb = fround_bounds[OF ke(1) ke(3), of F32]
  have q: "is_fin q" "fval q = rnd F32 (of_nat k * fval e)"
    using qb e'(1) by (auto simp: q_def fk fmul_fin)
  have q2: "0 \<le> fval q" "fval q \<le> fval e * 16"
    using rnd_nonneg[OF ke(1), of F32] rnd_mono[OF ke(2), of F32] scale[OF e'(2)] rnd_frep[OF ef]
    by (simp_all only: q(2))
  have sum: "0 \<le> fval out + fval q" "fval out + fval q \<le> (fval s + fval e) * 16"
    using o'(2) q2 out(2) by (simp_all add: algebra_simps)
  have "(fval s + fval e) * 16 \<le> 256"
  proof -
    have "(of_nat k :: rat) \<le> 15" using k by simp
    with s'(3) have "fval s \<le> 15" by (rule order_trans)
    then show ?thesis using e'(3) by simp
  qed
  then have sum2: "fval out + fval q \<le> 256" using sum by linarith
  note ob = fround_bounds[OF sum(1) sum2, of F32]
  have o1: "fin_in 0 256 (fadd F32 out q)" "fval (fadd F32 out q) = rnd F32 (fval out + fval q)"
    using ob o'(1) q(1) by (auto simp: fadd_fin)
  have "rnd F32 (fval out + fval q) \<le> rnd F32 ((fval s + fval e) * 16)"
    by (rule rnd_mono[OF sum(2)])
  also have "\<dots> = rnd F32 (fval s + fval e) * 16"
    using s'(2) e'(2) by (intro scale) linarith
  finally have "fval (fadd F32 out q) \<le> 16 * fval (fadd F32 s e)"
    by (simp add: o1(2) s1v)
  then show ?thesis
    using s1 o1(1) fin_inD[OF s1] by (simp add: side_inv_def q_def fin_in_def add.commute)
qed

lemma decode_side_range:
  assumes "\<And>k. k < 16 \<Longrightarrow> sint (x ! (s * 16 + k)) \<le> sint m" "ok_scale scale"
  shows "\<exists>v. decode_side x m scale s = Some v \<and> fin_in 0 16 v"
proof -
  let ?f = "\<lambda>k (sum, output).
      map_option (\<lambda>e. (fadd F32 sum e, fadd F32 output (fmul F32 (fof_int F32 (int k)) e)))
        (fast_expf (fmul F32 (fof_int F32 (sint (x ! (s * 16 + k)) - sint m)) scale))"
  have "\<exists>s'. foldo ?f [0..<16] (Fin 0, Fin 0) = Some s' \<and> side_inv 16 s'"
  proof (rule foldo_upt[where P = side_inv])
    show "side_inv 0 (Fin 0, Fin 0)" by (simp add: side_inv_def fin_in_def)
  next
    fix k st assume k: "k < 16" and inv: "side_inv k st"
    have r: "-128 \<le> sint (x ! (s * 16 + k))" "sint m \<le> 127"
      using sint_i8[of "x ! (s * 16 + k)"] sint_i8[of m] by auto
    have "-255 \<le> sint (x ! (s * 16 + k)) - sint m" using r by linarith
    moreover have "sint (x ! (s * 16 + k)) - sint m \<le> 0" using assms(1)[OF k] by simp
    ultimately obtain e where e: "fast_expf (fmul F32 (fof_int F32 (sint (x ! (s * 16 + k)) - sint m)) scale) = Some e"
      "fin_in (2 powi (-100)) 1 e" "in_fmt F32 e"
      using fast_expf_unit[OF _ _ assms(2)] by blast
    obtain sm out where st: "st = (sm, out)" by (cases st)
    show "\<exists>s'. ?f k st = Some s' \<and> side_inv (Suc k) s'"
      using side_step[OF inv[unfolded st] k e(2,3)] e(1) by (simp add: st)
  qed simp
  then obtain sm out where f: "foldo ?f [0..<16] (Fin 0, Fin 0) = Some (sm, out)" and inv: "side_inv 16 (sm, out)"
    by auto
  then have s: "is_fin sm" "0 < fval sm" and o: "is_fin out" "0 \<le> fval out" "fval out \<le> 16 * fval sm"
    using less_le_trans[OF powi_pos[of "-100"], of "fval sm"] by (simp_all add: side_inv_def fin_in_def)
  have "0 \<le> fval out / fval sm" "fval out / fval sm \<le> 16"
    using s o by (simp_all add: pos_divide_le_eq)
  from fround_bounds(1)[OF this, of F32] have "fin_in 0 16 (fdiv F32 out sm)"
    using s o by (simp add: fdiv_fin)
  then show ?thesis using f by (simp add: decode_side_def)
qed

lemma decode_max_ge:
  assumes "i < 64"
  shows "sint (x ! i) \<le> sint (decode_max x)"
proof -
  let ?f = "\<lambda>i m. if sint m < sint (x ! i) then x ! i else m"
  have ge: "sint m \<le> sint (fold ?f is m)" for "is" m
  proof (induction "is" arbitrary: m)
    case (Cons a "is")
    show ?case
    proof (cases "sint m < sint (x ! a)")
      case True
      moreover have "sint (x ! a) \<le> sint (fold ?f is (x ! a))" by (rule Cons)
      ultimately have "sint m \<le> sint (fold ?f is (x ! a))" by linarith
      then show ?thesis using True by simp
    qed (simp add: Cons)
  qed simp
  have mem: "i \<in> set is \<Longrightarrow> sint (x ! i) \<le> sint (fold ?f is m)" for "is" m
  proof (induction "is" arbitrary: m)
    case (Cons a "is")
    have "sint (x ! a) \<le> sint (?f a m)" by simp
    also have "\<dots> \<le> sint (fold ?f is (?f a m))" by (rule ge)
    finally show ?case using Cons by (cases "i = a") auto
  qed simp
  show ?thesis
  proof (cases "i = 0")
    case True
    then show ?thesis using ge[of "x ! 0" "[1..<64]"] by (simp add: decode_max_def)
  next
    case False
    then have "i \<in> set [1..<64]" using assms by simp
    then show ?thesis unfolding decode_max_def by (rule mem)
  qed
qed

lemma decode_box4_range:
  assumes "ok_scale scale"
  shows "\<exists>d. decode_box4 x scale = Some d \<and> length d = 4 \<and> (\<forall>s<4. fin_in 0 16 (d ! s))"
proof -
  let ?f = "\<lambda>s out4. map_option (\<lambda>v. out4[s := v]) (decode_side x (decode_max x) scale s)"
  have "\<exists>d. foldo ?f [0..<4] (replicate 4 (Fin 0)) = Some d
      \<and> length d = 4 \<and> (\<forall>s<4. fin_in 0 16 (d ! s))"
  proof (rule foldo_inv)
    fix s d assume s: "s \<in> set [0..<4]" and d: "length d = 4 \<and> (\<forall>s<4. fin_in 0 16 (d ! s))"
    have "sint (x ! (s * 16 + k)) \<le> sint (decode_max x)" if "k < 16" for k
      using s that by (intro decode_max_ge) auto
    then obtain v where v: "decode_side x (decode_max x) scale s = Some v" "fin_in 0 16 v"
      using decode_side_range[OF _ assms] by blast
    show "\<exists>d'. ?f s d = Some d' \<and> length d' = 4 \<and> (\<forall>s<4. fin_in 0 16 (d' ! s))"
      using v d s by (auto simp: nth_list_update)
  qed (simp add: fin_in_def)
  then show ?thesis by (simp add: decode_box4_def)
qed

text \<open>The corners of a cell's box are finite and ordered.\<close>

lemma fround_mono_val:
  "fin_in a b (fround p s v) \<Longrightarrow> fin_in a b (fround p t w) \<Longrightarrow> v \<le> w \<Longrightarrow> fval (fround p s v) \<le> fval (fround p t w)"
  using rnd_mono[of v w p] by (auto simp: fround_def Let_def fin_in_def split: if_splits)

lemma cell_axis:
  assumes "fin_in 0 16 d" "fin_in 0 16 e" "j < 2 ^ 16" "0 < st" "st \<le> 32"
  defines "px \<equiv> fadd F32 (fof_int F32 (int j)) (Fin (1/2))"
  shows "fle (fmul F32 (fsub F32 px d) (fof_int F32 st)) (fmul F32 (fadd F32 px e) (fof_int F32 st))"
proof -
  note d = fin_inD[OF assms(1)] and e = fin_inD[OF assms(2)]
  have jb: "(of_int (int j) :: rat) \<le> of_int (2 ^ 16)" using assms(3) by (simp only: of_int_le_iff) simp
  have "fin_in 0 65536 (fof_int F32 (int j))" using jb by (intro fin_in_fof_int) auto
  moreover have "fin_in 0 1 (Fin (1/2))" by (simp add: fin_in_def)
  ultimately have px: "fin_in (0 + 0) (65536 + 1) px" unfolding px_def by (rule fin_in_fadd) auto
  then have px: "fin_in 0 65537 px" by simp
  note p = fin_inD[OF px]
  have lo: "fin_in (0 - 16) (65537 - 0) (fsub F32 px d)" using px assms(1) by (rule fin_in_fsub) auto
  have hi: "fin_in (0 + 0) (65537 + 16) (fadd F32 px e)" using px assms(2) by (rule fin_in_fadd) auto
  have lo: "fin_in (-16) 65553 (fsub F32 px d)" and hi: "fin_in (-16) 65553 (fadd F32 px e)"
    using lo hi by (auto elim: fin_in_weaken)
  note l = fin_inD[OF lo] and h = fin_inD[OF hi]
  have le: "fval (fsub F32 px d) \<le> fval (fadd F32 px e)"
    unfolding fsub_fin[OF p(1) d(1)] fadd_fin[OF p(1) e(1)]
  proof (rule fround_mono_val)
    show "fin_in (-16) 65553 (fround F32 (fneg_bit px \<and> fneg_bit (fneg d)) (fval px - fval d))"
      using lo by (simp add: fsub_fin[OF p(1) d(1)])
    show "fin_in (-16) 65553 (fround F32 (fneg_bit px \<and> fneg_bit e) (fval px + fval e))"
      using hi by (simp add: fadd_fin[OF p(1) e(1)])
  qed (use d(2) e(2) in linarith)
  have st: "fof_int F32 st = Fin (of_int st)" using assms by (simp add: fof_int_exact)
  have s: "fin_in 1 32 (Fin (of_int st))"
    using assms of_int_le_iff[of 1 st, where 'a = rat] of_int_le_iff[of st 32, where 'a = rat]
    by (simp add: fin_in_def)
  have s01: "fin_in 0 32 (Fin (of_int st))" using s by (rule fin_in_weaken) auto
  have L: "fin_in (-16 * 32) (65553 * 32) (fmul F32 (fsub F32 px d) (Fin (of_int st)))"
    using lo s01 by (rule fin_in_fmul) auto
  have H: "fin_in (-16 * 32) (65553 * 32) (fmul F32 (fadd F32 px e) (Fin (of_int st)))"
    using hi s01 by (rule fin_in_fmul) auto
  have "fval (fmul F32 (fsub F32 px d) (Fin (of_int st))) \<le> fval (fmul F32 (fadd F32 px e) (Fin (of_int st)))"
    unfolding fmul_fin[OF l(1) fin_inD(1)[OF s]] fmul_fin[OF h(1) fin_inD(1)[OF s]]
  proof (rule fround_mono_val)
    show "fval (fsub F32 px d) * fval (Fin (of_int st)) \<le> fval (fadd F32 px e) * fval (Fin (of_int st))"
      using le assms by (intro mult_right_mono) auto
  qed (use L H in \<open>simp_all only: fmul_fin[OF l(1) fin_inD(1)[OF s]] fmul_fin[OF h(1) fin_inD(1)[OF s]]\<close>)
  then show ?thesis using fin_inD(1)[OF L] fin_inD(1)[OF H] by (simp add: st fle_fin)
qed

lemma cell_box_ordered:
  assumes "length d = 4" "\<forall>s<4. fin_in 0 16 (d ! s)" "i < 2 ^ 16" "j < 2 ^ 16" "0 < st" "st \<le> 32"
  shows "fle (cell_box i j d st ! 0) (cell_box i j d st ! 2)" "fle (cell_box i j d st ! 1) (cell_box i j d st ! 3)"
  using assms by (auto simp: cell_box_def Let_def numeral_2_eq_2 numeral_3_eq_3 intro!: cell_axis)

section \<open>Candidates and results are well-formed\<close>

text \<open>What is assumed of \<open>expf\<close>: not negative and not NaN on arguments other than NaN. What is
  assumed of \<open>logf\<close>: not NaN on arguments that are not negative.\<close>

definition expf_ok :: "(fp \<Rightarrow> fp) \<Rightarrow> bool" where
  "expf_ok expf \<longleftrightarrow> (\<forall>x. x \<noteq> NaN \<longrightarrow> fle (Fin 0) (expf x))"

definition logf_ok :: "(fp \<Rightarrow> fp) \<Rightarrow> bool" where
  "logf_ok logf \<longleftrightarrow> (\<forall>x. fle (Fin 0) x \<longrightarrow> logf x \<noteq> NaN)"

definition unit_prob :: "fp \<Rightarrow> bool" where
  "unit_prob p \<longleftrightarrow> fle (Fin 0) p \<and> fle p (Fin 1) \<and> in_fmt F32 p"

lemma in_fmt_fconv [simp]: "in_fmt p (fconv p x)"
  by (cases x) simp_all

lemma in_fmt_fdiv [simp]: "in_fmt p (fdiv p x y)"
  by (cases "(p, x, y)" rule: fdiv.cases) simp_all

lemma fle_0D:
  assumes "fle (Fin 0) e"
  obtains "e = Inf False" | "e = NZero" | v where "e = Fin v" "0 \<le> v"
  using assms by (cases e) auto

lemma unit_recip:
  assumes "fle (Fin 0) e"
  shows "fle (Fin 0) (fdiv F64 (Fin 1) (fadd F64 (Fin 1) e))
    \<and> fle (fdiv F64 (Fin 1) (fadd F64 (Fin 1) e)) (Fin 1)"
proof -
  consider "fadd F64 (Fin 1) e = Inf False" | v where "fadd F64 (Fin 1) e = Fin v" "1 \<le> v"
  proof -
    have "fadd F64 (Fin 1) e = Inf False \<or> (\<exists>v. fadd F64 (Fin 1) e = Fin v \<and> 1 \<le> v)"
    proof (cases rule: fle_0D[OF assms])
      case 1 then show ?thesis by simp
    next
      case 2 then show ?thesis by (simp add: fp_simps)
    next
      case (3 v)
      have "1 \<le> rnd F64 (1 + v)" using 3 by (intro rnd_ge) auto
      then show ?thesis using 3 maxfin_nonneg[of F64] by (auto simp: fround_def Let_def)
    qed
    then show thesis using that by blast
  qed
  then show ?thesis
  proof cases
    case 2
    then have "0 \<le> 1 / v" "1 / v \<le> 1" by auto
    from fround_bounds(1)[OF this, of F64 False] 2 show ?thesis
      by (auto simp: fin_in_def fle_fin)
  qed simp
qed

lemma fconv_bounds:
  assumes "fle (Fin 0) x" "fle x (Fin 1)"
  shows "fle (Fin 0) (fconv p x) \<and> fle (fconv p x) (Fin 1)"
proof (cases x)
  case (Fin v)
  with assms have "0 \<le> v" "v \<le> 1" by auto
  from fround_bounds(1)[OF this, of p False] show ?thesis
    by (auto simp: Fin fin_in_def fle_fin)
qed (use assms in auto)

lemma fle_0_fconv: "fle (Fin 0) x \<Longrightarrow> fle (Fin 0) (fconv p x)"
  using rnd_nonneg[of "fval x" p] maxfin_nonneg[of p]
  by (cases x) (auto simp: fround_def Let_def)

lemma fconv_not_NaN: "fconv p x = NaN \<longleftrightarrow> x = NaN"
  by (cases x) simp_all

lemma sigmoid_unit:
  assumes "expf_ok expf" "x \<noteq> NaN"
  shows "unit_prob (sigmoid expf x)"
proof -
  have "fneg x \<noteq> NaN" using assms(2) by (cases x) auto
  then have "fle (Fin 0) (expf (fneg x))" using assms(1) by (simp add: expf_ok_def)
  from unit_recip[OF this] show ?thesis
    unfolding unit_prob_def sigmoid_def using fconv_bounds by simp
qed

definition zp_ok :: "int \<Rightarrow> bool" where
  "zp_ok zp \<longleftrightarrow> -128 \<le> zp \<and> zp \<le> 127"

lemma deqnt_not_NaN:
  assumes "ok_scale scale" "zp_ok zp"
  shows "deqnt_affine_to_f32 q zp scale \<noteq> NaN"
proof -
  have int8: "fin_in (-128) 127 (fof_int F32 n)" if "-128 \<le> n" "n \<le> 127" for n
  proof (rule fin_in_fof_int)
    show "(-128::rat) \<le> of_int n" "of_int n \<le> (127::rat)"
      using that of_int_le_iff[of "-128" n, where 'a = rat] of_int_le_iff[of n 127, where 'a = rat] by auto
  qed auto
  obtain v where v: "scale = Fin v" using assms(1) by (auto simp: ok_scale_def split: fp.splits)
  have "fin_in (-128 - 127) (127 - (-128)) (fsub F32 (fof_int F32 (sint q)) (fof_int F32 zp))"
    using sint_i8[of q] assms(2) by (intro fin_in_fsub int8) (auto simp: zp_ok_def)
  then show ?thesis using v by (auto simp: deqnt_affine_to_f32_def fmul_fin dest!: fin_inD(1))
qed

text \<open>The candidates collected so far: four corners, a probability and the one class each; the
  corners ordered.\<close>

definition cand_inv :: "candidates \<Rightarrow> bool" where
  "cand_inv c \<longleftrightarrow> length (cd_boxes c) = 4 * length (cd_objProbs c)
     \<and> length (cd_classId c) = length (cd_objProbs c)
     \<and> (\<forall>p\<in>set (cd_objProbs c). unit_prob p)
     \<and> (\<forall>k\<in>set (cd_classId c). k = 0)
     \<and> (\<forall>n<length (cd_objProbs c).
          fle (cd_boxes c ! (4 * n)) (cd_boxes c ! (4 * n + 2))
          \<and> fle (cd_boxes c ! (4 * n + 1)) (cd_boxes c ! (4 * n + 3)))"

lemma best_class_cases:
  obtains "best_class input t cell = (0, -1)"
  | p where "best_class input t cell = (p, 0)" "0 < sint p" "sint t \<le> sint p" "p = input ! (cell * cell_size)"
  by (cases "sint t \<le> sint (input ! (cell * cell_size)) \<and> 0 < sint (input ! (cell * cell_size))")
    (auto simp: best_class_def OBJ_CLASS_NUM_def)

text \<open>The scan starts at 0: a cell whose quantised score is not positive yields no candidate, even when
  the quantised threshold is negative and the score above it.\<close>

lemma nonpositive_score_dropped:
  "sint (input ! (cell * cell_size)) \<le> 0 \<Longrightarrow> best_class input t cell = (0, -1)"
  by (simp add: best_class_def OBJ_CLASS_NUM_def)

lemma sigmoid_lut_nth:
  assumes "0 \<le> sint q"
  shows "sigmoid_lut expf zp scale ! nat (sint q + 128) = sigmoid expf (deqnt_affine_to_f32 q zp scale)"
proof -
  have i: "nat (sint q + 128) < nat (127 - (-128) + 1)" using assms sint_i8[of q] by simp
  have "[-128..127] ! nat (sint q + 128) = -128 + int (nat (sint q + 128))"
    using i by (intro nth_upto) linarith
  also have "\<dots> = sint q" using assms by simp
  finally have "[-128..127] ! nat (sint q + 128) = sint q" .
  moreover have "word_of_int (sint q) = q" by (metis of_int_sint scast_id)
  ultimately show ?thesis unfolding sigmoid_lut_def using i
    by (subst nth_map) (simp_all only: length_upto)
qed

lemma process_cell_inv:
  assumes c: "cand_inv c" "int (length (cd_objProbs c)) = base + v" "0 \<le> v"
    and ok: "expf_ok expf" "ok_scale scale" "zp_ok zp" "i < 2 ^ 16" "j < 2 ^ 16" "0 < st" "st \<le> 32"
  shows "\<exists>c' v'. process_cell input gw st t (sigmoid_lut expf zp scale) scale i j (c, v) = Some (c', v')
    \<and> cand_inv c' \<and> int (length (cd_objProbs c')) = base + v' \<and> 0 \<le> v'"
proof (cases rule: best_class_cases[of input t "i * gw + j"])
  case 1
  then show ?thesis using c by (simp add: process_cell_def)
next
  case (2 p)
  obtain d where d: "decode_box4 (drop ((i * gw + j) * cell_size + OBJ_CLASS_NUM) input) scale = Some d"
    "length d = 4" "\<forall>s<4. fin_in 0 16 (d ! s)"
    using decode_box4_range[OF ok(2)] by blast
  let ?b = "cell_box i j d st"
  let ?p = "sigmoid expf (deqnt_affine_to_f32 p zp scale)"
  have lb: "length ?b = 4" by (simp add: cell_box_def Let_def)
  have ob: "fle (?b ! 0) (?b ! 2)" "fle (?b ! 1) (?b ! 3)"
    using cell_box_ordered[OF d(2,3) ok(4-7)] by auto
  have up: "unit_prob ?p" by (rule sigmoid_unit[OF ok(1) deqnt_not_NaN[OF ok(2,3)]])
  let ?c = "c\<lparr>cd_boxes := cd_boxes c @ ?b, cd_objProbs := cd_objProbs c @ [?p], cd_classId := cd_classId c @ [0]\<rparr>"
  have "process_cell input gw st t (sigmoid_lut expf zp scale) scale i j (c, v) = Some (?c, v + 1)"
    using 2 d(1) by (simp add: process_cell_def sigmoid_lut_nth Let_def)
  moreover have "cand_inv ?c"
    using c(1) lb ob up by (auto simp: cand_inv_def nth_append less_Suc_eq)
  ultimately show ?thesis using c(2,3) by simp
qed

text \<open>The threshold is converted: no NaN reaches the integer conversion.\<close>

definition ok_threshold :: "fp \<Rightarrow> bool" where
  "ok_threshold y \<longleftrightarrow> (case y of Fin t \<Rightarrow> 0 < t \<and> t \<le> 1 | _ \<Rightarrow> False)"

lemma unsigmoid_not_NaN:
  assumes "logf_ok logf" "ok_threshold y"
  shows "unsigmoid logf y \<noteq> NaN"
proof -
  obtain t where t: "y = Fin t" "0 < t" "t \<le> 1" using assms(2) by (auto simp: ok_threshold_def split: fp.splits)
  have "1 \<le> rnd F64 (1 / t)" using t by (intro rnd_ge) auto
  then have "fdiv F64 (Fin 1) y = Inf False \<or> (\<exists>q. fdiv F64 (Fin 1) y = Fin q \<and> 1 \<le> q)"
    using t maxfin_nonneg[of F64] by (auto simp: fround_def Let_def)
  then have "fle (Fin 0) (fsub F64 (fdiv F64 (Fin 1) y) (Fin 1))"
  proof (elim disjE exE conjE)
    fix q assume "fdiv F64 (Fin 1) y = Fin q" "1 \<le> q"
    moreover have "0 \<le> rnd F64 (q + (-1))" using \<open>1 \<le> q\<close> by (intro rnd_nonneg) simp
    ultimately show ?thesis using maxfin_nonneg[of F64]
      by (auto simp: fsub_def fround_def Let_def)
  qed (simp add: fsub_def)
  then have "fle (Fin 0) (fconv F32 (fsub F64 (fdiv F64 (Fin 1) y) (Fin 1)))"
    by (rule fle_0_fconv)
  then have "logf (fconv F32 (fsub F64 (fdiv F64 (Fin 1) y) (Fin 1))) \<noteq> NaN"
    using assms(1) by (simp add: logf_ok_def)
  then show ?thesis
    unfolding unsigmoid_def
    by (cases "logf (fconv F32 (fsub F64 (fdiv F64 (Fin 1) y) (Fin 1)))")
      (auto simp: fmul_fin fconv_not_NaN)
qed

lemma qnt_defined:
  assumes "x \<noteq> NaN" "ok_scale scale" "zp_ok zp"
  shows "\<exists>q. qnt_f32_to_affine x zp scale = Some q"
proof -
  obtain v where v: "scale = Fin v" "0 < v" using assms(2) by (auto simp: ok_scale_def split: fp.splits)
  have d: "fdiv F32 x scale \<noteq> NaN" using assms(1) v by (cases x) auto
  have "fof_int F32 zp = Fin (of_int zp)" using assms(3) by (auto simp: zp_ok_def intro!: fof_int_exact)
  then have "fadd F32 (fdiv F32 x scale) (fof_int F32 zp) \<noteq> NaN"
    using d by (cases "fdiv F32 x scale") auto
  then show ?thesis
    by (cases "fadd F32 (fdiv F32 x scale) (fof_int F32 zp)")
      (auto simp: qnt_f32_to_affine_def clip32_def Let_def rtrunc_def)
qed

lemma process_inv:
  assumes c: "cand_inv c"
    and ok: "expf_ok expf" "logf_ok logf" "ok_scale scale" "zp_ok zp" "gh \<le> 2 ^ 16" "gw \<le> 2 ^ 16"
      "0 < st" "st \<le> 32" "ok_threshold threshold"
  shows "\<exists>c' v. process expf logf input gh gw st c threshold zp scale = Some (c', v)
    \<and> cand_inv c' \<and> int (length (cd_objProbs c')) = int (length (cd_objProbs c)) + v \<and> 0 \<le> v"
proof -
  obtain t where t: "qnt_f32_to_affine (unsigmoid logf threshold) zp scale = Some t"
    using qnt_defined[OF unsigmoid_not_NaN[OF ok(2,9)] ok(3,4)] by blast
  let ?P = "\<lambda>(c', v). cand_inv c' \<and> int (length (cd_objProbs c')) = int (length (cd_objProbs c)) + v \<and> 0 \<le> v"
  have "\<exists>s. foldo (\<lambda>i. foldo (\<lambda>j. process_cell input gw st t (sigmoid_lut expf zp scale) scale i j) [0..<gw])
      [0..<gh] (c, 0) = Some s \<and> ?P s"
  proof (rule foldo_inv)
    fix i s assume i: "i \<in> set [0..<gh]" and s: "?P s"
    show "\<exists>s'. foldo (\<lambda>j. process_cell input gw st t (sigmoid_lut expf zp scale) scale i j) [0..<gw] s = Some s' \<and> ?P s'"
    proof (rule foldo_inv)
      fix j s assume j: "j \<in> set [0..<gw]" and s: "?P s"
      obtain c1 v1 where c1: "s = (c1, v1)" by (cases s)
      have "i < 2 ^ 16" "j < 2 ^ 16" using i j ok by auto
      from process_cell_inv[OF _ _ _ ok(1,3,4) this ok(7,8), of c1 "int (length (cd_objProbs c))" v1]
      show "\<exists>s'. process_cell input gw st t (sigmoid_lut expf zp scale) scale i j s = Some s' \<and> ?P s'"
        using s by (auto simp: c1)
    qed (rule s)
  qed (use c in simp)
  then show ?thesis using t by (auto simp: process_def Let_def)
qed

section \<open>Mapping a corner into the image\<close>

text \<open>The ratios of model to image size the conversion is shown defined for: at least 1/1024.\<close>

definition ok_ratio :: "fp \<Rightarrow> bool" where
  "ok_ratio s \<longleftrightarrow> (case s of Fin v \<Rightarrow> 1 / 1024 \<le> v | _ \<Rightarrow> False)"

definition image_max :: "nat \<Rightarrow> fp \<Rightarrow> int" where
  "image_max limit scale = rtrunc (fval (fdiv F32 (fof_int F32 (int limit)) scale))"

definition clampv :: "fp \<Rightarrow> nat \<Rightarrow> fp" where
  "clampv x limit = (if flt (Fin 0) x then (if flt x (Fin (of_nat limit)) then x else Fin (of_nat limit)) else Fin 0)"

lemma clampv_range: "fin_in 0 (of_nat limit) (clampv x limit)"
  by (cases x) (auto simp: clampv_def fin_in_def)

lemma clampv_mono: "fle x y \<Longrightarrow> fval (clampv x limit) \<le> fval (clampv y limit)"
  by (cases x; cases y) (auto simp: clampv_def)

lemma clamp_eq:
  assumes "limit \<le> 4096"
  shows "clamp x 0 (int limit) = Some (rtrunc (fval (clampv x limit)))"
    and "0 \<le> rtrunc (fval (clampv x limit))" "rtrunc (fval (clampv x limit)) \<le> int limit"
proof -
  have "fof_int F32 0 = Fin 0" "fof_int F32 (int limit) = Fin (of_nat limit)"
    using fof_int_exact[of 0 F32] fof_int_exact[of "int limit" F32] assms by auto
  then have c: "clamp x 0 (int limit) = fto_int (clampv x limit)" by (simp add: clamp_def clampv_def)
  have "fin_in (of_int 0) (of_int (int limit)) (clampv x limit)" using clampv_range by simp
  from fto_int_fin[OF this] assms show "clamp x 0 (int limit) = Some (rtrunc (fval (clampv x limit)))"
    and "0 \<le> rtrunc (fval (clampv x limit))" "rtrunc (fval (clampv x limit)) \<le> int limit"
    by (simp_all add: c)
qed

lemma div_scale:
  assumes "limit \<le> 4096" "0 \<le> n" "n \<le> int limit" "ok_ratio scale"
  shows "fto_int (fdiv F32 (fof_int F32 n) scale) = Some (rtrunc (fval (fdiv F32 (fof_int F32 n) scale)))"
    and "fval (fdiv F32 (fof_int F32 n) scale) = rnd F32 (of_int n / fval scale)"
    and "0 \<le> rtrunc (fval (fdiv F32 (fof_int F32 n) scale))"
    and "rtrunc (fval (fdiv F32 (fof_int F32 n) scale)) \<le> 2 ^ 22"
    and "0 < fval scale"
proof -
  obtain v where v: "scale = Fin v" "1 / 1024 \<le> v"
    using assms(4) by (auto simp: ok_ratio_def split: fp.splits)
  have n: "fof_int F32 n = Fin (of_int n)" using assms by (intro fof_int_exact) auto
  have nb: "0 \<le> (of_int n :: rat)" "(of_int n :: rat) \<le> 4096"
    using assms of_int_le_iff[of n 4096, where 'a = rat] by auto
  have "of_int n / v \<le> 4096 / (1 / 1024)"
    using nb v by (intro frac_le) auto
  then have q: "0 \<le> of_int n / v" "of_int n / v \<le> 4194304" using nb v by auto
  note b = fround_bounds[OF q, of F32 False]
  have d: "fdiv F32 (fof_int F32 n) scale = fround F32 False (of_int n / v)"
    using nb v by (simp add: n fdiv_fin)
  show "fval (fdiv F32 (fof_int F32 n) scale) = rnd F32 (of_int n / fval scale)"
    unfolding d using b(2) by (simp add: v)
  have "fin_in (of_int 0) (of_int 4194304) (fdiv F32 (fof_int F32 n) scale)"
    using b(1) by (simp add: d)
  from fto_int_fin[OF this] show
    "fto_int (fdiv F32 (fof_int F32 n) scale) = Some (rtrunc (fval (fdiv F32 (fof_int F32 n) scale)))"
    "0 \<le> rtrunc (fval (fdiv F32 (fof_int F32 n) scale))"
    "rtrunc (fval (fdiv F32 (fof_int F32 n) scale)) \<le> 2 ^ 22"
    by simp_all
  show "0 < fval scale" using v by simp
qed

lemma div_scale_mono:
  assumes "limit \<le> 4096" "0 \<le> m" "m \<le> n" "n \<le> int limit" "ok_ratio scale"
  shows "rtrunc (fval (fdiv F32 (fof_int F32 m) scale)) \<le> rtrunc (fval (fdiv F32 (fof_int F32 n) scale))"
proof -
  have "(of_int m :: rat) / fval scale \<le> of_int n / fval scale"
    using div_scale(5)[OF assms(1) _ assms(4,5)] assms by (intro divide_right_mono) auto
  then show ?thesis
    using div_scale(2)[OF assms(1) _ assms(4,5)] div_scale(2)[OF assms(1,2) _ assms(5)] assms
    by (simp add: rtrunc_mono rnd_mono)
qed

text \<open>The value \<open>to_image\<close> returns; it is monotone in the corner and inside the image.\<close>

definition image_of :: "fp \<Rightarrow> nat \<Rightarrow> fp \<Rightarrow> int" where
  "image_of x limit scale = rtrunc (fval (fdiv F32 (fof_int F32 (rtrunc (fval (clampv x limit)))) scale))"

lemma to_image_eq:
  assumes "limit \<le> 4096" "ok_ratio scale"
  shows "to_image x limit scale = Some (image_of x limit scale)"
    and "0 \<le> image_of x limit scale" "image_of x limit scale \<le> image_max limit scale"
    and "image_max limit scale \<le> 2 ^ 22"
    and "fle x y \<Longrightarrow> image_of x limit scale \<le> image_of y limit scale"
proof -
  note cx = clamp_eq[OF assms(1), of x] and cy = clamp_eq[OF assms(1), of y]
  note d = div_scale[OF assms(1) cx(2,3) assms(2)]
  show "to_image x limit scale = Some (image_of x limit scale)" "0 \<le> image_of x limit scale"
    using cx d by (simp_all add: to_image_def image_of_def)
  show "image_of x limit scale \<le> image_max limit scale"
    unfolding image_of_def image_max_def using cx by (intro div_scale_mono[OF assms(1) _ _ _ assms(2)]) auto
  show "image_max limit scale \<le> 2 ^ 22"
    unfolding image_max_def using div_scale(4)[OF assms(1) _ _ assms(2), of "int limit"] by simp
  show "fle x y \<Longrightarrow> image_of x limit scale \<le> image_of y limit scale"
    unfolding image_of_def using cx cy
    by (intro div_scale_mono[OF assms(1) _ _ _ assms(2)] rtrunc_mono clampv_mono) auto
qed

section \<open>Selection and collection\<close>

text \<open>The result record of candidate n, and the selection: the greedy one among the first
  \<open>TOP_K\<close> of the sorted index list, at most 64.\<close>

definition mk_result :: "string \<Rightarrow> nat \<Rightarrow> nat \<Rightarrow> fp \<Rightarrow> fp \<Rightarrow> candidates \<Rightarrow> int \<Rightarrow> detect_result" where
  "mk_result label mh mw scale_w scale_h c n =
     \<lparr>dr_name = strncpy label OBJ_NAME_MAX_SIZE,
      dr_left = word_of_int (image_of (cd_boxes c ! nat (n * 4)) mw scale_w),
      dr_right = word_of_int (image_of (cd_boxes c ! nat (n * 4 + 2)) mw scale_w),
      dr_top = word_of_int (image_of (cd_boxes c ! nat (n * 4 + 1)) mh scale_h),
      dr_bottom = word_of_int (image_of (cd_boxes c ! nat (n * 4 + 3)) mh scale_h),
      dr_prop = cd_objProbs c ! nat n\<rparr>"

definition selection :: "candidates \<Rightarrow> fp \<Rightarrow> int list \<Rightarrow> int list" where
  "selection c thr idx =
     take OBJ_NUMB_MAX_SIZE (greedy (\<lambda>n m. flt thr (overlap_at (cd_boxes c) n m)) (take TOP_K idx))"

lemma collect_loop:
  assumes d: "mh \<le> 4096" "mw \<le> 4096" "ok_ratio sw" "ok_ratio sh"
    and c: "\<forall>n<N. cd_classId c ! n = 0"
    and idx: "\<And>i. i < v \<Longrightarrow> idx ! i \<noteq> -1 \<Longrightarrow> 0 \<le> idx ! i \<and> nat (idx ! i) < N \<and> probs ! i = cd_objProbs c ! nat (idx ! i)"
      "v \<le> length idx"
  shows "foldo (collect_one [Some label] mh mw sw sh c probs idx) [0..<v] (replicate 64 zero_result, 0)
    = (let rs = map (mk_result label mh mw sw sh c) (take 64 (kept v idx))
       in Some (rs @ replicate (64 - length rs) zero_result, length rs))"
proof -
  let ?mk = "mk_result label mh mw sw sh c"
  let ?S = "\<lambda>i. map ?mk (take 64 (kept i idx))"
  have "\<exists>s. foldo (collect_one [Some label] mh mw sw sh c probs idx) [0..<v] (replicate 64 zero_result, 0) = Some s
      \<and> s = (?S v @ replicate (64 - length (?S v)) zero_result, length (?S v))"
  proof (rule foldo_upt)
    fix i s assume i: "i < v" and s: "s = (?S i @ replicate (64 - length (?S i)) zero_result, length (?S i))"
    have k: "kept (Suc i) idx = kept i idx @ (if idx ! i = -1 then [] else [idx ! i])"
      using i idx(2) by (simp add: kept_def take_Suc_conv_app_nth)
    show "\<exists>s'. collect_one [Some label] mh mw sw sh c probs idx i s = Some s'
      \<and> s' = (?S (Suc i) @ replicate (64 - length (?S (Suc i))) zero_result, length (?S (Suc i)))"
    proof (cases "idx ! i = -1 \<or> 64 \<le> length (?S i)")
      case True
      then have "?S (Suc i) = ?S i" by (auto simp: k)
      then show ?thesis using True by (auto simp: s collect_one_def OBJ_NUMB_MAX_SIZE_def)
    next
      case False
      define n where "n = idx ! i"
      have n: "0 \<le> n" "nat n < N" "probs ! i = cd_objProbs c ! nat n" "n \<noteq> -1"
        using idx(1)[OF i] False by (auto simp: n_def)
      have len: "length (kept i idx) < 64" using False by auto
      have one: "collect_one [Some label] mh mw sw sh c probs idx i s
          = Some ((fst s)[snd s := ?mk n], Suc (snd s))"
        using False n c
        by (simp add: s collect_one_def OBJ_NUMB_MAX_SIZE_def Let_def mk_result_def
            to_image_eq(1)[OF d(2) d(3)] to_image_eq(1)[OF d(1) d(4)] flip: n_def)
      have "(map ?mk (kept i idx) @ replicate (64 - length (kept i idx)) zero_result)[length (kept i idx) := ?mk n]
          = map ?mk (kept i idx) @ [?mk n] @ replicate (63 - length (kept i idx)) zero_result"
      proof -
        have "64 - length (kept i idx) = Suc (63 - length (kept i idx))" using len by simp
        then show ?thesis by (simp add: list_update_append)
      qed
      then show ?thesis using False len
        by (simp add: one) (simp add: s k flip: n_def)
    qed
  qed (simp_all add: kept_def)
  then show ?thesis by (auto simp: Let_def)
qed

text \<open>\<open>nms\<close> only overwrites entries by -1.\<close>

definition erased :: "int list \<Rightarrow> int list \<Rightarrow> bool" where
  "erased xs ys \<longleftrightarrow> length ys = length xs \<and> (\<forall>i<length xs. ys ! i = -1 \<or> ys ! i = xs ! i)"

lemma erased_refl: "erased xs xs"
  by (simp add: erased_def)

lemma erased_trans: "erased xs ys \<Longrightarrow> erased ys zs \<Longrightarrow> erased xs zs"
  unfolding erased_def by metis

lemma erased_update: "erased xs (xs[j := -1])"
  by (cases "j < length xs") (auto simp: erased_def nth_list_update)

lemma erased_fold:
  assumes "\<And>x zs. erased zs (f x zs)"
  shows "erased zs (fold f xs zs)"
proof (induction xs arbitrary: zs)
  case (Cons x xs)
  show ?case using erased_trans[OF assms Cons] by simp
qed (simp add: erased_def)

lemma nms_erased: "erased order (nms v boxes classIds order c t)"
  unfolding nms_def
proof (rule erased_fold)
  fix i zs
  have "erased zs (fold (nms_inner boxes classIds c t i (zs ! i)) [i + 1..<v] zs)"
    by (rule erased_fold) (auto simp: nms_inner_def Let_def erased_update intro: erased_refl)
  then show "erased zs (nms_outer v boxes classIds c t i zs)"
    by (simp add: nms_outer_def erased_refl)
qed

text \<open>What the sort makes of the indices 0 to n - 1: each once, each beside its score.\<close>

lemma sorted_indices:
  assumes "mset (zip probs' idx) = mset (zip probs (map int [0..<n]))"
    and "length probs = n" "length probs' = n" "length idx = n"
  shows "mset idx = mset (map int [0..<n])" "\<And>i. i < n \<Longrightarrow> 0 \<le> idx ! i \<and> nat (idx ! i) < n
     \<and> probs' ! i = probs ! nat (idx ! i)"
proof -
  have "mset (map snd (zip probs' idx)) = mset (map snd (zip probs (map int [0..<n])))"
    using assms(1) by (simp only: mset_map)
  then show "mset idx = mset (map int [0..<n])"
    using assms(2-4) by (simp only: map_snd_zip length_map length_upt diff_zero)
  fix i assume i: "i < n"
  then have "(probs' ! i, idx ! i) \<in> set (zip probs' idx)"
    using assms by (auto simp: set_zip)
  then have "(probs' ! i, idx ! i) \<in> set (zip probs (map int [0..<n]))"
    using assms(1) by (metis set_mset_mset)
  then show "0 \<le> idx ! i \<and> nat (idx ! i) < n \<and> probs' ! i = probs ! nat (idx ! i)"
    using assms by (auto simp: set_zip)
qed

text \<open>The whole selection stage is the selection on lists.\<close>

lemma select_and_collect_spec:
  assumes c: "cand_inv c" and v: "v = length (cd_objProbs c)"
    and d: "mh \<le> 4096" "mw \<le> 4096" "ok_ratio sw" "ok_ratio sh"
  shows "\<exists>probs idx. quick_sort 0 (int v - 1) (cd_objProbs c) (map int [0..<v]) = Some (probs, idx)
    \<and> mset idx = mset (map int [0..<v])
    \<and> (\<forall>i j. i < j \<and> j < v \<longrightarrow> fle (cd_objProbs c ! nat (idx ! j)) (cd_objProbs c ! nat (idx ! i)))
    \<and> select_and_collect [Some label] mh mw thr sw sh c v =
        (let rs = map (mk_result label mh mw sw sh c) (selection c thr idx)
         in Some (rs @ replicate (64 - length rs) zero_result, length rs))"
proof -
  have "NaN \<notin> set (cd_objProbs c)"
    using c by (auto simp: cand_inv_def unit_prob_def)
  from quick_sort_all[of "map int [0..<v]" "cd_objProbs c", OF _ this]
  obtain probs idx where q: "quick_sort 0 (int v - 1) (cd_objProbs c) (map int [0..<v]) = Some (probs, idx)"
    and len: "length probs = v" "length idx = v"
    and ms: "mset (zip probs idx) = mset (zip (cd_objProbs c) (map int [0..<v]))"
    and dec: "\<forall>i j. i < j \<and> j < v \<longrightarrow> fle (probs ! j) (probs ! i)"
    by (auto simp: v)
  note si = sorted_indices[OF ms v[symmetric] len]
  define w where "w = (if TOP_K < v then TOP_K else v)"
  have w: "w \<le> v" "take w idx = take TOP_K idx" using len by (auto simp: w_def)
  define idx2 where "idx2 = nms w (cd_boxes c) (cd_classId c) idx 0 thr"
  have c0: "\<forall>n<v. cd_classId c ! n = 0" using c by (simp add: cand_inv_def v)
  have er: "erased idx idx2" unfolding idx2_def by (rule nms_erased)
  have pos: "-1 \<notin> set idx"
  proof
    assume "-1 \<in> set idx"
    then obtain i where "i < v" "idx ! i = -1" using len by (auto simp: in_set_conv_nth)
    then show False using si(2)[of i] by simp
  qed
  have k0: "kept w idx = take TOP_K idx"
    using pos w(2) by (auto simp: kept_def filter_id_conv dest: in_set_takeD)
  have kept: "kept w idx2 = greedy (\<lambda>n m. flt thr (overlap_at (cd_boxes c) n m)) (take TOP_K idx)"
    unfolding idx2_def using nms_kept(1)[of w idx "cd_classId c" 0] w(1) len c0 k0 by simp
  have ent: "0 \<le> idx2 ! i \<and> nat (idx2 ! i) < v \<and> probs ! i = cd_objProbs c ! nat (idx2 ! i)"
    if "i < w" "idx2 ! i \<noteq> -1" for i
  proof -
    have "i < length idx" using that(1) w(1) len by simp
    then have "idx2 ! i = idx ! i" using er that(2) by (auto simp: erased_def)
    then show ?thesis using si(2)[of i] that w by simp
  qed
  have "w \<le> length idx2" using er w len by (simp add: erased_def)
  note loop = collect_loop[OF d c0 ent this, of label]
  have "select_and_collect [Some label] mh mw thr sw sh c v
      = foldo (collect_one [Some label] mh mw sw sh c probs idx2) [0..<w] (replicate 64 zero_result, 0)"
    by (simp add: select_and_collect_def q Let_def w_def idx2_def OBJ_CLASS_NUM_def OBJ_NUMB_MAX_SIZE_def)
  then have "select_and_collect [Some label] mh mw thr sw sh c v =
        (let rs = map (mk_result label mh mw sw sh c) (selection c thr idx)
         in Some (rs @ replicate (64 - length rs) zero_result, length rs))"
    using loop by (simp add: kept selection_def OBJ_NUMB_MAX_SIZE_def)
  moreover have "\<forall>i j. i < j \<and> j < v \<longrightarrow> fle (cd_objProbs c ! nat (idx ! j)) (cd_objProbs c ! nat (idx ! i))"
    using dec si(2) by (metis order_less_trans)
  ultimately show ?thesis using q si(1) by blast
qed

section \<open>The whole of \<open>post_process\<close>\<close>

text \<open>The inputs it is shown correct for.\<close>

definition ok_inputs :: "(fp \<Rightarrow> fp) \<Rightarrow> (fp \<Rightarrow> fp) \<Rightarrow> nat \<Rightarrow> nat \<Rightarrow> fp \<Rightarrow> fp \<Rightarrow> fp \<Rightarrow> int list \<Rightarrow> fp list \<Rightarrow> bool" where
  "ok_inputs expf logf mh mw conf sw sh zps scales \<longleftrightarrow>
     expf_ok expf \<and> logf_ok logf \<and> mh \<le> 4096 \<and> mw \<le> 4096 \<and> ok_threshold conf
     \<and> ok_ratio sw \<and> ok_ratio sh \<and> length zps = 3 \<and> length scales = 3
     \<and> list_all zp_ok zps \<and> list_all ok_scale scales"

lemma all_candidates_inv:
  assumes "ok_inputs expf logf mh mw conf sw sh zps scales"
  shows "\<exists>c v. all_candidates expf logf inputs mh mw conf zps scales = Some (c, v)
    \<and> cand_inv c \<and> v = int (length (cd_objProbs c))"
proof -
  have ok: "expf_ok expf" "logf_ok logf" "mh \<le> 4096" "mw \<le> 4096" "ok_threshold conf"
    using assms by (auto simp: ok_inputs_def)
  have zps: "zp_ok (zps ! k)" and scs: "ok_scale (scales ! k)" if "k < 3" for k
    using assms that by (auto simp: ok_inputs_def list_all_length)
  have g: "mh div k \<le> 2 ^ 16" "mw div k \<le> 2 ^ 16" for k
  proof -
    have "mh div k \<le> 65536" using ok(3) div_le_dividend[of mh k] by linarith
    moreover have "mw div k \<le> 65536" using ok(4) div_le_dividend[of mw k] by linarith
    ultimately show "mh div k \<le> 2 ^ 16" "mw div k \<le> 2 ^ 16" by simp_all
  qed
  have p: "\<exists>c' v. process expf logf inp (mh div s) (mw div s) (int s) c conf (zps ! k) (scales ! k) = Some (c', v)
      \<and> cand_inv c' \<and> int (length (cd_objProbs c')) = int (length (cd_objProbs c)) + v \<and> 0 \<le> v"
    if "cand_inv c" "k < 3" "0 < s" "s \<le> 32" for inp c k s
    using that by (intro process_inv ok scs zps g) auto
  have "cand_inv no_candidates" by (simp add: cand_inv_def no_candidates_def)
  from p[OF this, of 0 8 "inputs ! 0"] obtain c0 v0 where
    p0: "process expf logf (inputs ! 0) (mh div 8) (mw div 8) 8 no_candidates conf (zps ! 0) (scales ! 0) = Some (c0, v0)"
    "cand_inv c0" "int (length (cd_objProbs c0)) = v0" by (auto simp: no_candidates_def)
  from p[OF p0(2), of 1 16 "inputs ! 1"] obtain c1 v1 where
    p1: "process expf logf (inputs ! 1) (mh div 16) (mw div 16) 16 c0 conf (zps ! 1) (scales ! 1) = Some (c1, v1)"
    "cand_inv c1" "int (length (cd_objProbs c1)) = v0 + v1" using p0(3) by auto
  from p[OF p1(2), of 2 32 "inputs ! 2"] obtain c2 v2 where
    p2: "process expf logf (inputs ! 2) (mh div 32) (mw div 32) 32 c1 conf (zps ! 2) (scales ! 2) = Some (c2, v2)"
    "cand_inv c2" "int (length (cd_objProbs c2)) = v0 + v1 + v2" using p1(3) by auto
  show ?thesis using p0 p1 p2 by (simp add: all_candidates_def)
qed

lemma post_process_unfold:
  assumes ok: "ok_inputs expf logf mh mw conf sw sh zps scales"
    and load: "pp_load file st = (0, st')" "pp_labels st' = [Some label]"
  shows "\<exists>c v idx. all_candidates expf logf inputs mh mw conf zps scales = Some (c, int v)
    \<and> cand_inv c \<and> v = length (cd_objProbs c) \<and> mset idx = mset (map int [0..<v])
    \<and> (\<forall>i j. i < j \<and> j < v \<longrightarrow> fle (cd_objProbs c ! nat (idx ! j)) (cd_objProbs c ! nat (idx ! i)))
    \<and> post_process expf logf file inputs mh mw conf thr sw sh zps scales grp st =
       (let rs = map (mk_result label mh mw sw sh c) (selection c thr idx)
        in Some (0, zero_group\<lparr>dg_count := int (length rs),
                               dg_results := rs @ replicate (64 - length rs) zero_result\<rparr>, st'))"
proof -
  obtain c v where ac: "all_candidates expf logf inputs mh mw conf zps scales = Some (c, int v)"
    "cand_inv c" "v = length (cd_objProbs c)"
    using all_candidates_inv[OF ok, of inputs] by auto
  have d: "mh \<le> 4096" "mw \<le> 4096" "ok_ratio sw" "ok_ratio sh" using ok by (auto simp: ok_inputs_def)
  from select_and_collect_spec[OF ac(2,3) d, of label thr] obtain probs idx where
    ms: "mset idx = mset (map int [0..<v])"
    and dec: "\<forall>i j. i < j \<and> j < v \<longrightarrow> fle (cd_objProbs c ! nat (idx ! j)) (cd_objProbs c ! nat (idx ! i))"
    and sel: "select_and_collect [Some label] mh mw thr sw sh c v =
        (let rs = map (mk_result label mh mw sw sh c) (selection c thr idx)
         in Some (rs @ replicate (64 - length rs) zero_result, length rs))"
    by blast
  have "post_process expf logf file inputs mh mw conf thr sw sh zps scales grp st =
       (let rs = map (mk_result label mh mw sw sh c) (selection c thr idx)
        in Some (0, zero_group\<lparr>dg_count := int (length rs),
                               dg_results := rs @ replicate (64 - length rs) zero_result\<rparr>, st'))"
  proof (cases "v = 0")
    case True
    then have "idx = []" using ms by simp
    then show ?thesis using True ac(1) load
      by (simp add: post_process_def selection_def zero_group_def OBJ_NUMB_MAX_SIZE_def)
  next
    case False
    then show ?thesis using ac(1) load sel by (simp add: post_process_def Let_def)
  qed
  with ac ms dec show ?thesis by blast
qed

text \<open>One result record.\<close>

definition result_ok :: "string \<Rightarrow> nat \<Rightarrow> nat \<Rightarrow> fp \<Rightarrow> fp \<Rightarrow> detect_result \<Rightarrow> bool" where
  "result_ok label mh mw sw sh r \<longleftrightarrow>
     dr_name r = strncpy label OBJ_NAME_MAX_SIZE \<and> unit_prob (dr_prop r)
     \<and> 0 \<le> sint (dr_left r) \<and> sint (dr_left r) \<le> sint (dr_right r) \<and> sint (dr_right r) \<le> image_max mw sw
     \<and> 0 \<le> sint (dr_top r) \<and> sint (dr_top r) \<le> sint (dr_bottom r) \<and> sint (dr_bottom r) \<le> image_max mh sh"

lemma mk_result_ok:
  assumes c: "cand_inv c" and n: "n < length (cd_objProbs c)"
    and d: "mh \<le> 4096" "mw \<le> 4096" "ok_ratio sw" "ok_ratio sh"
  shows "result_ok label mh mw sw sh (mk_result label mh mw sw sh c (int n))"
proof -
  have i: "nat (int n * 4) = 4 * n" "nat (int n * 4 + 1) = 4 * n + 1" "nat (int n * 4 + 2) = 4 * n + 2"
    "nat (int n * 4 + 3) = 4 * n + 3" by linarith+
  have o1: "fle (cd_boxes c ! (4 * n)) (cd_boxes c ! (4 * n + 2))"
    and o2: "fle (cd_boxes c ! (4 * n + 1)) (cd_boxes c ! (4 * n + 3))"
    and u: "unit_prob (cd_objProbs c ! n)"
    using c n by (auto simp: cand_inv_def)
  have s: "sint (i32 (image_of x mw sw)) = image_of x mw sw" "sint (i32 (image_of x mh sh)) = image_of x mh sh" for x
    using to_image_eq(2,3)[OF d(2,3), of x] to_image_eq(2,3)[OF d(1,4), of x]
      to_image_eq(4)[OF d(2,3)] to_image_eq(4)[OF d(1,4)]
    by (simp_all add: sint_i32_of_int)
  show ?thesis
    using to_image_eq(2,3)[OF d(2,3)] to_image_eq(2,3)[OF d(1,4)] u
      to_image_eq(5)[OF d(2,3) o1] to_image_eq(5)[OF d(1,4) o2]
    by (simp add: result_ok_def mk_result_def i s)
qed

lemma sorted_wrt_subseq: "subseq xs ys \<Longrightarrow> sorted_wrt P ys \<Longrightarrow> sorted_wrt P xs"
proof (induction rule: list_emb.induct)
  case (list_emb_Cons2 x y xs ys)
  then show ?case using set_subseq[of xs ys] by auto
qed auto

lemma subseq_take: "subseq (take n xs) xs"
  by (rule prefix_imp_subseq[OF take_is_prefix])

text \<open>The best candidate is never suppressed, so a null label is met at the first result.\<close>

lemma nms_first:
  assumes "0 < v" "v \<le> length order" "\<forall>k<v. classIds ! k = c"
  shows "nms v boxes classIds order c t ! 0 = order ! 0"
proof -
  let ?o = "nms_outer v boxes classIds c t 0 order"
  have o: "take 1 ?o = take 1 order" "length ?o = length order"
    using nms_outer_suffix(1,2)[of 0 v order classIds c boxes t] assms by simp_all
  have "take 1 (fold (nms_outer v boxes classIds c t) [1..<v] ?o) = take 1 ?o"
    using nms_from[of 1 v ?o classIds c boxes t] assms o by auto
  then have "take 1 (nms v boxes classIds order c t) = take 1 order"
    using assms o by (simp add: nms_def upt_conv_Cons)
  then show ?thesis by (metis nth_take zero_less_one)
qed

lemma select_no_label:
  assumes c: "cand_inv c" "v = length (cd_objProbs c)" "0 < v"
    and d: "mh \<le> 4096" "mw \<le> 4096" "ok_ratio sw" "ok_ratio sh"
  shows "select_and_collect [None] mh mw thr sw sh c v = None"
proof -
  have "NaN \<notin> set (cd_objProbs c)"
    using c by (auto simp: cand_inv_def unit_prob_def)
  from quick_sort_all[of "map int [0..<v]" "cd_objProbs c", OF _ this]
  obtain probs idx where q: "quick_sort 0 (int v - 1) (cd_objProbs c) (map int [0..<v]) = Some (probs, idx)"
    and len: "length probs = v" "length idx = v"
    and ms: "mset (zip probs idx) = mset (zip (cd_objProbs c) (map int [0..<v]))"
    by (auto simp: c(2))
  note si = sorted_indices[OF ms c(2)[symmetric] len]
  define w where "w = (if TOP_K < v then TOP_K else v)"
  have w: "0 < w" "w \<le> v" using c(3) by (auto simp: w_def TOP_K_def)
  have c0: "\<forall>n<v. cd_classId c ! n = 0" using c by (simp add: cand_inv_def)
  define idx2 where "idx2 = nms w (cd_boxes c) (cd_classId c) idx 0 thr"
  have "idx2 ! 0 = idx ! 0"
    unfolding idx2_def using w len c0 by (intro nms_first) auto
  with si(2)[of 0] c(3) have i0: "0 \<le> idx2 ! 0" "nat (idx2 ! 0) < v" by auto
  have "collect_one [None] mh mw sw sh c probs idx2 0 (replicate 64 zero_result, 0) = None"
    using i0 c0 by (simp add: collect_one_def OBJ_NUMB_MAX_SIZE_def Let_def
        to_image_eq(1)[OF d(2) d(3)] to_image_eq(1)[OF d(1) d(4)])
  then have "foldo (collect_one [None] mh mw sw sh c probs idx2) [0..<w] (replicate 64 zero_result, 0) = None"
    using w by (simp add: upt_conv_Cons)
  then show ?thesis
    by (simp add: select_and_collect_def q Let_def w_def[symmetric] idx2_def OBJ_CLASS_NUM_def OBJ_NUMB_MAX_SIZE_def)
qed

section \<open>Properties\<close>

text \<open>C35: the DFL decoding of a cell is defined and every side is a finite distance between 0 and
  16 strides, rounding included, for any 64 quantised values and any dequantisation scale up to
  1/4.\<close>

theorem decode_box4_bounds:
  assumes "ok_scale scale"
  shows "\<exists>d. decode_box4 x scale = Some d \<and> length d = 4
    \<and> (\<forall>s<4. is_fin (d ! s) \<and> 0 \<le> fval (d ! s) \<and> fval (d ! s) \<le> 16)"
  using decode_box4_range[OF assms, of x] by (auto simp: fin_in_def)

theorem decode_box4_bounds_witness:
  "\<exists>d. decode_box4 (replicate 64 (-1)) (Fin (1/8)) = Some d \<and> length d = 4"
  using decode_box4_bounds[of "Fin (1/8)" "replicate 64 (-1)"] frepI[of 1 F32 "-3"]
  by (auto simp: ok_scale_def)

text \<open>C5: what \<open>post_process\<close> computes, for the documented ranges of its inputs and loaded labels:
  the candidates of the three heads are sorted by decreasing score, the best 200 are reduced by
  greedy non-maximum suppression, and the first 64 that remain become the results, in that
  order, each from its own candidate; the rest of the group is zero.\<close>

theorem post_process_selects:
  assumes "ok_inputs expf logf mh mw conf sw sh zps scales"
    and "pp_load label_file st = (0, st')" "pp_labels st' = [Some label]"
  shows "\<exists>c v idx. all_candidates expf logf inputs mh mw conf zps scales = Some (c, int v)
    \<and> mset idx = mset (map int [0..<v])
    \<and> (\<forall>i j. i < j \<and> j < v \<longrightarrow> fle (cd_objProbs c ! nat (idx ! j)) (cd_objProbs c ! nat (idx ! i)))
    \<and> post_process expf logf label_file inputs mh mw conf thr sw sh zps scales grp st =
       (let rs = map (mk_result label mh mw sw sh c) (selection c thr idx)
        in Some (0, zero_group\<lparr>dg_count := int (length rs),
                               dg_results := rs @ replicate (64 - length rs) zero_result\<rparr>, st'))"
  using post_process_unfold[OF assms, of inputs thr grp] by blast

lemma post_process_good:
  assumes "ok_inputs expf logf mh mw conf sw sh zps scales"
    and "pp_load label_file st = (0, st')" "pp_labels st' = [Some label]"
  shows "\<exists>g. post_process expf logf label_file inputs mh mw conf thr sw sh zps scales grp st = Some (0, g, st')
    \<and> wf_group g
    \<and> (\<forall>r\<in>set (take (nat (dg_count g)) (dg_results g)).
          dr_name r = strncpy label 16 \<and> unit_prob (dr_prop r)
          \<and> 0 \<le> sint (dr_left r) \<and> sint (dr_left r) \<le> sint (dr_right r) \<and> sint (dr_right r) \<le> image_max mw sw
          \<and> 0 \<le> sint (dr_top r) \<and> sint (dr_top r) \<le> sint (dr_bottom r) \<and> sint (dr_bottom r) \<le> image_max mh sh)
    \<and> sorted_wrt (\<lambda>r s. fle (dr_prop s) (dr_prop r)) (take (nat (dg_count g)) (dg_results g))"
proof -
  have d: "mh \<le> 4096" "mw \<le> 4096" "ok_ratio sw" "ok_ratio sh" using assms(1) by (auto simp: ok_inputs_def)
  from post_process_unfold[OF assms, of inputs thr grp] obtain c v idx where
    c: "cand_inv c" "v = length (cd_objProbs c)" and ms: "mset idx = mset (map int [0..<v])"
    and dec: "\<forall>i j. i < j \<and> j < v \<longrightarrow> fle (cd_objProbs c ! nat (idx ! j)) (cd_objProbs c ! nat (idx ! i))"
    and pp: "post_process expf logf label_file inputs mh mw conf thr sw sh zps scales grp st =
       (let rs = map (mk_result label mh mw sw sh c) (selection c thr idx)
        in Some (0, zero_group\<lparr>dg_count := int (length rs),
                               dg_results := rs @ replicate (64 - length rs) zero_result\<rparr>, st'))"
    by blast
  define sel where "sel = selection c thr idx"
  define rs where "rs = map (mk_result label mh mw sw sh c) sel"
  have sub: "subseq sel idx"
    unfolding sel_def selection_def
    by (meson greedy_subseq subseq_order.order_trans subseq_take)
  have len: "length rs \<le> 64" by (simp add: rs_def sel_def selection_def OBJ_NUMB_MAX_SIZE_def)
  have ok: "result_ok label mh mw sw sh r" if "r \<in> set rs" for r
  proof -
    from that obtain n where n: "n \<in> set idx" "r = mk_result label mh mw sw sh c n"
      using set_subseq[OF sub] by (auto simp: rs_def)
    then obtain k where "k < length (cd_objProbs c)" "n = int k"
      using ms c(2) by (metis (no_types, lifting) atLeastLessThan_iff imageE list.set_map set_mset_mset set_upt)
    then show ?thesis using mk_result_ok[OF c(1) _ d] n(2) by simp
  qed
  have "sorted_wrt (\<lambda>n m. fle (cd_objProbs c ! nat m) (cd_objProbs c ! nat n)) idx"
    using dec mset_eq_length[OF ms] by (auto simp: sorted_wrt_iff_nth_less)
  from sorted_wrt_subseq[OF sub this]
  have srt: "sorted_wrt (\<lambda>r s. fle (dr_prop s) (dr_prop r)) rs"
    by (simp add: rs_def sorted_wrt_map mk_result_def)
  let ?g = "zero_group\<lparr>dg_count := int (length rs), dg_results := rs @ replicate (64 - length rs) zero_result\<rparr>"
  have "wf_group ?g"
    using len ok by (auto simp: wf_group_def OBJ_NUMB_MAX_SIZE_def result_ok_def unit_prob_def
        zero_result_def OBJ_NAME_MAX_SIZE_def)
  moreover have "post_process expf logf label_file inputs mh mw conf thr sw sh zps scales grp st = Some (0, ?g, st')"
    using pp by (simp add: Let_def rs_def sel_def)
  ultimately show ?thesis using ok srt
    by (intro exI[of _ ?g]) (auto simp: result_ok_def OBJ_NAME_MAX_SIZE_def)
qed


text \<open>A concrete instance: one 8x8 head with one cell, a one-line label file.\<close>

definition expf0 :: "fp \<Rightarrow> fp" where
  "expf0 x = (case x of NaN \<Rightarrow> NaN | Inf True \<Rightarrow> Fin 0 | Inf False \<Rightarrow> Inf False | _ \<Rightarrow> Fin 1)"

definition logf0 :: "fp \<Rightarrow> fp" where
  "logf0 x = (case x of NaN \<Rightarrow> NaN | Inf True \<Rightarrow> NaN | Inf False \<Rightarrow> Inf False | _ \<Rightarrow> Fin 0)"

definition loaded :: pp_state where
  "loaded = \<lparr>pp_init = 0, pp_labels = [Some ''uav'']\<rparr>"

lemma sample_inputs:
  "ok_inputs expf0 logf0 8 8 (Fin (1/2)) (Fin 1) (Fin 1) [0, 0, 0] [Fin (1/8), Fin (1/8), Fin (1/8)]"
proof -
  have "fle (Fin 0) (expf0 x)" if "x \<noteq> NaN" for x
    using that by (cases x) (auto simp: expf0_def split: bool.splits)
  moreover have "logf0 x \<noteq> NaN" if "fle (Fin 0) x" for x
    using that by (cases x) (auto simp: logf0_def split: bool.splits)
  ultimately show ?thesis
    using frepI[of 1 F32 "-3"]
    by (auto simp: ok_inputs_def expf_ok_def logf_ok_def ok_threshold_def ok_ratio_def zp_ok_def ok_scale_def)
qed

lemma sample_load: "pp_load (Some (''uav'' @ [CHR 0x0A])) pp_start = (0, loaded)"
  by (simp add: pp_load_def pp_start_def loaded_def loadLabelName_def readLines_def readLines_loop.simps
      readLine_def OBJ_CLASS_NUM_def)

theorem post_process_selects_witness:
  "\<exists>c v. all_candidates expf0 logf0 [replicate 65 1, [], []] 8 8 (Fin (1/2)) [0, 0, 0] [Fin (1/8), Fin (1/8), Fin (1/8)]
     = Some (c, int v)"
  using post_process_selects[OF sample_inputs sample_load, of "''uav''" "[replicate 65 1, [], []]" "Fin (1/2)" zero_group]
  unfolding loaded_def by (simp only: pp_state.simps) blast


text \<open>A label file that cannot be opened is not noticed: \<open>loadLabelName\<close> reports success, and
  the first frame with a candidate dereferences the null label, which is undefined behaviour.\<close>

theorem post_process_missing_labels:
  assumes "ok_inputs expf logf mh mw conf sw sh zps scales"
    and "all_candidates expf logf inputs mh mw conf zps scales = Some (c, v)" "0 < v"
  shows "fst (pp_load None pp_start) = 0
    \<and> post_process expf logf None inputs mh mw conf thr sw sh zps scales grp pp_start = None"
proof -
  have d: "mh \<le> 4096" "mw \<le> 4096" "ok_ratio sw" "ok_ratio sh" using assms(1) by (auto simp: ok_inputs_def)
  have load: "pp_load None pp_start = (0, \<lparr>pp_init = 0, pp_labels = [None]\<rparr>)"
    by (simp add: pp_load_def pp_start_def loadLabelName_def readLines_def OBJ_CLASS_NUM_def)
  have c: "cand_inv c" "nat v = length (cd_objProbs c)"
    using all_candidates_inv[OF assms(1), of inputs] assms(2) by auto
  have "select_and_collect [None] mh mw thr sw sh c (nat v) = None"
    using assms(3) by (intro select_no_label c d) simp
  then show ?thesis using assms(2,3) by (simp add: post_process_def load)
qed

lemma sample_threshold: "qnt_f32_to_affine (unsigmoid logf0 (Fin (1/2))) 0 (Fin (1/8)) = Some 0"
  by (simp add: qnt_f32_to_affine_def unsigmoid_def logf0_def clip32_def fp_eval rtrunc_def)

lemma sample_candidate:
  "\<exists>c. all_candidates expf0 logf0 [replicate 65 1, [], []] 8 8 (Fin (1/2)) [0, 0, 0]
    [Fin (1/8), Fin (1/8), Fin (1/8)] = Some (c, 1)"
proof -
  have "ok_scale (Fin (1/8))" using frepI[of 1 F32 "-3"] by (simp add: ok_scale_def)
  from decode_box4_range[OF this] obtain d where d: "decode_box4 (replicate 64 1) (Fin (1/8)) = Some d" by blast
  have bc: "best_class (replicate 65 1) 0 0 = (1, 0)"
    by (simp add: best_class_def OBJ_CLASS_NUM_def cell_size_def)
  show ?thesis
    by (simp add: all_candidates_def process_def sample_threshold process_cell_def Let_def bc
        OBJ_CLASS_NUM_def cell_size_def d)
qed

theorem post_process_missing_labels_witness:
  "post_process expf0 logf0 None [replicate 65 1, [], []] 8 8 (Fin (1/2)) (Fin (1/2))
      (Fin 1) (Fin 1) [0, 0, 0] [Fin (1/8), Fin (1/8), Fin (1/8)] zero_group pp_start = None"
  using sample_candidate post_process_missing_labels[OF sample_inputs] by fastforce

text \<open>The bound on the scale is needed: with a coarse scale the exponentials of a side can all
  underflow to 0, although the comment on \<open>fast_expf\<close> says the bits are always positive for the
  arguments it is called with, and the side is then 0/0, a NaN.\<close>

theorem decode_side_coarse_NaN:
  "let x = replicate 16 127 @ replicate 48 (-128)
   in fast_expf (fmul F32 (fof_int F32 (sint (x ! 16) - sint (decode_max x))) (Fin (1/2))) = Some (Fin 0)
    \<and> decode_side x (decode_max x) (Fin (1/2)) 1 = Some NaN"
proof -
  let ?x = "replicate 16 127 @ replicate 48 (-128) :: i8 list"
  have m: "decode_max ?x = 127" by code_simp
  have s: "sint (127 :: i8) = 127" "sint (-128 :: i8) = -128" by code_simp+
  have nth: "?x ! (16 + k) = -128" if "k < 16" for k
    using that by (simp add: nth_append)
  have e: "fast_expf (fmul F32 (fof_int F32 (-255)) (Fin (1/2))) = Some (Fin 0)"
  proof -
    have "fmul F32 (fof_int F32 (-255)) (Fin (1/2)) = Fin (-255/2)" by code_simp
    moreover
    have b: "bound F32 (-2147483648)" "bound F32 (-1207959552)"
      using frepI[of "-1" F32 31] frepI[of "-9" F32 27] by (simp_all add: bound_def)
    have "fin_in (-2147483648) (-1207959552) (fmul F32 (Fin 12102203) (Fin (-255/2)))"
      using b by (auto simp: fmul_fin intro!: fround_bounds(1))
    then have "fin_in (of_int (-2147483648)) (of_int (-1207959552)) (fmul F32 (Fin 12102203) (Fin (-255/2)))"
      by simp
    note t = fto_int_fin[OF this]
    ultimately show ?thesis using t by (simp add: fast_expf_def Let_def)
  qed
  let ?f = "\<lambda>k (sum, output).
      map_option (\<lambda>e. (fadd F32 sum e, fadd F32 output (fmul F32 (fof_int F32 (int k)) e)))
        (fast_expf (fmul F32 (fof_int F32 (sint (?x ! (1 * 16 + k)) - sint (127 :: i8))) (Fin (1/2))))"
  have "\<exists>r. foldo ?f [0..<16] (Fin 0, Fin 0) = Some r \<and> r = (Fin 0, Fin 0)"
  proof (rule foldo_upt)
    fix k r assume k: "k < (16::nat)" and r: "r = (Fin 0, Fin 0)"
    have "fof_int F32 (int k) = Fin (of_nat k)" using k fof_int_exact[of "int k" F32] by simp
    then show "\<exists>r'. ?f k r = Some r' \<and> r' = (Fin 0, Fin 0)"
      using nth[OF k] by (simp add: r s e fround_0)
  qed simp_all
  then have "decode_side ?x 127 (Fin (1/2)) 1 = Some NaN" by (simp add: decode_side_def)
  moreover have "?x ! 16 = -128" using nth[of 0] by simp
  ultimately show ?thesis using e by (simp add: Let_def m s)
qed

end
