(* ===== verification/TS_Queue.thy ===== *)
theory TS_Queue
  imports Prelude
begin

text \<open>
  The unbounded queues between the threads of the pipeline (\<open>src/main.cc\<close>): \<open>TSQueue\<close> and the
  free list of \<open>BufPool\<close>. Each operation is one atomic step under the queue's mutex. A \<open>pop\<close> or
  \<open>acquire\<close> that has to wait on its condition variable is \<open>None\<close>: the thread does not move.
\<close>

section \<open>TSQueue\<close>

type_synonym 'a tsqueue = "'a list"

definition tsq_push :: "'a \<Rightarrow> 'a tsqueue \<Rightarrow> 'a tsqueue" where
  "tsq_push v q = q @ [v]"

definition tsq_pop :: "'a tsqueue \<Rightarrow> ('a \<times> 'a tsqueue) option" where
  "tsq_pop q = (case q of [] \<Rightarrow> None | v # q' \<Rightarrow> Some (v, q'))"

section \<open>The frame-buffer pool\<close>

definition N_THREADS :: nat where "N_THREADS = 3"
definition N_BUF :: nat where "N_BUF = N_THREADS + 2"

text \<open>The pixels of a buffer, and the pool: for each slot the display and the model buffer, and
  the free slots.\<close>

record buf_pool =
  bp_display :: "bytes list"
  bp_model :: "bytes list"
  bp_free :: "int list"

definition pool_init :: "nat \<Rightarrow> nat \<Rightarrow> nat \<Rightarrow> buf_pool \<Rightarrow> buf_pool" where
  "pool_init display_size model_size n p =
     fold (\<lambda>i p. p\<lparr>bp_display := bp_display p @ [replicate display_size 0],
                    bp_model := bp_model p @ [replicate model_size 0],
                    bp_free := bp_free p @ [int i]\<rparr>) [0..<n] p"

definition pool_acquire :: "buf_pool \<Rightarrow> (int \<times> buf_pool) option" where
  "pool_acquire p = (case bp_free p of [] \<Rightarrow> None | idx # rest \<Rightarrow> Some (idx, p\<lparr>bp_free := rest\<rparr>))"

definition pool_release :: "int \<Rightarrow> buf_pool \<Rightarrow> buf_pool" where
  "pool_release idx p = p\<lparr>bp_free := bp_free p @ [idx]\<rparr>"

definition empty_pool :: buf_pool where
  "empty_pool = \<lparr>bp_display = [], bp_model = [], bp_free = []\<rparr>"

lemma pool_init_state:
  "pool_init ds ms n p = p\<lparr>bp_display := bp_display p @ replicate n (replicate ds 0),
     bp_model := bp_model p @ replicate n (replicate ms 0), bp_free := bp_free p @ map int [0..<n]\<rparr>"
  unfolding pool_init_def
proof (induction n)
  case (Suc n)
  have "replicate (Suc n) x = replicate n x @ [x]" for x :: bytes
    by (simp add: replicate_append_same)
  then show ?case by (simp add: Suc)
qed simp

section \<open>First in, first out\<close>

datatype 'a fifo_op = Put 'a | Take

text \<open>A run of operations: what was taken and the final queue; a \<open>Take\<close> that would wait stops
  the run.\<close>

primrec fifo_run ::
  "('a \<Rightarrow> 's \<Rightarrow> 's) \<Rightarrow> ('s \<Rightarrow> ('a \<times> 's) option) \<Rightarrow> 'a fifo_op list \<Rightarrow> 's \<Rightarrow> ('a list \<times> 's) option" where
  "fifo_run put get [] q = Some ([], q)"
| "fifo_run put get (e # es) q =
     (case e of
        Put x \<Rightarrow> fifo_run put get es (put x q)
      | Take \<Rightarrow> (case get q of
          None \<Rightarrow> None
        | Some (x, q') \<Rightarrow> map_option (\<lambda>(out, q''). (x # out, q'')) (fifo_run put get es q')))"

primrec puts :: "'a fifo_op list \<Rightarrow> 'a list" where
  "puts [] = []"
| "puts (e # es) = (case e of Put x \<Rightarrow> x # puts es | Take \<Rightarrow> puts es)"

locale fifo =
  fixes items :: "'s \<Rightarrow> 'a list"
    and put :: "'a \<Rightarrow> 's \<Rightarrow> 's"
    and get :: "'s \<Rightarrow> ('a \<times> 's) option"
  assumes items_put: "items (put x q) = items q @ [x]"
    and get_None: "get q = None \<longleftrightarrow> items q = []"
    and get_Some: "get q = Some (x, q') \<Longrightarrow> items q = x # items q'"
begin

lemma run_order: "fifo_run put get es q = Some (out, q') \<Longrightarrow> out @ items q' = items q @ puts es"
proof (induction es arbitrary: q out)
  case (Cons e es)
  show ?case
  proof (cases e)
    case (Put x)
    with Cons show ?thesis by (auto simp: items_put)
  next
    case Take
    with Cons.prems obtain x q1 out' where g: "get q = Some (x, q1)"
      and r: "fifo_run put get es q1 = Some (out', q')" and o: "out = x # out'"
      by (auto split: option.splits)
    from get_Some[OF g] Cons.IH[OF r] Take o show ?thesis by simp
  qed
qed simp

lemma run_waits:
  assumes "fifo_run put get es q = Some (out, q')"
  shows "fifo_run put get (es @ [Take]) q = None \<longleftrightarrow> length out = length (items q) + length (puts es)"
proof -
  have app: "fifo_run put get (es @ [Take]) q = None \<longleftrightarrow> get q' = None"
    using assms
  proof (induction es arbitrary: q out)
    case Nil
    then show ?case by (auto split: option.splits)
  next
    case (Cons e es)
    then show ?case by (cases e) (auto split: option.splits)
  qed
  from run_order[OF assms] have "length out + length (items q') = length (items q) + length (puts es)"
    by (metis length_append)
  then show ?thesis by (auto simp: app get_None)
qed

end

lemma tsq_pop_Some [fifo_simps]: "tsq_pop q = Some (x, q') \<longleftrightarrow> q = x # q'"
  by (cases q) (auto simp: tsq_pop_def)

lemma tsq_pop_None [fifo_simps]: "tsq_pop q = None \<longleftrightarrow> q = []"
  by (cases q) (auto simp: tsq_pop_def)

interpretation tsq: fifo "\<lambda>q. q" tsq_push tsq_pop
  by unfold_locales (auto simp: tsq_push_def fifo_simps)

lemma pool_acquire_Some [fifo_simps]:
  "pool_acquire p = Some (idx, p') \<longleftrightarrow> bp_free p = idx # bp_free p' \<and> p' = p\<lparr>bp_free := bp_free p'\<rparr>"
  by (cases "bp_free p"; cases p; cases p') (auto simp: pool_acquire_def)

lemma pool_acquire_None [fifo_simps]: "pool_acquire p = None \<longleftrightarrow> bp_free p = []"
  by (auto simp: pool_acquire_def split: list.splits)

interpretation pool: fifo bp_free pool_release pool_acquire
  by unfold_locales (auto simp: pool_release_def fifo_simps)

section \<open>Property\<close>

text \<open>Whatever producers and consumers do, a \<open>TSQueue\<close> delivers exactly what was pushed, each
  item once and in order, and a \<open>pop\<close> waits only when everything pushed has been delivered; the
  pool hands out its free slots in the order they were returned, in the same way.\<close>

theorem queues_are_fifo:
  assumes "fifo_run tsq_push tsq_pop es q = Some (out, q')"
    and "fifo_run pool_release pool_acquire fs p = Some (idxs, p')"
  shows "out @ q' = q @ puts es \<and> idxs @ bp_free p' = bp_free p @ puts fs
    \<and> (fifo_run tsq_push tsq_pop (es @ [Take]) q = None \<longleftrightarrow> length out = length q + length (puts es))
    \<and> (fifo_run pool_release pool_acquire (fs @ [Take]) p = None
        \<longleftrightarrow> length idxs = length (bp_free p) + length (puts fs))"
  using tsq.run_order[OF assms(1)] pool.run_order[OF assms(2)] tsq.run_waits[OF assms(1)]
    pool.run_waits[OF assms(2)] by simp

theorem queues_are_fifo_witness:
  "fifo_run pool_release pool_acquire [Take, Take, Put 0, Take] (pool_init 0 0 3 empty_pool)
     = Some ([0, 1, 2], \<lparr>bp_display = [[], [], []], bp_model = [[], [], []], bp_free = [0]\<rparr>)
   \<and> length [0, 1, 2 :: int] + length [0 :: int] = length [0, 1, 2 :: int] + length [0 :: int]"
proof -
  have q: "fifo_run tsq_push tsq_pop [Put (5::nat), Take] [] = Some ([5], [])" by code_simp
  have p: "fifo_run pool_release pool_acquire [Take, Take, Put 0, Take] (pool_init 0 0 3 empty_pool)
     = Some ([0, 1, 2], \<lparr>bp_display = [[], [], []], bp_model = [[], [], []], bp_free = [0]\<rparr>)"
    by code_simp
  from queues_are_fifo[OF q p] p show ?thesis by simp
qed

end
