(* ===== verification/Pipeline.thy ===== *)
theory Pipeline
  imports Control Rga_Draw Postprocess TS_Queue "HOL-Library.Multiset"
begin

text \<open>
  The threads of \<open>src/main.cc\<close> as a transition system: the main thread (capture, blackout
  handling, display, publishing, teardown), the three inference threads, the control thread and
  the sender thread. One step is one access to what threads share (a queue or pool operation, a
  flag, the lifecycle mutex) with the thread-local work around it. A step is \<open>Blocked\<close> when its
  thread waits, and \<open>Undefined\<close> when the code has undefined behaviour.
\<close>

section \<open>What the pipeline calls\<close>

text \<open>The driver and library calls are fields of the environment: the colour conversion and the
  resize of the RGA, the output tensors of the network on an input image, the results of
  \<open>rknn_dup_context\<close> on resume, the C library's \<open>expf\<close> and \<open>logf\<close>, the label file, and the
  model's dimensions and dequantisation parameters.\<close>

record env =
  en_bgr :: "bytes \<Rightarrow> image"
  en_resize :: "int \<Rightarrow> int \<Rightarrow> image \<Rightarrow> image"
  en_npu :: "image \<Rightarrow> i8 list list"
  en_dup_ok :: bool
  en_expf :: "fp \<Rightarrow> fp"
  en_logf :: "fp \<Rightarrow> fp"
  en_label_file :: "string option"
  en_model_w :: nat
  en_model_h :: nat
  en_zps :: "int list"
  en_scales :: "fp list"

text \<open>\<open>const float\<close> initialised with the literal \<open>0.45\<close>.\<close>

definition NMS_THRESH :: fp where "NMS_THRESH = fround F64 False (45 / 100)"
definition BOX_THRESH :: fp where "BOX_THRESH = fround F64 False (45 / 100)"
definition nms_threshold :: fp where "nms_threshold = fconv F32 NMS_THRESH"
definition box_conf_threshold :: fp where "box_conf_threshold = fconv F32 BOX_THRESH"

text \<open>Microseconds of a \<open>timeval\<close> as the \<open>double\<close> of \<open>__get_us\<close>, and its conversion to
  \<open>uint64_t\<close> (\<open>None\<close>: out of range, undefined behaviour).\<close>

definition get_us :: "int \<times> int \<Rightarrow> fp" where
  "get_us t = fof_int F64 (fst t * 1000000 + snd t)"

fun fto_u64 :: "fp \<Rightarrow> u64 option" where
  "fto_u64 (Fin v) = (if - 1 < v \<and> v < 2 ^ 64 then Some (word_of_int (if 0 \<le> v then \<lfloor>v\<rfloor> else 0)) else None)"
| "fto_u64 NZero = Some 0"
| "fto_u64 _ = None"

section \<open>State\<close>

record infer_job =
  ij_buf_idx :: int
  ij_scale_w :: fp
  ij_scale_h :: fp
  ij_frame_id :: u64
  ij_capture_us :: u64

record infer_result =
  ir_buf_idx :: int
  ir_group :: detect_result_group
  ir_frame_id :: u64
  ir_capture_us :: u64
  ir_infer_us :: u64

text \<open>Where an inference thread stands: before \<open>pop\<close>, before reading the enable flag, in the
  inference, before \<open>push\<close>, returned.\<close>

datatype worker = WIdle | WJob infer_job | WRun infer_job | WDone infer_result | WExit

text \<open>The three places that call \<open>capture_and_submit\<close>.\<close>

datatype caller = Prefill nat | Steady fp | Refill nat

text \<open>Where the main thread stands. \<open>Steady\<close>, \<open>MTake\<close> and the following carry \<open>start_time\<close>.\<close>

datatype main_pc =
    MAcquire caller | MCapture caller int | MStoreId caller
  | MLoop | MBlackout
  | MBoEnter | MBoDrain | MBoPop | MBoRelease int | MBoDestroy | MBoActive | MBoIdle | MBoWoken
  | MBoInit | MBoResumed | MBoClearB | MBoClearR
  | MTake fp | MDraw fp infer_result | MPublish fp infer_result | MRelease fp infer_result | MPerf fp
  | MStopCtrl | MJoinCtrl | MStopPub | MJoinPub | MSentinel nat | MJoinWorkers | MDeinit | MDone

text \<open>The control thread: in \<open>accept\<close>, at the test of \<open>running_\<close>, in \<open>read\<close>, waiting for the main
  thread, sending an answer, returned.\<close>

datatype ctrl_pc = CAccept | CTest | CRecv | CWait outcome | CSend string | CEnd

text \<open>The fields \<open>gh_\<close> record history and are read by no step: the captured frames, which of
  them each buffer holds, what was published for which frame with which picture shown, and the
  frames a blackout discarded.\<close>

record pipe =
  pi_ctl :: ctl_state
  pi_pool :: buf_pool
  pi_infer_q :: "infer_job list"
  pi_result_q :: "infer_result list"
  pi_workers :: "worker list"
  pi_ctxs :: "bool list" \<comment> \<open>which RKNN contexts exist\<close>
  pi_pp :: pp_state
  pi_pub :: publisher
  pi_main :: main_pc
  pi_in_flight :: int
  pi_frame_counter :: u64
  pi_n :: nat
  pi_total_time :: fp
  pi_running :: bool \<comment> \<open>\<open>running_\<close> of the control server\<close>
  pi_ctrl :: ctrl_pc
  gh_captured :: "bytes list"
  gh_tag :: "nat list"
  gh_log :: "(nat \<times> detection_message \<times> image) list"
  gh_drained :: "nat list"

text \<open>After the contexts, the pool, the threads and the two servers were set up; \<open>ctrl_ok\<close>: the
  control socket could be bound.\<close>

definition pipe_start :: "env \<Rightarrow> publisher \<Rightarrow> bool \<Rightarrow> pipe" where
  "pipe_start E pub ctrl_ok = \<lparr>pi_ctl = ctl_init,
     pi_pool = pool_init frame_size (en_model_w E * en_model_h E * 3) N_BUF empty_pool,
     pi_infer_q = [], pi_result_q = [], pi_workers = replicate N_THREADS WIdle,
     pi_ctxs = replicate N_THREADS True, pi_pp = pp_start, pi_pub = pub, pi_main = MAcquire (Prefill 0),
     pi_in_flight = 0, pi_frame_counter = 0, pi_n = 0, pi_total_time = Fin 0, pi_running = ctrl_ok,
     pi_ctrl = (if ctrl_ok then CAccept else CEnd), gh_captured = [], gh_tag = replicate N_BUF 0, gh_log = [], gh_drained = []\<rparr>"

datatype 'a turn = Blocked | Undefined | Go 'a

section \<open>The inference threads\<close>

text \<open>What \<open>inference_thread\<close> does with a job that is to be run: the context must exist; the group
  starts uninitialised (\<open>garbage\<close>).\<close>

definition infer :: "env \<Rightarrow> detect_result_group \<Rightarrow> u64 \<Rightarrow> bool \<Rightarrow> image \<Rightarrow> pp_state \<Rightarrow> infer_job
    \<Rightarrow> (infer_result \<times> pp_state) option" where
  "infer E garbage us ctx_exists img pp job =
     (if \<not> ctx_exists then None
      else map_option (\<lambda>(ret, grp, pp').
          (\<lparr>ir_buf_idx = ij_buf_idx job, ir_group = grp, ir_frame_id = ij_frame_id job,
            ir_capture_us = ij_capture_us job, ir_infer_us = us\<rparr>, pp'))
        (post_process (en_expf E) (en_logf E) (en_label_file E) (en_npu E img)
           (en_model_h E) (en_model_w E) box_conf_threshold nms_threshold
           (ij_scale_w job) (ij_scale_h job) (en_zps E) (en_scales E) garbage pp))"

definition paused_result :: "infer_job \<Rightarrow> infer_result" where
  "paused_result job = \<lparr>ir_buf_idx = ij_buf_idx job, ir_group = zero_group, ir_frame_id = ij_frame_id job,
     ir_capture_us = ij_capture_us job, ir_infer_us = 0\<rparr>"

definition worker_step :: "env \<Rightarrow> detect_result_group \<Rightarrow> u64 \<Rightarrow> nat \<Rightarrow> pipe \<Rightarrow> pipe turn" where
  "worker_step E garbage us i s =
     (let become = \<lambda>w. pi_workers_update (\<lambda>ws. ws[i := w])
      in case pi_workers s ! i of
        WIdle \<Rightarrow> (case tsq_pop (pi_infer_q s) of
            None \<Rightarrow> Blocked
          | Some (job, q) \<Rightarrow>
              Go (become (if ij_buf_idx job < 0 then WExit else WJob job) (s\<lparr>pi_infer_q := q\<rparr>)))
      | WJob job \<Rightarrow>
          Go (become (if ys_inference_enabled (pi_ctl s) then WRun job else WDone (paused_result job)) s)
      | WRun job \<Rightarrow>
          (case infer E garbage us (pi_ctxs s ! i) (bp_model (pi_pool s) ! nat (ij_buf_idx job)) (pi_pp s) job of
             None \<Rightarrow> Undefined
           | Some (res, pp) \<Rightarrow> Go (become (WDone res) (s\<lparr>pi_pp := pp\<rparr>)))
      | WDone res \<Rightarrow> Go (become WIdle (s\<lparr>pi_result_q := tsq_push res (pi_result_q s)\<rparr>))
      | WExit \<Rightarrow> Blocked)"

section \<open>The main thread\<close>

text \<open>What a step of the main thread reads from outside: the clock, the camera's frame, the result
  of \<open>rknn_init\<close>.\<close>

record input =
  in_tv :: "int \<times> int"
  in_frame :: bytes
  in_init_ok :: bool

text \<open>\<open>capture_and_submit\<close> after \<open>acquire\<close>: the frame is converted and resized into the slot's two
  buffers, and the job is pushed.\<close>

definition capture :: "env \<Rightarrow> input \<Rightarrow> caller \<Rightarrow> int \<Rightarrow> pipe \<Rightarrow> pipe turn" where
  "capture E inp c idx s =
     (case (fto_u64 (get_us (in_tv inp)), letterbox WIDTH HEIGHT (int (en_model_w E)) (int (en_model_h E))) of
        (Some us, Some (scale, rw, rh)) \<Rightarrow>
          let bgr = en_bgr E (in_frame inp);
              pool = (pi_pool s)\<lparr>bp_display := (bp_display (pi_pool s))[nat idx := bgr],
                                 bp_model := (bp_model (pi_pool s))[nat idx := en_resize E rw rh bgr]\<rparr>;
              job = \<lparr>ij_buf_idx = idx, ij_scale_w = scale, ij_scale_h = scale,
                     ij_frame_id = pi_frame_counter s, ij_capture_us = us\<rparr>
          in Go (s\<lparr>pi_pool := pool, pi_infer_q := tsq_push job (pi_infer_q s),
                   pi_frame_counter := pi_frame_counter s + 1, pi_main := MStoreId c,
                   gh_tag := (gh_tag s)[nat idx := length (gh_captured s)],
                   gh_captured := gh_captured s @ [in_frame inp]\<rparr>)
      | _ \<Rightarrow> Undefined)"

text \<open>Where the main thread goes on after \<open>capture_and_submit (); ++in_flight\<close>.\<close>

definition return_to :: "caller \<Rightarrow> main_pc" where
  "return_to c =
     (case c of
        Prefill i \<Rightarrow> if Suc i < N_THREADS then MAcquire (Prefill (Suc i)) else MLoop
      | Steady start \<Rightarrow> MPerf start
      | Refill i \<Rightarrow> if Suc i < N_THREADS then MAcquire (Refill (Suc i)) else MLoop)"

text \<open>\<open>rknn_destroy\<close> on every context; destroying one that does not exist is undefined.\<close>

definition destroy_ctxs :: "bool list \<Rightarrow> bool list option" where
  "destroy_ctxs ctxs = (if list_all id ctxs then Some (map (\<lambda>_. False) ctxs) else None)"

text \<open>The performance summary every ten frames.\<close>

definition perf :: "fp \<Rightarrow> fp \<Rightarrow> pipe \<Rightarrow> pipe" where
  "perf start stop s =
     (let total_time = fconv F32 (fadd F64 (pi_total_time s) (fdiv F64 (fsub F64 stop start) (Fin 1000)));
          n = Suc (pi_n s)
      in if n = 10
         then (let avg_ms = fdiv F32 total_time (Fin 10);
                   fps = fdiv F32 (Fin 1000) avg_ms
               in s\<lparr>pi_ctl := (pi_ctl s)\<lparr>ys_fps := fps\<rparr>, pi_total_time := Fin 0, pi_n := 0\<rparr>)
         else s\<lparr>pi_total_time := total_time, pi_n := n\<rparr>)"

text \<open>\<open>capture_and_submit\<close>, wherever it is called from.\<close>

definition capture_step :: "env \<Rightarrow> input \<Rightarrow> pipe \<Rightarrow> pipe turn" where
  "capture_step E inp s =
     (case pi_main s of
        MAcquire c \<Rightarrow>
          (case pool_acquire (pi_pool s) of
             None \<Rightarrow> Blocked
           | Some (idx, pool) \<Rightarrow> Go (s\<lparr>pi_pool := pool, pi_main := MCapture c idx\<rparr>))
      | MCapture c idx \<Rightarrow> capture E inp c idx s
      | MStoreId c \<Rightarrow>
          Go (s\<lparr>pi_ctl := (pi_ctl s)\<lparr>ys_frame_id := pi_frame_counter s\<rparr>,
                pi_in_flight := pi_in_flight s + 1, pi_main := return_to c\<rparr>)
      | _ \<Rightarrow> Blocked)"

text \<open>The blackout: drain, destroy the contexts, wait for the resume, set up again.\<close>

definition blackout_step :: "env \<Rightarrow> input \<Rightarrow> pipe \<Rightarrow> pipe turn" where
  "blackout_step E inp s =
     (case pi_main s of
        MBoEnter \<Rightarrow>
          Go (s\<lparr>pi_ctl := (pi_ctl s)\<lparr>ys_blackout_active := False, ys_resume_done := False\<rparr>,
                pi_main := MBoDrain\<rparr>)
      | MBoDrain \<Rightarrow> Go (s\<lparr>pi_main := if 0 < pi_in_flight s then MBoPop else MBoDestroy\<rparr>)
      | MBoPop \<Rightarrow>
          (case tsq_pop (pi_result_q s) of
             None \<Rightarrow> Blocked
           | Some (drain, q) \<Rightarrow>
               Go (s\<lparr>pi_result_q := q, pi_main := MBoRelease (ir_buf_idx drain),
                     gh_drained := gh_drained s @ [gh_tag s ! nat (ir_buf_idx drain)]\<rparr>))
      | MBoRelease idx \<Rightarrow>
          Go (s\<lparr>pi_pool := pool_release idx (pi_pool s), pi_in_flight := pi_in_flight s - 1,
                pi_main := MBoDrain\<rparr>)
      | MBoDestroy \<Rightarrow>
          (case destroy_ctxs (pi_ctxs s) of
             None \<Rightarrow> Undefined
           | Some ctxs \<Rightarrow> Go (s\<lparr>pi_ctxs := ctxs, pi_main := MBoActive\<rparr>))
      | MBoActive \<Rightarrow> Go (s\<lparr>pi_ctl := (pi_ctl s)\<lparr>ys_blackout_active := True\<rparr>, pi_main := MBoIdle\<rparr>)
      | MBoIdle \<Rightarrow>
          Go (s\<lparr>pi_main := if ys_resume_requested (pi_ctl s) \<or> ys_shutdown_requested (pi_ctl s)
                           then MBoWoken else MBoIdle\<rparr>)
      | MBoWoken \<Rightarrow> Go (s\<lparr>pi_main := if ys_shutdown_requested (pi_ctl s) then MStopCtrl else MBoInit\<rparr>)
      | MBoInit \<Rightarrow>
          (if in_init_ok inp
           then Go (s\<lparr>pi_ctxs := True # replicate (N_THREADS - 1) (en_dup_ok E), pi_main := MBoResumed\<rparr>)
           else Go (s\<lparr>pi_ctl := (pi_ctl s)\<lparr>ys_shutdown_requested := True\<rparr>, pi_main := MStopCtrl\<rparr>))
      | MBoResumed \<Rightarrow>
          Go (s\<lparr>pi_ctl := (pi_ctl s)\<lparr>ys_blackout_active := False, ys_inference_enabled := True,
                                       ys_resume_done := True\<rparr>, pi_main := MBoClearB\<rparr>)
      | MBoClearB \<Rightarrow> Go (s\<lparr>pi_ctl := (pi_ctl s)\<lparr>ys_blackout_requested := False\<rparr>, pi_main := MBoClearR\<rparr>)
      | MBoClearR \<Rightarrow>
          Go (s\<lparr>pi_ctl := (pi_ctl s)\<lparr>ys_resume_requested := False\<rparr>, pi_main := MAcquire (Refill 0)\<rparr>)
      | _ \<Rightarrow> Blocked)"

text \<open>The main loop: take a result, draw, show, publish, recycle the buffer, submit the next frame.\<close>

definition loop_step :: "env \<Rightarrow> input \<Rightarrow> pipe \<Rightarrow> pipe turn" where
  "loop_step E inp s =
     (case pi_main s of
        MLoop \<Rightarrow> Go (s\<lparr>pi_main := if ys_shutdown_requested (pi_ctl s) then MStopCtrl else MBlackout\<rparr>)
      | MBlackout \<Rightarrow>
          Go (s\<lparr>pi_main := if ys_blackout_requested (pi_ctl s) then MBoEnter else MTake (get_us (in_tv inp))\<rparr>)
      | MTake start \<Rightarrow>
          (case tsq_pop (pi_result_q s) of
             None \<Rightarrow> Blocked
           | Some (res, q) \<Rightarrow>
               Go (s\<lparr>pi_result_q := q, pi_in_flight := pi_in_flight s - 1, pi_main := MDraw start res\<rparr>))
      | MDraw start res \<Rightarrow>
          (case draw_group (ir_group res) (bp_display (pi_pool s) ! nat (ir_buf_idx res)) of
             None \<Rightarrow> Undefined
           | Some img \<Rightarrow>
               Go (s\<lparr>pi_pool := (pi_pool s)\<lparr>bp_display := (bp_display (pi_pool s))[nat (ir_buf_idx res) := img]\<rparr>,
                     pi_main := MPublish start res\<rparr>))
      | MPublish start res \<Rightarrow>
          (case fto_u64 start of
             None \<Rightarrow> Undefined
           | Some us \<Rightarrow>
               let dmsg = \<lparr>dm_frame_id = ir_frame_id res, dm_timestamp_us = us, dm_group = ir_group res\<rparr>
               in case pub_publish dmsg (pi_pub s) of
                    None \<Rightarrow> Undefined
                  | Some (_, pub) \<Rightarrow>
                      Go (s\<lparr>pi_pub := pub, pi_main := MRelease start res,
                            gh_log := gh_log s @ [(gh_tag s ! nat (ir_buf_idx res), dmsg,
                                                   bp_display (pi_pool s) ! nat (ir_buf_idx res))]\<rparr>))
      | MRelease start res \<Rightarrow>
          Go (s\<lparr>pi_pool := pool_release (ir_buf_idx res) (pi_pool s), pi_main := MAcquire (Steady start)\<rparr>)
      | MPerf start \<Rightarrow> Go ((perf start (get_us (in_tv inp)) s)\<lparr>pi_main := MLoop\<rparr>)
      | _ \<Rightarrow> Blocked)"

text \<open>After the loop. Deleting the pool's buffers needs no step of its own: no thread is left.\<close>

definition teardown_step :: "env \<Rightarrow> input \<Rightarrow> pipe \<Rightarrow> pipe turn" where
  "teardown_step E inp s =
     (case pi_main s of
        MStopCtrl \<Rightarrow> Go (s\<lparr>pi_running := False, pi_main := MJoinCtrl\<rparr>)
      | MJoinCtrl \<Rightarrow> (if pi_ctrl s = CEnd then Go (s\<lparr>pi_main := MStopPub\<rparr>) else Blocked)
      | MStopPub \<Rightarrow> Go (s\<lparr>pi_pub := pub_stop (pi_pub s), pi_main := MJoinPub\<rparr>)
      | MJoinPub \<Rightarrow> (if pb_conn (pi_pub s) = None then Go (s\<lparr>pi_main := MSentinel 0\<rparr>) else Blocked)
      | MSentinel k \<Rightarrow>
          Go (s\<lparr>pi_infer_q := tsq_push \<lparr>ij_buf_idx = -1, ij_scale_w = Fin 0, ij_scale_h = Fin 0,
                                          ij_frame_id = 0, ij_capture_us = 0\<rparr> (pi_infer_q s),
                pi_main := if Suc k < N_THREADS then MSentinel (Suc k) else MJoinWorkers\<rparr>)
      | MJoinWorkers \<Rightarrow> (if list_all (\<lambda>w. w = WExit) (pi_workers s) then Go (s\<lparr>pi_main := MDeinit\<rparr>) else Blocked)
      | MDeinit \<Rightarrow>
          (case destroy_ctxs (pi_ctxs s) of
             None \<Rightarrow> Undefined
           | Some ctxs \<Rightarrow> Go (s\<lparr>pi_pp := deinitPostProcess (pi_pp s), pi_ctxs := ctxs, pi_main := MDone\<rparr>))
      | _ \<Rightarrow> Blocked)"

definition main_step :: "env \<Rightarrow> input \<Rightarrow> pipe \<Rightarrow> pipe turn" where
  "main_step E inp s =
     (case pi_main s of
        MBoEnter \<Rightarrow> blackout_step E inp s
      | MBoDrain \<Rightarrow> blackout_step E inp s
      | MBoPop \<Rightarrow> blackout_step E inp s
      | MBoDestroy \<Rightarrow> blackout_step E inp s
      | MBoActive \<Rightarrow> blackout_step E inp s
      | MBoIdle \<Rightarrow> blackout_step E inp s
      | MBoWoken \<Rightarrow> blackout_step E inp s
      | MBoInit \<Rightarrow> blackout_step E inp s
      | MBoResumed \<Rightarrow> blackout_step E inp s
      | MBoClearB \<Rightarrow> blackout_step E inp s
      | MBoClearR \<Rightarrow> blackout_step E inp s
      | MBoRelease _ \<Rightarrow> blackout_step E inp s
      | MAcquire _ \<Rightarrow> capture_step E inp s
      | MCapture _ _ \<Rightarrow> capture_step E inp s
      | MStoreId _ \<Rightarrow> capture_step E inp s
      | MLoop \<Rightarrow> loop_step E inp s
      | MBlackout \<Rightarrow> loop_step E inp s
      | MTake _ \<Rightarrow> loop_step E inp s
      | MDraw _ _ \<Rightarrow> loop_step E inp s
      | MPublish _ _ \<Rightarrow> loop_step E inp s
      | MRelease _ _ \<Rightarrow> loop_step E inp s
      | MPerf _ \<Rightarrow> loop_step E inp s
      | _ \<Rightarrow> teardown_step E inp s)"

lemmas main_defs = main_step_def capture_step_def blackout_step_def loop_step_def teardown_step_def

section \<open>The control and the sender thread\<close>

text \<open>What happens at the control socket: nothing, a client connects, sends a request, hangs up,
  the wait of \<open>blackout\<close> or \<open>resume\<close> times out, or an answer cannot be sent.\<close>

datatype ctrl_in = Quiet | Connects | Sends string | Closes | TimesOut | SendFails

text \<open>The test of the outer loop, after a connection.\<close>

definition listen_next :: "pipe \<Rightarrow> ctrl_pc" where
  "listen_next s = (if pi_running s then CAccept else CEnd)"

definition wait_over :: "outcome \<Rightarrow> ctl_state \<Rightarrow> bool" where
  "wait_over w st =
     (case w of Reply _ \<Rightarrow> True | WaitBlackout \<Rightarrow> ys_blackout_active st | WaitResume \<Rightarrow> ys_resume_done st)"

definition ctrl_step :: "ctrl_in \<Rightarrow> pipe \<Rightarrow> pipe turn" where
  "ctrl_step cin s =
     (case pi_ctrl s of
        CAccept \<Rightarrow>
          if \<not> pi_running s then Go (s\<lparr>pi_ctrl := CEnd\<rparr>)
          else if cin = Connects then Go (s\<lparr>pi_ctrl := CTest\<rparr>) else Blocked
      | CTest \<Rightarrow> Go (s\<lparr>pi_ctrl := if pi_running s then CRecv else listen_next s\<rparr>)
      | CRecv \<Rightarrow>
          (case cin of
             Sends req \<Rightarrow>
               (if req = [] then Go (s\<lparr>pi_ctrl := listen_next s\<rparr>)
                else case dispatchCommand (queueDepth (pi_pub s)) req (pi_ctl s) of
                  (Reply resp, st) \<Rightarrow> Go (s\<lparr>pi_ctl := st, pi_ctrl := CSend resp\<rparr>)
                | (w, st) \<Rightarrow> Go (s\<lparr>pi_ctl := st, pi_ctrl := CWait w\<rparr>))
           | Closes \<Rightarrow> Go (s\<lparr>pi_ctrl := listen_next s\<rparr>)
           | _ \<Rightarrow> Blocked)
      | CWait w \<Rightarrow>
          if wait_over w (pi_ctl s) \<or> cin = TimesOut
          then Go (s\<lparr>pi_ctrl := CSend (finish_wait w (pi_ctl s))\<rparr>) else Blocked
      | CSend resp \<Rightarrow> Go (s\<lparr>pi_ctrl := if cin = SendFails then listen_next s else CTest\<rparr>)
      | CEnd \<Rightarrow> Blocked)"

text \<open>The sender thread: a consumer connects, or a turn of the loop.\<close>

definition sender_step :: "sink option \<Rightarrow> pipe \<Rightarrow> pipe turn" where
  "sender_step consumer s =
     (case pub_step (case consumer of Some k \<Rightarrow> EvAccept k | None \<Rightarrow> EvTurn) (pi_pub s) of
        None \<Rightarrow> Undefined
      | Some (_, pub) \<Rightarrow> Go (s\<lparr>pi_pub := pub\<rparr>))"

section \<open>The system\<close>

text \<open>Clock readings of this millennium and the next.\<close>

definition ok_time :: "int \<times> int \<Rightarrow> bool" where
  "ok_time t \<longleftrightarrow> 0 \<le> fst t \<and> fst t \<le> 2 ^ 36 \<and> 0 \<le> snd t \<and> snd t < 1000000"

inductive sys_step :: "env \<Rightarrow> pipe \<Rightarrow> pipe \<Rightarrow> bool" for E where
  main: "ok_time (in_tv inp) \<Longrightarrow> main_step E inp s = Go s' \<Longrightarrow> sys_step E s s'"
| worker: "i < N_THREADS \<Longrightarrow> worker_step E garbage us i s = Go s' \<Longrightarrow> sys_step E s s'"
| ctrl: "ctrl_step cin s = Go s' \<Longrightarrow> sys_step E s s'"
| sender: "sender_step consumer s = Go s' \<Longrightarrow> sys_step E s s'"

definition start_pub :: "publisher \<Rightarrow> bool" where
  "start_pub pub \<longleftrightarrow> (\<exists>a b c. pub = pub_start a b c (pub_new 32))"

inductive reachable :: "env \<Rightarrow> pipe \<Rightarrow> bool" for E where
  start: "start_pub pub \<Longrightarrow> reachable E (pipe_start E pub ctrl_ok)"
| step: "reachable E s \<Longrightarrow> sys_step E s s' \<Longrightarrow> reachable E s'"

inductive_cases sys_stepE: "sys_step E s s'"

end
