(* ===== verification/Pipeline_Detect.thy ===== *)
theory Pipeline_Detect
  imports Pipeline
begin

text \<open>
  The environment the pipeline is shown correct in, and the detections its inference threads
  compute for a captured frame: the same group for every thread, whether or not it is the first
  to load the labels.
\<close>

section \<open>The environment\<close>

definition scale_of :: "env \<Rightarrow> fp" where
  "scale_of E = fdiv F32 (fof_int F32 (int (en_model_w E))) (fof_int F32 WIDTH)"

text \<open>The assumptions: \<open>rknn_dup_context\<close> succeeds, the conversion fills a whole frame, the
  model's size and parameters are in the documented ranges, \<open>expf\<close> and \<open>logf\<close> are sound, and the
  label file holds a label.\<close>

definition env_ok :: "env \<Rightarrow> bool" where
  "env_ok E \<longleftrightarrow> en_dup_ok E \<and> (\<forall>f. length (en_bgr E f) = frame_size)
     \<and> 32 \<le> en_model_w E \<and> en_model_w E \<le> 4096 \<and> en_model_h E \<le> 4096
     \<and> expf_ok (en_expf E) \<and> logf_ok (en_logf E)
     \<and> length (en_zps E) = 3 \<and> length (en_scales E) = 3
     \<and> list_all zp_ok (en_zps E) \<and> list_all ok_scale (en_scales E)
     \<and> (\<exists>label. pp_labels (snd (pp_load (en_label_file E) pp_start)) = [Some label])"

lemma letterbox_frame:
  assumes "32 \<le> mw" "mw \<le> 4096"
  shows "\<exists>rh. letterbox WIDTH HEIGHT (int mw) mh
      = Some (fdiv F32 (fof_int F32 (int mw)) (fof_int F32 WIDTH), int mw, rh)"
    and "ok_ratio (fdiv F32 (fof_int F32 (int mw)) (fof_int F32 WIDTH))"
proof -
  have w: "fof_int F32 (int mw) = Fin (of_int (int mw))" "fof_int F32 WIDTH = Fin 1920"
    "fof_int F32 HEIGHT = Fin 1080"
    using assms fof_int_exact[of "int mw" F32] fof_int_exact[of 1920 F32] fof_int_exact[of 1080 F32]
    by (simp_all add: dim)
  define s where "s = fdiv F32 (fof_int F32 (int mw)) (fof_int F32 WIDTH)"
  have b: "bound F32 (1 / 64)" using frepI[of 1 F32 "-6"] by (simp add: bound_def)
  have q: "1 / 64 \<le> rat_of_int (int mw) / 1920" "rat_of_int (int mw) / 1920 \<le> 4"
    using assms by (simp_all add: field_simps)
  have "fin_in (1 / 64) 4 s"
    using fround_bounds(1)[OF q b, of False] by (simp add: s_def w fdiv_fin)
  then have s: "is_fin s" "1 / 64 \<le> fval s" "fval s \<le> 4" by (auto simp: fin_in_def)
  then show "ok_ratio (fdiv F32 (fof_int F32 (int mw)) (fof_int F32 WIDTH))"
    unfolding s_def[symmetric] by (cases s) (auto simp: ok_ratio_def)
  have "fin_in (of_int 0) (of_int 8192) (fmul F32 s (fof_int F32 HEIGHT))"
    using fround_bounds(1)[of 0 "fval s * 1080" 8192 F32 "fneg_bit s"] s by (simp add: w fmul_fin)
  from fto_int_fin(1)[OF this] obtain rh where "fto_int (fmul F32 s (fof_int F32 HEIGHT)) = Some rh" by auto
  then show "\<exists>rh. letterbox WIDTH HEIGHT (int mw) mh = Some (s, int mw, rh)"
    by (simp add: letterbox_def Let_def dim s_def[unfolded dim, symmetric])
qed

lemma fin_in_pos: "fin_in a b x \<Longrightarrow> 0 < a \<Longrightarrow> \<exists>v. x = Fin v \<and> a \<le> v \<and> v \<le> b"
  by (cases x) (auto simp: fin_in_def)

lemma thresholds: "ok_threshold box_conf_threshold"
proof -
  have b: "bound p (1 / 4)" for p using frepI[of 1 p "-2"] by (cases p) (simp_all add: bound_def)
  have "fin_in (1 / 4) 1 BOX_THRESH"
    unfolding BOX_THRESH_def by (intro fround_bounds(1) b) auto
  then obtain v where v: "BOX_THRESH = Fin v" "1 / 4 \<le> v" "v \<le> 1"
    using fin_in_pos[of "1 / 4" 1 BOX_THRESH] by auto
  have "fin_in (1 / 4) 1 (fround F32 False v)" using v by (intro fround_bounds(1) b) auto
  then show ?thesis
    using fin_in_pos[of "1 / 4" 1 "fround F32 False v"]
    by (auto simp: box_conf_threshold_def v(1) ok_threshold_def)
qed

lemma fto_u64_time:
  assumes "ok_time t"
  shows "\<exists>us. fto_u64 (get_us t) = Some us"
proof -
  let ?n = "fst t * 1000000 + snd t"
  have n: "0 \<le> ?n" "?n \<le> 2 ^ 57" using assms by (auto simp: ok_time_def)
  have "rat_of_int ?n \<le> rat_of_int (2 ^ 57)" using n(2) by (simp only: of_int_le_iff)
  moreover have "bound F64 (2 ^ 57)" using frepI[of 1 F64 57] by (simp add: bound_def)
  moreover have "rat_of_int 0 \<le> rat_of_int ?n" using n(1) by (simp only: of_int_le_iff)
  ultimately have "fin_in 0 (2 ^ 57) (get_us t)"
    unfolding get_us_def by (intro fin_in_fof_int) auto
  then show ?thesis by (cases "get_us t") (auto simp: fin_in_def)
qed

section \<open>The detections of a frame\<close>

text \<open>The labels once loaded, the buffers a captured frame fills, and the group \<open>post_process\<close>
  computes for it.\<close>

definition labels_loaded :: "env \<Rightarrow> pp_state" where
  "labels_loaded E = snd (pp_load (en_label_file E) pp_start)"

definition resize_h :: "env \<Rightarrow> int" where
  "resize_h E = (case letterbox WIDTH HEIGHT (int (en_model_w E)) (int (en_model_h E)) of
     Some (_, _, rh) \<Rightarrow> rh | None \<Rightarrow> 0)"

definition model_image :: "env \<Rightarrow> bytes \<Rightarrow> image" where
  "model_image E f = en_resize E (int (en_model_w E)) (resize_h E) (en_bgr E f)"

definition detect :: "env \<Rightarrow> bytes \<Rightarrow> detect_result_group" where
  "detect E f =
     (case post_process (en_expf E) (en_logf E) (en_label_file E) (en_npu E (model_image E f))
         (en_model_h E) (en_model_w E) box_conf_threshold nms_threshold (scale_of E) (scale_of E)
         (en_zps E) (en_scales E) zero_group pp_start of
       Some (_, g, _) \<Rightarrow> g | None \<Rightarrow> zero_group)"

lemma loadLabelName_ok: "fst (loadLabelName f labels) = 0"
  by (simp add: loadLabelName_def split: prod.splits)

lemma pp_load_start: "pp_load (en_label_file E) pp_start = (0, labels_loaded E)"
  and pp_load_again: "pp_load (en_label_file E) (labels_loaded E) = (0, labels_loaded E)"
proof -
  obtain ls where l: "loadLabelName (en_label_file E) (pp_labels pp_start) = (0, ls)"
    using loadLabelName_ok[of "en_label_file E" "pp_labels pp_start"] by (cases "loadLabelName (en_label_file E) (pp_labels pp_start)") auto
  show "pp_load (en_label_file E) pp_start = (0, labels_loaded E)"
    "pp_load (en_label_file E) (labels_loaded E) = (0, labels_loaded E)"
    by (simp_all add: pp_load_def labels_loaded_def l pp_start_def[THEN arg_cong, of pp_init])
qed

lemma env_inputs:
  assumes "env_ok E"
  shows "ok_inputs (en_expf E) (en_logf E) (en_model_h E) (en_model_w E) box_conf_threshold
    (scale_of E) (scale_of E) (en_zps E) (en_scales E)"
  using assms letterbox_frame(2)[of "en_model_w E"]
  by (simp add: env_ok_def ok_inputs_def thresholds scale_of_def)

text \<open>Any inference thread gets this group, whether it is the first to load the labels or not.\<close>

lemma detect_any:
  assumes E: "env_ok E" and pp: "pp = pp_start \<or> pp = labels_loaded E"
  shows "post_process (en_expf E) (en_logf E) (en_label_file E) (en_npu E (model_image E f))
         (en_model_h E) (en_model_w E) box_conf_threshold nms_threshold (scale_of E) (scale_of E)
         (en_zps E) (en_scales E) garbage pp = Some (0, detect E f, labels_loaded E)"
    and "wf_group (detect E f)"
    and "\<forall>r\<in>set (take (nat (dg_count (detect E f))) (dg_results (detect E f))). box_nonneg r"
proof -
  from E obtain label where lab: "pp_labels (labels_loaded E) = [Some label]"
    by (auto simp: env_ok_def labels_loaded_def)
  note w = post_process_good[OF env_inputs[OF E] pp_load_start lab, of "en_npu E (model_image E f)" nms_threshold zero_group]
  then obtain g where g: "post_process (en_expf E) (en_logf E) (en_label_file E) (en_npu E (model_image E f))
         (en_model_h E) (en_model_w E) box_conf_threshold nms_threshold (scale_of E) (scale_of E)
         (en_zps E) (en_scales E) zero_group pp_start = Some (0, g, labels_loaded E)" "wf_group g"
    "\<forall>r\<in>set (take (nat (dg_count g)) (dg_results g)). box_nonneg r"
    by (fastforce simp: box_nonneg_def)
  then have d: "detect E f = g" by (simp add: detect_def)
  then show "wf_group (detect E f)"
    "\<forall>r\<in>set (take (nat (dg_count (detect E f))) (dg_results (detect E f))). box_nonneg r"
    using g by simp_all
  have "pp_load (en_label_file E) pp = (0, labels_loaded E)"
    using pp pp_load_start pp_load_again by auto
  then show "post_process (en_expf E) (en_logf E) (en_label_file E) (en_npu E (model_image E f))
         (en_model_h E) (en_model_w E) box_conf_threshold nms_threshold (scale_of E) (scale_of E)
         (en_zps E) (en_scales E) garbage pp = Some (0, detect E f, labels_loaded E)"
    using g(1) unfolding d by (simp add: post_process_def pp_load_start)
qed

end
