(* ===== verification/Pipeline_Inv.thy ===== *)
theory Pipeline_Inv
  imports Pipeline_Detect
begin

text \<open>
  The invariants of the pipeline's threads and that every step keeps them: who owns which frame
  buffer, how many frames are in flight at each point of the main thread, what the buffers and
  results hold, and when the NPU contexts exist.
\<close>

section \<open>Jobs and results in the pipeline\<close>

definition real :: "infer_job \<Rightarrow> bool" where
  "real j \<longleftrightarrow> 0 \<le> ij_buf_idx j"

fun worker_jobs :: "worker \<Rightarrow> infer_job list" where
  "worker_jobs (WJob j) = [j]"
| "worker_jobs (WRun j) = [j]"
| "worker_jobs _ = []"

fun worker_results :: "worker \<Rightarrow> infer_result list" where
  "worker_results (WDone r) = [r]"
| "worker_results _ = []"

definition jobs_of :: "pipe \<Rightarrow> infer_job list" where
  "jobs_of s = filter real (pi_infer_q s) @ concat (map worker_jobs (pi_workers s))"

definition results_of :: "pipe \<Rightarrow> infer_result list" where
  "results_of s = concat (map worker_results (pi_workers s)) @ pi_result_q s"

definition outstanding :: "pipe \<Rightarrow> nat" where
  "outstanding s = length (jobs_of s) + length (results_of s)"

text \<open>The result and the buffers the main thread holds.\<close>

fun main_result :: "main_pc \<Rightarrow> infer_result list" where
  "main_result (MDraw _ r) = [r]"
| "main_result (MPublish _ r) = [r]"
| "main_result _ = []"

fun main_slots :: "main_pc \<Rightarrow> int list" where
  "main_slots (MCapture _ idx) = [idx]"
| "main_slots (MBoRelease idx) = [idx]"
| "main_slots (MDraw _ r) = [ir_buf_idx r]"
| "main_slots (MPublish _ r) = [ir_buf_idx r]"
| "main_slots (MRelease _ r) = [ir_buf_idx r]"
| "main_slots _ = []"

definition slots_out :: "pipe \<Rightarrow> int multiset" where
  "slots_out s = mset (map ij_buf_idx (jobs_of s)) + mset (map ir_buf_idx (results_of s))"

text \<open>Every buffer has exactly one owner.\<close>

definition inv_own :: "pipe \<Rightarrow> bool" where
  "inv_own s \<longleftrightarrow>
     mset (bp_free (pi_pool s)) + slots_out s + mset (main_slots (pi_main s)) = mset (map int [0..<N_BUF])"

section \<open>A step of an inference thread\<close>

lemma split_at: "i < length ws \<Longrightarrow> \<exists>xs ys. ws = xs @ (ws ! i) # ys \<and> length xs = i"
  by (metis id_take_nth_drop length_take min.absorb4)

text \<open>Steps 1 and 2 take a sentinel or a job, 3 and 4 read the enable flag, 5 is the inference, 6
  hands the result over.\<close>

lemma worker_step_cases:
  assumes "worker_step E garbage us i s = Go s'" "i < length (pi_workers s)"
  obtains
    (exit) xs ys job q where "pi_workers s = xs @ WIdle # ys" "pi_infer_q s = job # q" "\<not> real job"
      "s' = s\<lparr>pi_infer_q := q, pi_workers := xs @ WExit # ys\<rparr>"
  | (take) xs ys job q where "pi_workers s = xs @ WIdle # ys" "pi_infer_q s = job # q" "real job"
      "s' = s\<lparr>pi_infer_q := q, pi_workers := xs @ WJob job # ys\<rparr>"
  | (enabled) xs ys job where "pi_workers s = xs @ WJob job # ys" "ys_inference_enabled (pi_ctl s)"
      "s' = s\<lparr>pi_workers := xs @ WRun job # ys\<rparr>"
  | (paused) xs ys job where "pi_workers s = xs @ WJob job # ys" "\<not> ys_inference_enabled (pi_ctl s)"
      "s' = s\<lparr>pi_workers := xs @ WDone (paused_result job) # ys\<rparr>"
  | (run) xs ys job res pp where "pi_workers s = xs @ WRun job # ys"
      "infer E garbage us (pi_ctxs s ! i) (bp_model (pi_pool s) ! nat (ij_buf_idx job)) (pi_pp s) job = Some (res, pp)"
      "s' = s\<lparr>pi_pp := pp, pi_workers := xs @ WDone res # ys\<rparr>"
  | (push) xs ys res where "pi_workers s = xs @ WDone res # ys"
      "s' = s\<lparr>pi_result_q := pi_result_q s @ [res], pi_workers := xs @ WIdle # ys\<rparr>"
proof -
  obtain xs ys where ws: "pi_workers s = xs @ (pi_workers s ! i) # ys" and l: "length xs = i"
    using split_at[OF assms(2)] by blast
  have upd: "(pi_workers s)[i := w] = xs @ w # ys" for w
    using ws l by (metis list_update_length)
  show thesis
  proof (cases "pi_workers s ! i")
    case WIdle
    with assms(1) obtain job q where q: "pi_infer_q s = job # q"
      by (cases "pi_infer_q s") (auto simp: worker_step_def tsq_pop_def)
    show thesis
      using assms(1) WIdle ws q upd exit[of xs ys job q] take[of xs ys job q]
      by (cases "real job") (auto simp: worker_step_def tsq_pop_def real_def)
  next
    case (WJob job)
    then show thesis
      using assms(1) ws upd enabled[of xs job ys] paused[of xs job ys]
      by (cases "ys_inference_enabled (pi_ctl s)") (auto simp: worker_step_def)
  next
    case (WRun job)
    then show thesis
      using assms(1) ws upd run[of xs job ys] by (auto simp: worker_step_def split: option.splits)
  next
    case (WDone res)
    then show thesis
      using assms(1) ws upd push[of xs res ys] by (auto simp: worker_step_def tsq_push_def)
  next
    case WExit
    then show thesis using assms(1) by (simp add: worker_step_def)
  qed
qed

lemma infer_fields:
  assumes "infer E garbage us c img pp job = Some (res, pp')"
  shows "ir_buf_idx res = ij_buf_idx job" "ir_frame_id res = ij_frame_id job"
  using assms by (auto simp: infer_def split: if_splits)

lemmas tokens_defs = jobs_of_def results_of_def outstanding_def slots_out_def tsq_push_def

lemma worker_slots:
  assumes "worker_step E garbage us i s = Go s'" "i < length (pi_workers s)"
  shows "slots_out s' = slots_out s" "outstanding s' = outstanding s"
    "length (pi_workers s') = length (pi_workers s)"
    "s' = s\<lparr>pi_infer_q := pi_infer_q s', pi_result_q := pi_result_q s', pi_workers := pi_workers s',
            pi_pp := pi_pp s'\<rparr>"
  using assms
  by (auto elim!: worker_step_cases simp: tokens_defs infer_fields paused_result_def)

section \<open>What the other steps leave alone\<close>

lemma ctrl_frame: "ctrl_step cin s = Go s' \<Longrightarrow> s' = s\<lparr>pi_ctl := pi_ctl s', pi_ctrl := pi_ctrl s'\<rparr>"
  by (auto simp: ctrl_step_def split: ctrl_pc.splits if_splits ctrl_in.splits prod.splits outcome.splits)

lemma sender_frame: "sender_step k s = Go s' \<Longrightarrow> s' = s\<lparr>pi_pub := pi_pub s'\<rparr>"
  by (auto simp: sender_step_def split: option.splits prod.splits)

lemma capture_cases:
  assumes "capture E inp c idx s = Go s'"
  obtains us scale rw rh job where
    "letterbox WIDTH HEIGHT (int (en_model_w E)) (int (en_model_h E)) = Some (scale, rw, rh)"
    "fto_u64 (get_us (in_tv inp)) = Some us"
    "job = \<lparr>ij_buf_idx = idx, ij_scale_w = scale, ij_scale_h = scale,
            ij_frame_id = pi_frame_counter s, ij_capture_us = us\<rparr>"
    "s' = s\<lparr>pi_pool := (pi_pool s)\<lparr>
              bp_display := (bp_display (pi_pool s))[nat idx := en_bgr E (in_frame inp)],
              bp_model := (bp_model (pi_pool s))[nat idx := en_resize E rw rh (en_bgr E (in_frame inp))]\<rparr>,
            pi_infer_q := pi_infer_q s @ [job], pi_frame_counter := pi_frame_counter s + 1,
            pi_main := MStoreId c, gh_tag := (gh_tag s)[nat idx := length (gh_captured s)],
            gh_captured := gh_captured s @ [in_frame inp]\<rparr>"
  using assms that
  by (auto simp: capture_def Let_def tsq_push_def split: option.splits)

section \<open>Buffers and frames in flight\<close>

fun caller_flight :: "caller \<Rightarrow> nat" where
  "caller_flight (Prefill i) = i"
| "caller_flight (Steady _) = 2"
| "caller_flight (Refill i) = i"

text \<open>How many frames are in the queues and threads while the main thread stands at a point.\<close>

fun flight :: "main_pc \<Rightarrow> nat \<Rightarrow> bool" where
  "flight (MAcquire c) n = (n = caller_flight c \<and> n < 3)"
| "flight (MCapture c _) n = (n = caller_flight c \<and> n < 3)"
| "flight (MStoreId c) n = (n = caller_flight c + 1 \<and> n \<le> 3)"
| "flight MLoop n = (n = 3)"
| "flight MBlackout n = (n = 3)"
| "flight MBoEnter n = (n = 3)"
| "flight MBoDrain n = (n \<le> 3)"
| "flight MBoPop n = (0 < n \<and> n \<le> 3)"
| "flight (MBoRelease _) n = (n < 3)"
| "flight MBoDestroy n = (n = 0)"
| "flight MBoActive n = (n = 0)"
| "flight MBoIdle n = (n = 0)"
| "flight MBoWoken n = (n = 0)"
| "flight MBoInit n = (n = 0)"
| "flight MBoResumed n = (n = 0)"
| "flight MBoClearB n = (n = 0)"
| "flight MBoClearR n = (n = 0)"
| "flight (MTake _) n = (n = 3)"
| "flight (MDraw _ _) n = (n = 2)"
| "flight (MPublish _ _) n = (n = 2)"
| "flight (MRelease _ _) n = (n = 2)"
| "flight (MPerf _) n = (n = 3)"
| "flight _ n = (n = 0 \<or> n = 3)"

fun flight_offset :: "main_pc \<Rightarrow> int" where
  "flight_offset (MStoreId _) = 1"
| "flight_offset (MBoRelease _) = -1"
| "flight_offset _ = 0"

definition inv_count :: "pipe \<Rightarrow> bool" where
  "inv_count s \<longleftrightarrow> flight (pi_main s) (outstanding s)
     \<and> int (outstanding s) = pi_in_flight s + flight_offset (pi_main s)"

lemma own_range:
  assumes "inv_own s"
  shows "\<forall>i \<in># slots_out s. 0 \<le> i \<and> i < 5" "\<forall>i \<in> set (main_slots (pi_main s)). 0 \<le> i \<and> i < 5"
    "\<forall>i \<in> set (bp_free (pi_pool s)). 0 \<le> i \<and> i < 5"
proof -
  have "set_mset (mset (bp_free (pi_pool s)) + slots_out s + mset (main_slots (pi_main s)))
      = set_mset (mset (map int [0..<N_BUF]))"
    using assms by (simp only: inv_own_def)
  then have "set (bp_free (pi_pool s)) \<union> set_mset (slots_out s) \<union> set (main_slots (pi_main s)) = {0..<5}"
    by (simp add: N_BUF_def N_THREADS_def image_int_atLeastLessThan)
  then show "\<forall>i \<in># slots_out s. 0 \<le> i \<and> i < 5" "\<forall>i \<in> set (main_slots (pi_main s)). 0 \<le> i \<and> i < 5"
    "\<forall>i \<in> set (bp_free (pi_pool s)). 0 \<le> i \<and> i < 5" by auto
qed

lemma own_size: "inv_own s \<Longrightarrow>
  length (bp_free (pi_pool s)) + outstanding s + length (main_slots (pi_main s)) = 5"
proof -
  assume "inv_own s"
  then have "size (mset (bp_free (pi_pool s)) + slots_out s + mset (main_slots (pi_main s))) = size (mset (map int [0..<N_BUF]))"
    by (simp only: inv_own_def)
  then show ?thesis by (simp add: slots_out_def outstanding_def N_BUF_def N_THREADS_def)
qed

lemma return_to_count:
  "caller_flight c < 3 \<Longrightarrow> flight (return_to c) (Suc (caller_flight c))"
  "flight_offset (return_to c) = 0" "main_slots (return_to c) = []" "main_result (return_to c) = []"
  by (auto simp: return_to_def N_THREADS_def split: caller.splits)

lemma perf_fields [simp]:
  "pi_main (perf a b s) = pi_main s" "pi_pool (perf a b s) = pi_pool s" "pi_infer_q (perf a b s) = pi_infer_q s"
  "pi_result_q (perf a b s) = pi_result_q s" "pi_workers (perf a b s) = pi_workers s"
  "pi_in_flight (perf a b s) = pi_in_flight s" "pi_ctxs (perf a b s) = pi_ctxs s" "pi_pp (perf a b s) = pi_pp s"
  "pi_pub (perf a b s) = pi_pub s" "pi_frame_counter (perf a b s) = pi_frame_counter s"
  "pi_running (perf a b s) = pi_running s" "pi_ctrl (perf a b s) = pi_ctrl s"
  "gh_captured (perf a b s) = gh_captured s" "gh_tag (perf a b s) = gh_tag s" "gh_log (perf a b s) = gh_log s"
  "gh_drained (perf a b s) = gh_drained s"
  "\<exists>f. pi_ctl (perf a b s) = (pi_ctl s)\<lparr>ys_fps := f\<rparr>"
  by (auto simp: perf_def Let_def) (metis ctl_state.surjective ctl_state.update_convs(5))

lemma main_own:
  assumes "main_step E inp s = Go s'" "inv_own s"
  shows "inv_own s'"
proof (cases "pi_main s")
  case (MCapture c idx)
  with assms(1) have cap: "capture E inp c idx s = Go s'" by (simp add: main_defs)
  have "0 \<le> idx" using own_range(2)[OF assms(2)] MCapture by simp
  with cap assms(2) MCapture show ?thesis
    by (elim capture_cases) (auto simp: inv_own_def tokens_defs real_def)
qed (use assms in \<open>auto simp: main_defs inv_own_def tokens_defs fifo_simps real_def pool_release_def Let_def
      return_to_count split: option.splits prod.splits if_splits\<close>)

lemma outstanding_upd [simp]:
  "outstanding (s\<lparr>pi_main := m\<rparr>) = outstanding s" "outstanding (s\<lparr>pi_ctl := c\<rparr>) = outstanding s"
  "outstanding (s\<lparr>pi_pool := p\<rparr>) = outstanding s" "outstanding (s\<lparr>pi_in_flight := n\<rparr>) = outstanding s"
  "outstanding (s\<lparr>pi_ctxs := x\<rparr>) = outstanding s" "outstanding (s\<lparr>pi_pp := pp\<rparr>) = outstanding s"
  "outstanding (s\<lparr>pi_pub := pb\<rparr>) = outstanding s" "outstanding (s\<lparr>pi_running := r\<rparr>) = outstanding s"
  "outstanding (s\<lparr>gh_log := l\<rparr>) = outstanding s" "outstanding (s\<lparr>gh_drained := d\<rparr>) = outstanding s"
  "outstanding (perf a b s) = outstanding s"
  by (simp_all add: tokens_defs)

lemma outstanding_pop: "pi_result_q s = r # q \<Longrightarrow> outstanding s = Suc (outstanding (s\<lparr>pi_result_q := q\<rparr>))"
  by (simp add: tokens_defs)

lemma outstanding_sentinel: "\<not> real j \<Longrightarrow> outstanding (s\<lparr>pi_infer_q := pi_infer_q s @ [j]\<rparr>) = outstanding s"
  by (simp add: tokens_defs)

lemma main_count:
  assumes "main_step E inp s = Go s'" "inv_own s" "inv_count s"
  shows "inv_count s'"
proof (cases "pi_main s")
  case (MCapture c idx)
  with assms(1) have cap: "capture E inp c idx s = Go s'" by (simp add: main_defs)
  have "0 \<le> idx" using own_range(2)[OF assms(2)] MCapture by simp
  with cap assms(3) MCapture show ?thesis
    by (elim capture_cases) (auto simp: inv_count_def tokens_defs real_def)
next
  case MBoPop
  with assms(1) obtain r q where "pi_result_q s = r # q" "pi_main s' = MBoRelease (ir_buf_idx r)"
      "outstanding s' = outstanding (s\<lparr>pi_result_q := q\<rparr>)" "pi_in_flight s' = pi_in_flight s"
    by (auto simp: main_defs fifo_simps split: option.splits)
  with assms(3) MBoPop show ?thesis using outstanding_pop[of s r q] by (simp add: inv_count_def)
next
  case (MTake st)
  with assms(1) obtain r q where "pi_result_q s = r # q" "pi_main s' = MDraw st r"
      "outstanding s' = outstanding (s\<lparr>pi_result_q := q\<rparr>)" "pi_in_flight s' = pi_in_flight s - 1"
    by (auto simp: main_defs fifo_simps split: option.splits)
  with assms(3) MTake show ?thesis using outstanding_pop[of s r q] by (simp add: inv_count_def)
qed (use assms return_to_count in \<open>auto simp: main_defs inv_count_def tsq_push_def fifo_simps real_def Let_def
      outstanding_sentinel split: option.splits prod.splits if_splits\<close>)

section \<open>Contexts, flags and threads\<close>

text \<open>The sentinels sent so far.\<close>

fun sentinels :: "main_pc \<Rightarrow> nat" where
  "sentinels (MSentinel k) = k"
| "sentinels MJoinWorkers = 3"
| "sentinels MDeinit = 3"
| "sentinels MDone = 3"
| "sentinels _ = 0"

text \<open>The control server has been told to stop.\<close>

fun stopping :: "main_pc \<Rightarrow> bool" where
  "stopping MJoinCtrl = True"
| "stopping MStopPub = True"
| "stopping MJoinPub = True"
| "stopping (MSentinel _) = True"
| "stopping MJoinWorkers = True"
| "stopping MDeinit = True"
| "stopping MDone = True"
| "stopping _ = False"

definition live :: "bool list" where "live = replicate N_THREADS True"
definition dead :: "bool list" where "dead = replicate N_THREADS False"

text \<open>Which contexts exist, and the flag \<open>blackout_active\<close>, at each point of the main thread.\<close>

fun ctx_ok :: "main_pc \<Rightarrow> bool \<Rightarrow> bool list \<Rightarrow> nat \<Rightarrow> bool" where
  "ctx_ok MBoActive active ctxs n = (ctxs = dead \<and> \<not> active)"
| "ctx_ok MBoIdle active ctxs n = (ctxs = dead \<and> active)"
| "ctx_ok MBoWoken active ctxs n = (ctxs = dead \<and> active)"
| "ctx_ok MBoInit active ctxs n = (ctxs = dead \<and> active)"
| "ctx_ok MBoResumed active ctxs n = (ctxs = live \<and> active)"
| "ctx_ok MDone active ctxs n = (ctxs = dead \<and> \<not> active)"
| "ctx_ok m active ctxs n =
     (if stopping m \<or> m = MStopCtrl then ctxs = (if active then dead else live) \<and> (active \<longrightarrow> n = 0)
      else ctxs = live \<and> \<not> active)"

definition inv_ctx :: "pipe \<Rightarrow> bool" where
  "inv_ctx s \<longleftrightarrow> ctx_ok (pi_main s) (ys_blackout_active (pi_ctl s)) (pi_ctxs s) (outstanding s)"

fun resume_flag :: "main_pc \<Rightarrow> bool \<Rightarrow> bool \<Rightarrow> bool" where
  "resume_flag MBoInit resume shutdown = resume"
| "resume_flag MBoResumed resume shutdown = resume"
| "resume_flag MBoClearB resume shutdown = resume"
| "resume_flag MBoClearR resume shutdown = resume"
| "resume_flag MBoWoken resume shutdown = (resume \<or> shutdown)"
| "resume_flag _ resume shutdown = True"

definition inv_resume :: "pipe \<Rightarrow> bool" where
  "inv_resume s \<longleftrightarrow>
     resume_flag (pi_main s) (ys_resume_requested (pi_ctl s)) (ys_shutdown_requested (pi_ctl s))"

text \<open>Sentinels in the queue and threads that have taken one.\<close>

definition exits :: "pipe \<Rightarrow> nat" where
  "exits s = length (filter (\<lambda>j. \<not> real j) (pi_infer_q s)) + length (filter (\<lambda>w. w = WExit) (pi_workers s))"

definition inv_exits :: "pipe \<Rightarrow> bool" where
  "inv_exits s \<longleftrightarrow> exits s = sentinels (pi_main s) \<and> sentinels (pi_main s) \<le> 3
     \<and> (\<forall>k. pi_main s = MSentinel k \<longrightarrow> k < 3)"

definition inv_ctrl :: "pipe \<Rightarrow> bool" where
  "inv_ctrl s \<longleftrightarrow> (pi_running s \<longrightarrow> \<not> stopping (pi_main s))
     \<and> (pi_ctrl s = CEnd \<longrightarrow> \<not> pi_running s)
     \<and> (\<forall>w. pi_ctrl s = CWait w \<longrightarrow> w = WaitBlackout \<or> w = WaitResume)"

definition inv_pp :: "env \<Rightarrow> pipe \<Rightarrow> bool" where
  "inv_pp E s \<longleftrightarrow> pi_main s = MDone \<or> pi_pp s = pp_start \<or> pi_pp s = labels_loaded E"

lemma ctrl_keeps:
  assumes "ctrl_step cin s = Go s'"
  shows "ys_blackout_active (pi_ctl s') = ys_blackout_active (pi_ctl s)"
    and "ys_resume_requested (pi_ctl s) \<Longrightarrow> ys_resume_requested (pi_ctl s')"
    and "ys_shutdown_requested (pi_ctl s) \<Longrightarrow> ys_shutdown_requested (pi_ctl s')"
    and "ys_fps (pi_ctl s') = ys_fps (pi_ctl s)"
    and "pi_ctrl s' = CEnd \<Longrightarrow> \<not> pi_running s"
    and "pi_ctrl s' = CWait w \<Longrightarrow> w = WaitBlackout \<or> w = WaitResume"
  using assms
  by (auto simp: ctrl_step_def dispatchCommand_def Let_def listen_next_def
      split: ctrl_pc.splits if_splits ctrl_in.splits prod.splits outcome.splits option.splits)

lemma return_to_other [simp]:
  "ctx_ok (return_to c) a x n \<longleftrightarrow> x = live \<and> \<not> a" "resume_flag (return_to c) r h"
  "\<not> stopping (return_to c)" "sentinels (return_to c) = 0"
  by (auto simp: return_to_def split: caller.splits)

lemma perf_ctl [simp]:
  "ys_blackout_active (pi_ctl (perf a b s)) = ys_blackout_active (pi_ctl s)"
  "ys_resume_requested (pi_ctl (perf a b s)) = ys_resume_requested (pi_ctl s)"
  "ys_shutdown_requested (pi_ctl (perf a b s)) = ys_shutdown_requested (pi_ctl s)"
  by (simp_all add: perf_def Let_def)

lemma live_dead [simp]: "list_all id live" "\<not> list_all id dead" "map (\<lambda>_. False) live = dead" "live \<noteq> dead"
  "True # replicate (N_THREADS - Suc 0) True = live"
  by (simp_all add: live_def dead_def N_THREADS_def numeral_3_eq_3)

lemma capture_fields:
  assumes "capture E inp c idx s = Go s'"
  shows "pi_main s' = MStoreId c" "pi_ctl s' = pi_ctl s" "pi_ctxs s' = pi_ctxs s" "pi_workers s' = pi_workers s"
    "pi_running s' = pi_running s" "pi_ctrl s' = pi_ctrl s" "pi_pp s' = pi_pp s" "pi_pub s' = pi_pub s"
    "gh_log s' = gh_log s" "gh_drained s' = gh_drained s" "pi_result_q s' = pi_result_q s"
  using assms by (auto elim!: capture_cases)

lemma main_MCapture: "main_step E inp s = Go s' \<Longrightarrow> pi_main s = MCapture c idx \<Longrightarrow> capture E inp c idx s = Go s'"
  by (simp add: main_defs)

lemmas main_splits = option.splits prod.splits if_splits

lemma main_ctx:
  assumes E: "env_ok E" and s: "main_step E inp s = Go s'" "inv_ctx s" "inv_count s"
  shows "inv_ctx s'"
proof -
  have dup: "en_dup_ok E" using E by (simp add: env_ok_def)
  show ?thesis
  proof (cases "pi_main s")
    case (MCapture c idx)
    from capture_fields[OF main_MCapture[OF s(1) this]] s(2) MCapture show ?thesis
      by (simp add: inv_ctx_def)
  next
    case (MSentinel k)
    with s show ?thesis
      by (auto simp: main_defs inv_ctx_def tsq_push_def real_def outstanding_sentinel)
  qed (use s dup in \<open>auto simp: main_defs inv_ctx_def inv_count_def destroy_ctxs_def Let_def split: main_splits\<close>)
qed

lemma main_resume:
  assumes "main_step E inp s = Go s'" "inv_resume s"
  shows "inv_resume s'"
proof (cases "pi_main s")
  case (MCapture c idx)
  from capture_fields[OF main_MCapture[OF assms(1) this]] show ?thesis by (simp add: inv_resume_def)
qed (use assms in \<open>auto simp: main_defs inv_resume_def Let_def split: main_splits\<close>)

lemma exits_upd [simp]:
  "exits (s\<lparr>pi_main := m\<rparr>) = exits s" "exits (s\<lparr>pi_ctl := c\<rparr>) = exits s"
  "exits (s\<lparr>pi_pool := p\<rparr>) = exits s" "exits (s\<lparr>pi_in_flight := n\<rparr>) = exits s"
  "exits (s\<lparr>pi_ctxs := x\<rparr>) = exits s" "exits (s\<lparr>pi_pp := pp\<rparr>) = exits s"
  "exits (s\<lparr>pi_pub := pb\<rparr>) = exits s" "exits (s\<lparr>pi_running := r\<rparr>) = exits s"
  "exits (s\<lparr>gh_log := l\<rparr>) = exits s" "exits (s\<lparr>gh_drained := d\<rparr>) = exits s"
  "exits (s\<lparr>pi_result_q := q\<rparr>) = exits s" "exits (perf a b s) = exits s"
  by (simp_all add: exits_def)

lemma return_to_not_sentinel [simp]: "return_to c \<noteq> MSentinel k"
  by (auto simp: return_to_def split: caller.splits)

lemma main_exits:
  assumes "main_step E inp s = Go s'" "inv_exits s" "inv_own s"
  shows "inv_exits s'"
proof (cases "pi_main s")
  case (MCapture c idx)
  have "0 \<le> idx" using own_range(2)[OF assms(3)] MCapture by simp
  with main_MCapture[OF assms(1) MCapture] assms(2) MCapture show ?thesis
    by (elim capture_cases) (auto simp: inv_exits_def exits_def real_def)
next
  case (MSentinel k)
  with assms(1,2) show ?thesis
    by (auto simp: main_defs inv_exits_def exits_def real_def tsq_push_def N_THREADS_def split: if_splits)
qed (use assms(1,2) in \<open>auto simp: main_defs inv_exits_def Let_def split: main_splits\<close>)

lemma main_ctrl:
  assumes "main_step E inp s = Go s'" "inv_ctrl s"
  shows "inv_ctrl s'"
proof (cases "pi_main s")
  case (MCapture c idx)
  from capture_fields[OF main_MCapture[OF assms(1) this]] assms(2) MCapture show ?thesis
    by (simp add: inv_ctrl_def)
qed (use assms in \<open>auto simp: main_defs inv_ctrl_def Let_def split: main_splits\<close>)

lemma main_pp:
  assumes "main_step E inp s = Go s'" "inv_pp E s"
  shows "inv_pp E s'"
proof (cases "pi_main s")
  case (MCapture c idx)
  from capture_fields[OF main_MCapture[OF assms(1) this]] assms(2) MCapture show ?thesis by (auto simp: inv_pp_def)
qed (use assms in \<open>auto simp: main_defs inv_pp_def Let_def split: main_splits\<close>)

end
