(* ===== verification/Pipeline_Data.thy ===== *)
theory Pipeline_Data
  imports Pipeline_Inv
begin

text \<open>
  What the buffers, jobs, results and published messages of the pipeline hold: each belongs to one
  captured frame, and every captured frame is accounted for.
\<close>

section \<open>The invariants\<close>

text \<open>The group of a frame: the detections, or none when inference was paused.\<close>

definition group_ok :: "env \<Rightarrow> bytes \<Rightarrow> detect_result_group \<Rightarrow> bool" where
  "group_ok E f g \<longleftrightarrow> g = zero_group \<or> g = detect E f"

text \<open>Slot \<open>idx\<close> holds a captured frame and \<open>fid\<close> is its identifier.\<close>

definition tag_ok :: "nat list \<Rightarrow> bytes list \<Rightarrow> int \<Rightarrow> u64 \<Rightarrow> bool" where
  "tag_ok tags cap idx fid \<longleftrightarrow> tags ! nat idx < length cap \<and> fid = of_nat (tags ! nat idx)"

definition frame_in :: "nat list \<Rightarrow> bytes list \<Rightarrow> int \<Rightarrow> bytes" where
  "frame_in tags cap idx = cap ! (tags ! nat idx)"

definition job_ok :: "env \<Rightarrow> buf_pool \<Rightarrow> nat list \<Rightarrow> bytes list \<Rightarrow> infer_job \<Rightarrow> bool" where
  "job_ok E p tags cap j \<longleftrightarrow>
     tag_ok tags cap (ij_buf_idx j) (ij_frame_id j)
     \<and> bp_display p ! nat (ij_buf_idx j) = en_bgr E (frame_in tags cap (ij_buf_idx j))
     \<and> bp_model p ! nat (ij_buf_idx j) = model_image E (frame_in tags cap (ij_buf_idx j))
     \<and> ij_scale_w j = scale_of E \<and> ij_scale_h j = scale_of E"

definition res_ok :: "env \<Rightarrow> buf_pool \<Rightarrow> nat list \<Rightarrow> bytes list \<Rightarrow> infer_result \<Rightarrow> bool" where
  "res_ok E p tags cap r \<longleftrightarrow>
     tag_ok tags cap (ir_buf_idx r) (ir_frame_id r)
     \<and> bp_display p ! nat (ir_buf_idx r) = en_bgr E (frame_in tags cap (ir_buf_idx r))
     \<and> group_ok E (frame_in tags cap (ir_buf_idx r)) (ir_group r)"

fun main_ok :: "env \<Rightarrow> buf_pool \<Rightarrow> nat list \<Rightarrow> bytes list \<Rightarrow> main_pc \<Rightarrow> bool" where
  "main_ok E p tags cap (MDraw _ r) = res_ok E p tags cap r"
| "main_ok E p tags cap (MPublish _ r) =
     (tag_ok tags cap (ir_buf_idx r) (ir_frame_id r)
      \<and> group_ok E (frame_in tags cap (ir_buf_idx r)) (ir_group r)
      \<and> draw_group (ir_group r) (en_bgr E (frame_in tags cap (ir_buf_idx r))) = Some (bp_display p ! nat (ir_buf_idx r)))"
| "main_ok E p tags cap _ = True"

definition log_ok :: "env \<Rightarrow> bytes list \<Rightarrow> nat \<times> detection_message \<times> image \<Rightarrow> bool" where
  "log_ok E cap = (\<lambda>(k, m, img). k < length cap \<and> dm_frame_id m = of_nat k \<and> group_ok E (cap ! k) (dm_group m)
     \<and> draw_group (dm_group m) (en_bgr E (cap ! k)) = Some img)"

definition inv_data :: "env \<Rightarrow> pipe \<Rightarrow> bool" where
  "inv_data E s \<longleftrightarrow>
     (\<forall>j\<in>set (jobs_of s). job_ok E (pi_pool s) (gh_tag s) (gh_captured s) j)
   \<and> (\<forall>r\<in>set (results_of s). res_ok E (pi_pool s) (gh_tag s) (gh_captured s) r)
   \<and> main_ok E (pi_pool s) (gh_tag s) (gh_captured s) (pi_main s)
   \<and> (\<forall>l\<in>set (gh_log s). log_ok E (gh_captured s) l)
   \<and> pi_frame_counter s = of_nat (length (gh_captured s))"

definition inv_sizes :: "pipe \<Rightarrow> bool" where
  "inv_sizes s \<longleftrightarrow> length (bp_display (pi_pool s)) = 5 \<and> length (bp_model (pi_pool s)) = 5
     \<and> length (gh_tag s) = 5 \<and> length (pi_workers s) = 3"

text \<open>Every captured frame is in the pipeline, with the main thread, published or discarded.\<close>

definition inv_frames :: "pipe \<Rightarrow> bool" where
  "inv_frames s \<longleftrightarrow>
     image_mset (\<lambda>i. gh_tag s ! nat i) (slots_out s)
     + mset (map (\<lambda>r. gh_tag s ! nat (ir_buf_idx r)) (main_result (pi_main s)))
     + mset (map fst (gh_log s)) + mset (gh_drained s) = mset [0..<length (gh_captured s)]"

section \<open>The inference threads keep them\<close>

lemma infer_result_ok:
  assumes E: "env_ok E" and j: "job_ok E p tags cap j" and pp: "pp = pp_start \<or> pp = labels_loaded E"
    and i: "infer E garbage us c (bp_model p ! nat (ij_buf_idx j)) pp j = Some (res, pp')"
  shows "res_ok E p tags cap res" "pp' = labels_loaded E"
proof -
  have "post_process (en_expf E) (en_logf E) (en_label_file E) (en_npu E (model_image E (frame_in tags cap (ij_buf_idx j))))
         (en_model_h E) (en_model_w E) box_conf_threshold nms_threshold (scale_of E) (scale_of E)
         (en_zps E) (en_scales E) garbage pp = Some (0, detect E (frame_in tags cap (ij_buf_idx j)), labels_loaded E)"
    by (rule detect_any(1)[OF E pp])
  with i j show "res_ok E p tags cap res" "pp' = labels_loaded E"
    by (auto simp: infer_def job_ok_def res_ok_def group_ok_def split: if_splits)
qed

lemma worker_keeps:
  assumes "worker_step E garbage us i s = Go s'" "i < length (pi_workers s)"
  shows "pi_main s' = pi_main s" "pi_pool s' = pi_pool s" "pi_ctl s' = pi_ctl s" "pi_ctxs s' = pi_ctxs s"
    "pi_in_flight s' = pi_in_flight s" "pi_running s' = pi_running s" "pi_ctrl s' = pi_ctrl s"
    "pi_pub s' = pi_pub s" "gh_tag s' = gh_tag s" "gh_captured s' = gh_captured s" "gh_log s' = gh_log s"
    "gh_drained s' = gh_drained s" "pi_frame_counter s' = pi_frame_counter s"
  by (rule worker_step_cases[OF assms]; simp)+

lemma paused_ok: "job_ok E p tags cap j \<Longrightarrow> res_ok E p tags cap (paused_result j)"
  by (simp add: job_ok_def res_ok_def paused_result_def group_ok_def)

lemma worker_data:
  assumes s: "worker_step E garbage us i s = Go s'" "i < length (pi_workers s)"
    and E: "env_ok E" and inv: "inv_data E s" "inv_pp E s" and nd: "pi_main s \<noteq> MDone"
  shows "inv_data E s'" "inv_pp E s'"
proof -
  from s have "inv_data E s' \<and> inv_pp E s'"
  proof (cases rule: worker_step_cases)
    case (run xs ys job res pp)
    have j: "job_ok E (pi_pool s) (gh_tag s) (gh_captured s) job"
      using inv(1) run(1) by (simp add: inv_data_def jobs_of_def)
    have p: "pi_pp s = pp_start \<or> pi_pp s = labels_loaded E" using inv(2) nd by (simp add: inv_pp_def)
    have "res_ok E (pi_pool s) (gh_tag s) (gh_captured s) res" "pp = labels_loaded E"
      using infer_result_ok[OF E j p run(2)] by simp_all
    then show ?thesis using inv(1) run(1,3) by (auto simp: inv_data_def jobs_of_def results_of_def inv_pp_def)
  qed (use inv paused_ok in \<open>auto simp: inv_data_def jobs_of_def results_of_def inv_pp_def\<close>)
  then show "inv_data E s'" "inv_pp E s'" by simp_all
qed

lemma worker_exits:
  assumes "worker_step E garbage us i s = Go s'" "i < length (pi_workers s)"
  shows "exits s' = exits s"
  using assms by (auto elim!: worker_step_cases simp: exits_def)

section \<open>The main thread keeps them\<close>

lemma letterbox_env:
  assumes "env_ok E" "letterbox WIDTH HEIGHT (int (en_model_w E)) (int (en_model_h E)) = Some (scale, rw, rh)"
  shows "scale = scale_of E" "en_resize E rw rh (en_bgr E f) = model_image E f"
  using assms letterbox_frame(1)[of "en_model_w E" "int (en_model_h E)"]
  by (auto simp: env_ok_def scale_of_def model_image_def resize_h_def)

lemma main_sizes: "main_step E inp s = Go s' \<Longrightarrow> inv_sizes s \<Longrightarrow> inv_sizes s'"
proof (cases "pi_main s")
  case (MCapture c idx)
  assume "main_step E inp s = Go s'" "inv_sizes s"
  from main_MCapture[OF this(1) MCapture] this(2) show ?thesis
    by (elim capture_cases) (auto simp: inv_sizes_def)
qed (auto simp: main_defs inv_sizes_def pool_acquire_def pool_release_def Let_def split: main_splits list.splits)

text \<open>A slot of the main thread is nobody else's.\<close>

lemma own_distinct:
  assumes "inv_own s" "i \<in> set (main_slots (pi_main s))"
  shows "i \<notin># slots_out s" "i \<notin> set (bp_free (pi_pool s))"
proof -
  let ?m = "mset (bp_free (pi_pool s)) + slots_out s + mset (main_slots (pi_main s))"
  have "?m = mset (map int [0..<N_BUF])" using assms(1) by (simp add: inv_own_def)
  moreover have "distinct (map int [0..<N_BUF])" by (simp add: distinct_map)
  ultimately have "count ?m i \<le> 1" by (metis distinct_count_atmost_1 le_eq_less_or_eq less_one linorder_not_le)
  then have le: "count (mset (bp_free (pi_pool s))) i + count (slots_out s) i + count (mset (main_slots (pi_main s))) i \<le> 1"
    by (simp only: count_union)
  have "i \<in># mset (main_slots (pi_main s))" using assms(2) by simp
  then have "0 < count (mset (main_slots (pi_main s))) i" by (simp only: count_greater_zero_iff)
  with le have "count (slots_out s) i = 0" "count (mset (bp_free (pi_pool s))) i = 0" by linarith+
  then have "i \<notin># slots_out s" "i \<notin># mset (bp_free (pi_pool s))" by (simp_all only: count_eq_zero_iff not_False_eq_True)
  then show "i \<notin># slots_out s" "i \<notin> set (bp_free (pi_pool s))" by simp_all
qed

lemma slots_jobs: "j \<in> set (jobs_of s) \<Longrightarrow> ij_buf_idx j \<in># slots_out s"
  by (simp add: slots_out_def)

lemma slots_results: "r \<in> set (results_of s) \<Longrightarrow> ir_buf_idx r \<in># slots_out s"
  by (simp add: slots_out_def)

text \<open>Filling another slot, and appending a frame, keeps what a job or result refers to.\<close>

lemma nat_neq: "0 \<le> i \<Longrightarrow> 0 \<le> j \<Longrightarrow> i \<noteq> j \<Longrightarrow> nat i \<noteq> nat (j :: int)"
  by simp

lemma job_ok_other:
  assumes "job_ok E p tags cap j" "nat (ij_buf_idx j) \<noteq> k"
  shows "job_ok E (p\<lparr>bp_display := (bp_display p)[k := x], bp_model := (bp_model p)[k := y]\<rparr>)
    (tags[k := t]) (cap @ [f]) j"
  using assms by (simp add: job_ok_def tag_ok_def frame_in_def nth_append)

lemma res_ok_other:
  assumes "res_ok E p tags cap r" "nat (ir_buf_idx r) \<noteq> k"
  shows "res_ok E (p\<lparr>bp_display := (bp_display p)[k := x], bp_model := (bp_model p)[k := y]\<rparr>)
    (tags[k := t]) (cap @ [f]) r"
  using assms by (simp add: res_ok_def tag_ok_def frame_in_def nth_append)

lemma job_ok_draw:
  "job_ok E p tags cap j \<Longrightarrow> nat (ij_buf_idx j) \<noteq> k \<Longrightarrow>
   job_ok E (p\<lparr>bp_display := (bp_display p)[k := x]\<rparr>) tags cap j"
  by (simp add: job_ok_def)

lemma res_ok_draw:
  "res_ok E p tags cap r \<Longrightarrow> nat (ir_buf_idx r) \<noteq> k \<Longrightarrow>
   res_ok E (p\<lparr>bp_display := (bp_display p)[k := x]\<rparr>) tags cap r"
  by (simp add: res_ok_def)

lemma log_ok_more: "log_ok E cap l \<Longrightarrow> log_ok E (cap @ [f]) l"
  by (auto simp: log_ok_def nth_append)

lemma ok_free [simp]:
  "job_ok E (p\<lparr>bp_free := l\<rparr>) = job_ok E p" "res_ok E (p\<lparr>bp_free := l\<rparr>) = res_ok E p"
  by (auto simp: job_ok_def res_ok_def fun_eq_iff)

lemma main_ok_return [simp]: "main_ok E p tags cap (return_to c)"
  by (auto simp: return_to_def split: caller.splits)

lemma capture_data:
  assumes E: "env_ok E" and c: "capture E inp c idx s = Go s'" and m: "pi_main s = MCapture c idx"
    and inv: "inv_own s" "inv_data E s" "inv_sizes s"
  shows "inv_data E s'"
proof -
  have idx: "0 \<le> idx" "idx < 5" and other: "i \<noteq> idx" "0 \<le> i" if "i \<in># slots_out s" for i
    using own_range[OF inv(1)] own_distinct(1)[OF inv(1), of idx] m that by auto
  have i5: "0 \<le> idx" "idx < 5" using own_range(2)[OF inv(1)] m by auto
  from c obtain us scale rw rh job where
    l: "letterbox WIDTH HEIGHT (int (en_model_w E)) (int (en_model_h E)) = Some (scale, rw, rh)"
    and j: "job = \<lparr>ij_buf_idx = idx, ij_scale_w = scale, ij_scale_h = scale,
            ij_frame_id = pi_frame_counter s, ij_capture_us = us\<rparr>"
    and s': "s' = s\<lparr>pi_pool := (pi_pool s)\<lparr>
              bp_display := (bp_display (pi_pool s))[nat idx := en_bgr E (in_frame inp)],
              bp_model := (bp_model (pi_pool s))[nat idx := en_resize E rw rh (en_bgr E (in_frame inp))]\<rparr>,
            pi_infer_q := pi_infer_q s @ [job], pi_frame_counter := pi_frame_counter s + 1,
            pi_main := MStoreId c, gh_tag := (gh_tag s)[nat idx := length (gh_captured s)],
            gh_captured := gh_captured s @ [in_frame inp]\<rparr>"
    by (elim capture_cases) blast
  note lb = letterbox_env[OF E l]
  have "job_ok E (pi_pool s') (gh_tag s') (gh_captured s') job"
    using inv(2,3) i5 lb by (simp add: job_ok_def tag_ok_def frame_in_def s' j inv_data_def inv_sizes_def)
  moreover have "job_ok E (pi_pool s') (gh_tag s') (gh_captured s') j" if "j \<in> set (jobs_of s)" for j
    using inv(2) that i5 other[OF slots_jobs[OF that]] job_ok_other[of E _ _ _ j "nat idx"]
    by (simp add: s' inv_data_def nat_neq)
  moreover have "res_ok E (pi_pool s') (gh_tag s') (gh_captured s') r" if "r \<in> set (results_of s)" for r
    using inv(2) that i5 other[OF slots_results[OF that]] res_ok_other[of E _ _ _ r "nat idx"]
    by (simp add: s' inv_data_def nat_neq)
  moreover have "set (jobs_of s') \<subseteq> insert job (set (jobs_of s))" "results_of s' = results_of s"
    by (auto simp: s' jobs_of_def results_of_def)
  ultimately show ?thesis
    using inv(2) log_ok_more by (auto simp: inv_data_def s')
qed

lemma draw_data:
  assumes s': "s' = s\<lparr>pi_pool := (pi_pool s)\<lparr>bp_display := (bp_display (pi_pool s))[nat (ir_buf_idx r) := img]\<rparr>,
                     pi_main := MPublish start r\<rparr>"
    and m: "pi_main s = MDraw start r"
    and d: "draw_group (ir_group r) (bp_display (pi_pool s) ! nat (ir_buf_idx r)) = Some img"
    and inv: "inv_own s" "inv_data E s" "inv_sizes s"
  shows "inv_data E s'"
proof -
  let ?i = "ir_buf_idx r"
  have i5: "0 \<le> ?i" "?i < 5" using own_range(2)[OF inv(1)] m by auto
  have other: "nat i \<noteq> nat ?i" if "i \<in># slots_out s" for i
    using own_range(1)[OF inv(1)] own_distinct(1)[OF inv(1), of ?i] m that i5 by (auto simp: eq_nat_nat_iff)
  have "res_ok E (pi_pool s) (gh_tag s) (gh_captured s) r" using inv(2) m by (simp add: inv_data_def)
  then have "main_ok E (pi_pool s') (gh_tag s') (gh_captured s') (pi_main s')"
    using d inv(3) i5 by (auto simp: s' res_ok_def inv_sizes_def)
  moreover have "job_ok E (pi_pool s') (gh_tag s') (gh_captured s') j" if "j \<in> set (jobs_of s)" for j
    using inv(2) that other[OF slots_jobs[OF that]] by (simp add: s' inv_data_def job_ok_draw)
  moreover have "res_ok E (pi_pool s') (gh_tag s') (gh_captured s') q" if "q \<in> set (results_of s)" for q
    using inv(2) that other[OF slots_results[OF that]] by (simp add: s' inv_data_def res_ok_draw)
  moreover have "jobs_of s' = jobs_of s" "results_of s' = results_of s"
    by (simp_all add: s' jobs_of_def results_of_def)
  ultimately show ?thesis using inv(2) by (simp add: inv_data_def s')
qed

lemma tokens_upd [simp]:
  "jobs_of (s\<lparr>pi_main := m\<rparr>) = jobs_of s" "results_of (s\<lparr>pi_main := m\<rparr>) = results_of s"
  "jobs_of (s\<lparr>pi_ctl := c\<rparr>) = jobs_of s" "results_of (s\<lparr>pi_ctl := c\<rparr>) = results_of s"
  "jobs_of (s\<lparr>pi_pool := p\<rparr>) = jobs_of s" "results_of (s\<lparr>pi_pool := p\<rparr>) = results_of s"
  "jobs_of (s\<lparr>pi_in_flight := n\<rparr>) = jobs_of s" "results_of (s\<lparr>pi_in_flight := n\<rparr>) = results_of s"
  "jobs_of (s\<lparr>pi_ctxs := x\<rparr>) = jobs_of s" "results_of (s\<lparr>pi_ctxs := x\<rparr>) = results_of s"
  "jobs_of (s\<lparr>pi_pp := pp\<rparr>) = jobs_of s" "results_of (s\<lparr>pi_pp := pp\<rparr>) = results_of s"
  "jobs_of (s\<lparr>pi_pub := pb\<rparr>) = jobs_of s" "results_of (s\<lparr>pi_pub := pb\<rparr>) = results_of s"
  "jobs_of (s\<lparr>pi_running := r\<rparr>) = jobs_of s" "results_of (s\<lparr>pi_running := r\<rparr>) = results_of s"
  "jobs_of (s\<lparr>gh_log := l\<rparr>) = jobs_of s" "results_of (s\<lparr>gh_log := l\<rparr>) = results_of s"
  "jobs_of (s\<lparr>gh_drained := d\<rparr>) = jobs_of s" "results_of (s\<lparr>gh_drained := d\<rparr>) = results_of s"
  "jobs_of (s\<lparr>pi_result_q := q\<rparr>) = jobs_of s" "jobs_of (perf a b s) = jobs_of s"
  "results_of (perf a b s) = results_of s" "results_of (s\<lparr>pi_infer_q := iq\<rparr>) = results_of s"
  by (simp_all add: jobs_of_def results_of_def)

lemma results_pop: "pi_result_q s = r # q \<Longrightarrow>
  set (results_of s) = insert r (set (results_of (s\<lparr>pi_result_q := q\<rparr>)))"
  by (auto simp: results_of_def)

lemma jobs_sentinel: "\<not> real j \<Longrightarrow> jobs_of (s\<lparr>pi_infer_q := pi_infer_q s @ [j]\<rparr>) = jobs_of s"
  by (simp add: jobs_of_def)

lemma main_data:
  assumes E: "env_ok E" and s: "main_step E inp s = Go s'" and inv: "inv_own s" "inv_data E s" "inv_sizes s"
  shows "inv_data E s'"
proof (cases "pi_main s")
  case (MCapture c idx)
  show ?thesis by (rule capture_data[OF E main_MCapture[OF s MCapture] MCapture inv])
next
  case (MDraw start r)
  with s obtain img where d: "draw_group (ir_group r) (bp_display (pi_pool s) ! nat (ir_buf_idx r)) = Some img"
    and s': "s' = s\<lparr>pi_pool := (pi_pool s)\<lparr>bp_display := (bp_display (pi_pool s))[nat (ir_buf_idx r) := img]\<rparr>,
                     pi_main := MPublish start r\<rparr>"
    by (auto simp: main_defs split: option.splits)
  show ?thesis by (rule draw_data[OF s' MDraw d inv])
next
  case (MAcquire c)
  with s inv(2) show ?thesis
    by (auto simp: main_defs inv_data_def pool_acquire_def split: list.splits)
next
  case (MPublish start r)
  with s inv(2) show ?thesis
    by (auto simp: main_defs inv_data_def Let_def log_ok_def tag_ok_def frame_in_def split: main_splits)
next
  case MBoPop
  with s obtain r q where "pi_result_q s = r # q" "jobs_of s' = jobs_of s"
    "results_of s' = results_of (s\<lparr>pi_result_q := q\<rparr>)" "pi_main s' = MBoRelease (ir_buf_idx r)"
    "pi_pool s' = pi_pool s" "gh_tag s' = gh_tag s" "gh_captured s' = gh_captured s" "gh_log s' = gh_log s"
    "pi_frame_counter s' = pi_frame_counter s"
    by (auto simp: main_defs fifo_simps split: option.splits)
  with inv(2) results_pop[of s r q] show ?thesis by (simp add: inv_data_def)
next
  case (MTake start)
  with s obtain r q where "pi_result_q s = r # q" "jobs_of s' = jobs_of s"
    "results_of s' = results_of (s\<lparr>pi_result_q := q\<rparr>)" "pi_main s' = MDraw start r"
    "pi_pool s' = pi_pool s" "gh_tag s' = gh_tag s" "gh_captured s' = gh_captured s" "gh_log s' = gh_log s"
    "pi_frame_counter s' = pi_frame_counter s"
    by (auto simp: main_defs fifo_simps split: option.splits)
  with inv(2) results_pop[of s r q] show ?thesis by (simp add: inv_data_def)
qed (use s inv(2) in \<open>auto simp: main_defs inv_data_def Let_def tsq_push_def pool_release_def jobs_sentinel real_def
        split: main_splits\<close>)

section \<open>Every frame is accounted for\<close>

lemma results_pop_mset: "pi_result_q s = r # q \<Longrightarrow>
  mset (results_of s) = add_mset r (mset (results_of (s\<lparr>pi_result_q := q\<rparr>)))"
  by (simp add: results_of_def)

lemma capture_frames:
  assumes c: "capture E inp c idx s = Go s'" and m: "pi_main s = MCapture c idx"
    and inv: "inv_own s" "inv_frames s" "inv_sizes s"
  shows "inv_frames s'"
proof -
  have i5: "0 \<le> idx" "idx < 5" using own_range(2)[OF inv(1)] m by auto
  from c obtain job where
    job: "ij_buf_idx job = idx" and q: "pi_infer_q s' = pi_infer_q s @ [job]"
    and t: "gh_tag s' = (gh_tag s)[nat idx := length (gh_captured s)]"
    and s': "gh_captured s' = gh_captured s @ [in_frame inp]" "pi_main s' = MStoreId c"
      "pi_workers s' = pi_workers s" "pi_result_q s' = pi_result_q s" "gh_log s' = gh_log s" "gh_drained s' = gh_drained s"
    by (elim capture_cases) (rule that, auto)
  have "slots_out s' = add_mset idx (slots_out s)"
    using i5 job by (simp add: slots_out_def jobs_of_def results_of_def q s' real_def)
  moreover have "image_mset (\<lambda>i. gh_tag s' ! nat i) (slots_out s) = image_mset (\<lambda>i. gh_tag s ! nat i) (slots_out s)"
  proof (rule image_mset_cong)
    fix i assume "i \<in># slots_out s"
    then have "0 \<le> i" "i \<noteq> idx" using own_range(1)[OF inv(1)] own_distinct(1)[OF inv(1), of idx] m by auto
    then show "gh_tag s' ! nat i = gh_tag s ! nat i" using i5 by (simp add: t nat_neq)
  qed
  moreover have "gh_tag s' ! nat idx = length (gh_captured s)" using i5 inv(3) by (simp add: t inv_sizes_def)
  ultimately show ?thesis using inv(2) m by (simp add: inv_frames_def s')
qed

lemma main_frames:
  assumes s: "main_step E inp s = Go s'" and inv: "inv_own s" "inv_frames s" "inv_sizes s"
  shows "inv_frames s'"
proof (cases "pi_main s")
  case (MCapture c idx)
  show ?thesis by (rule capture_frames[OF main_MCapture[OF s MCapture] MCapture inv])
next
  case MBoPop
  with s obtain r q where "pi_result_q s = r # q" "jobs_of s' = jobs_of s"
    "results_of s' = results_of (s\<lparr>pi_result_q := q\<rparr>)" "pi_main s' = MBoRelease (ir_buf_idx r)"
    "gh_tag s' = gh_tag s" "gh_captured s' = gh_captured s" "gh_log s' = gh_log s"
    "gh_drained s' = gh_drained s @ [gh_tag s ! nat (ir_buf_idx r)]"
    by (auto simp: main_defs fifo_simps split: option.splits)
  with inv(2) MBoPop results_pop_mset[of s r q] show ?thesis by (simp add: inv_frames_def slots_out_def)
next
  case (MTake start)
  with s obtain r q where "pi_result_q s = r # q" "jobs_of s' = jobs_of s"
    "results_of s' = results_of (s\<lparr>pi_result_q := q\<rparr>)" "pi_main s' = MDraw start r"
    "gh_tag s' = gh_tag s" "gh_captured s' = gh_captured s" "gh_log s' = gh_log s" "gh_drained s' = gh_drained s"
    by (auto simp: main_defs fifo_simps split: option.splits)
  with inv(2) MTake results_pop_mset[of s r q] show ?thesis by (simp add: inv_frames_def slots_out_def)
qed (use s inv(2) in \<open>auto simp: main_defs inv_frames_def slots_out_def Let_def tsq_push_def jobs_sentinel real_def
        return_to_count split: main_splits\<close>)

section \<open>The publisher, and the end\<close>

definition inv_pub :: "pipe \<Rightarrow> bool" where
  "inv_pub s \<longleftrightarrow> pub_inv (pi_pub s)"

definition inv_joined :: "pipe \<Rightarrow> bool" where
  "inv_joined s \<longleftrightarrow> (pi_main s = MDeinit \<or> pi_main s = MDone \<longrightarrow> list_all (\<lambda>w. w = WExit) (pi_workers s))
     \<and> (pi_main s = MJoinPub \<longrightarrow> \<not> pb_running (pi_pub s))"

lemma group_ok_wf:
  assumes "env_ok E" "group_ok E f g"
  shows "wf_group g" "\<forall>r\<in>set (take (nat (dg_count g)) (dg_results g)). box_nonneg r"
  using assms detect_any(2,3)[of E pp_start f] by (auto simp: group_ok_def) (simp add: zero_group_def)

lemma main_pub:
  assumes E: "env_ok E" and s: "main_step E inp s = Go s'" and inv: "inv_data E s" "inv_pub s"
  shows "inv_pub s'"
proof (cases "pi_main s")
  case (MCapture c idx)
  from capture_fields[OF main_MCapture[OF s this]] inv(2) show ?thesis by (simp add: inv_pub_def)
next
  case (MPublish start r)
  with s obtain m us ok pub where p: "pub_publish m (pi_pub s) = Some (ok, pub)" and pub: "pi_pub s' = pub"
    and m: "m = \<lparr>dm_frame_id = ir_frame_id r, dm_timestamp_us = us, dm_group = ir_group r\<rparr>"
    by (auto simp: main_defs Let_def split: main_splits)
  have "group_ok E (frame_in (gh_tag s) (gh_captured s) (ir_buf_idx r)) (ir_group r)"
    using inv(1) MPublish by (simp add: inv_data_def)
  from group_ok_wf(1)[OF E this] have "wf_message m" by (simp add: wf_message_def m)
  then show ?thesis
    using pub_step_inv[of "pi_pub s" "EvPublish m" "[]" pub] inv(2) p by (simp add: inv_pub_def pub)
next
  case MStopPub
  with s inv(2) pub_step_inv[of "pi_pub s" EvStop "[]" "pub_stop (pi_pub s)"] show ?thesis
    by (auto simp: main_defs inv_pub_def)
qed (use s inv(2) in \<open>auto simp: main_defs inv_pub_def Let_def split: main_splits\<close>)

lemma main_joined:
  assumes s: "main_step E inp s = Go s'" and inv: "inv_joined s"
  shows "inv_joined s'"
proof (cases "pi_main s")
  case (MCapture c idx)
  from capture_fields[OF main_MCapture[OF s this]] inv show ?thesis by (simp add: inv_joined_def)
next
  case (MStoreId c)
  with s show ?thesis by (auto simp: main_defs inv_joined_def return_to_def split: caller.splits if_splits)
qed (use s inv in \<open>auto simp: main_defs inv_joined_def pub_stop_def Let_def split: main_splits\<close>)

lemma turn_running: "sender_turn p = Some (out, p') \<Longrightarrow> pb_running p' = pb_running p"
  unfolding sender_turn_def by (auto split: option.splits if_splits prod.splits bool.splits)

lemma sender_running:
  assumes "sender_step k s = Go s'"
  shows "pb_running (pi_pub s') = pb_running (pi_pub s)"
proof (cases k)
  case None
  with assms show ?thesis by (auto simp: sender_step_def dest: turn_running split: option.splits)
next
  case (Some c)
  with assms show ?thesis by (auto simp: sender_step_def sender_accept_def split: if_splits)
qed

lemma sender_pub:
  assumes "sender_step k s = Go s'" "inv_pub s"
  shows "inv_pub s'"
proof -
  define e where "e = (case k of Some k \<Rightarrow> EvAccept k | None \<Rightarrow> EvTurn)"
  from assms(1) obtain out pub where "pub_step e (pi_pub s) = Some (out, pub)" "pi_pub s' = pub"
    by (auto simp: sender_step_def e_def split: option.splits)
  with assms(2) pub_step_inv[of "pi_pub s" e out pub] show ?thesis
    by (auto simp: inv_pub_def e_def split: option.splits)
qed

section \<open>The start time\<close>

fun caller_start :: "caller \<Rightarrow> fp option" where
  "caller_start (Steady t) = Some t"
| "caller_start _ = None"

fun start_of :: "main_pc \<Rightarrow> fp option" where
  "start_of (MAcquire c) = caller_start c"
| "start_of (MCapture c _) = caller_start c"
| "start_of (MStoreId c) = caller_start c"
| "start_of (MTake t) = Some t"
| "start_of (MDraw t _) = Some t"
| "start_of (MPublish t _) = Some t"
| "start_of (MRelease t _) = Some t"
| "start_of (MPerf t) = Some t"
| "start_of _ = None"

definition clock_read :: "fp \<Rightarrow> bool" where
  "clock_read t \<longleftrightarrow> (\<exists>tv. ok_time tv \<and> t = get_us tv)"

definition inv_clock :: "pipe \<Rightarrow> bool" where
  "inv_clock s \<longleftrightarrow> (\<forall>t. start_of (pi_main s) = Some t \<longrightarrow> clock_read t)"

lemma start_of_return: "start_of (return_to c) = caller_start c"
  by (auto simp: return_to_def split: caller.splits)

lemma main_clock:
  assumes "ok_time (in_tv inp)" "main_step E inp s = Go s'" "inv_clock s"
  shows "inv_clock s'"
proof (cases "pi_main s")
  case (MCapture c idx)
  from capture_fields[OF main_MCapture[OF assms(2) this]] assms(3) MCapture show ?thesis by (simp add: inv_clock_def)
next
  case MBlackout
  with assms(2) have "start_of (pi_main s') = None \<or> start_of (pi_main s') = Some (get_us (in_tv inp))"
    by (cases "ys_blackout_requested (pi_ctl s)") (auto simp: main_defs)
  then show ?thesis using assms(1) by (auto simp: inv_clock_def clock_read_def simp del: split_paired_Ex)
qed (use assms in \<open>auto simp: main_defs inv_clock_def start_of_return Let_def split: main_splits\<close>)

section \<open>All of it\<close>

definition pipe_inv :: "env \<Rightarrow> pipe \<Rightarrow> bool" where
  "pipe_inv E s \<longleftrightarrow> inv_own s \<and> inv_count s \<and> inv_ctx s \<and> inv_resume s \<and> inv_exits s \<and> inv_ctrl s
     \<and> inv_pp E s \<and> inv_data E s \<and> inv_sizes s \<and> inv_frames s \<and> inv_pub s \<and> inv_joined s \<and> inv_clock s"

lemma pipe_invD:
  assumes "pipe_inv E s"
  shows "inv_own s" "inv_count s" "inv_ctx s" "inv_resume s" "inv_exits s" "inv_ctrl s" "inv_pp E s"
    "inv_data E s" "inv_sizes s" "inv_frames s" "inv_pub s" "inv_joined s" "inv_clock s"
  using assms by (simp_all add: pipe_inv_def)

lemma main_inv:
  assumes "env_ok E" "ok_time (in_tv inp)" "main_step E inp s = Go s'" "pipe_inv E s"
  shows "pipe_inv E s'"
  using pipe_invD[OF assms(4)] assms(1-3)
  by (auto simp: pipe_inv_def intro: main_own main_count main_ctx main_resume main_exits main_ctrl main_pp
      main_data main_sizes main_frames main_pub main_joined main_clock)

lemma worker_inv:
  assumes E: "env_ok E" and s: "worker_step E garbage us i s = Go s'" and i: "i < N_THREADS" and inv: "pipe_inv E s"
  shows "pipe_inv E s'"
proof -
  note v = pipe_invD[OF inv]
  have l: "i < length (pi_workers s)" using v(9) i by (simp add: inv_sizes_def N_THREADS_def)
  have ne: "pi_workers s ! i \<noteq> WExit" using s by (auto simp: worker_step_def)
  have nd: "pi_main s \<noteq> MDone" "pi_main s \<noteq> MDeinit"
    using v(12) l ne by (auto simp: inv_joined_def list_all_length)
  note k = worker_keeps[OF s l] and sl = worker_slots[OF s l]
  have "inv_own s'" "inv_count s'" "inv_ctx s'" "inv_resume s'" "inv_exits s'" "inv_ctrl s'" "inv_sizes s'"
    "inv_frames s'" "inv_pub s'" "inv_joined s'" "inv_clock s'"
    using v nd sl(1-3) k worker_exits[OF s l]
    by (simp_all add: inv_own_def inv_count_def inv_ctx_def inv_resume_def inv_exits_def inv_ctrl_def inv_sizes_def
        inv_frames_def inv_pub_def inv_joined_def inv_clock_def)
  then show ?thesis using worker_data[OF s l E v(8,7) nd(1)] by (simp add: pipe_inv_def)
qed

lemma ctrl_inv:
  assumes s: "ctrl_step cin s = Go s'" and inv: "pipe_inv E s"
  shows "pipe_inv E s'"
proof -
  note v = pipe_invD[OF inv] and k = ctrl_keeps[OF s]
  obtain c p where s': "s' = s\<lparr>pi_ctl := c, pi_ctrl := p\<rparr>" using ctrl_frame[OF s] by metis
  have r: "resume_flag m (ys_resume_requested c) (ys_shutdown_requested c)"
    if "resume_flag m (ys_resume_requested (pi_ctl s)) (ys_shutdown_requested (pi_ctl s))" for m
    using that k(2,3) by (cases m) (auto simp: s')
  have t: "jobs_of s' = jobs_of s" "results_of s' = results_of s" "slots_out s' = slots_out s" "outstanding s' = outstanding s"
    "exits s' = exits s"
    by (simp_all add: s' jobs_of_def results_of_def slots_out_def outstanding_def exits_def)
  have "inv_own s'" "inv_count s'" "inv_exits s'" "inv_sizes s'" "inv_pub s'" "inv_joined s'" "inv_pp E s'" "inv_clock s'"
    using v(1,2,5,9,11,12,7,13)
    by (simp_all add: inv_own_def inv_count_def inv_exits_def inv_sizes_def inv_pub_def inv_joined_def inv_pp_def inv_clock_def t)
      (simp_all add: s')
  moreover have "inv_data E s'" "inv_frames s'" using v(8,10) by (simp_all add: inv_data_def inv_frames_def t) (simp_all add: s')
  moreover have "inv_ctx s'" using v(3) k(1) by (simp add: inv_ctx_def t) (simp add: s')
  moreover have "inv_resume s'" using v(4) r by (simp add: inv_resume_def s')
  moreover have "inv_ctrl s'" using v(6) k(5,6) by (auto simp: inv_ctrl_def s')
  ultimately show ?thesis by (simp add: pipe_inv_def)
qed

lemma sender_inv:
  assumes s: "sender_step k s = Go s'" and inv: "pipe_inv E s"
  shows "pipe_inv E s'"
proof -
  note v = pipe_invD[OF inv]
  obtain p where s': "s' = s\<lparr>pi_pub := p\<rparr>" using sender_frame[OF s] by metis
  have t: "slots_out s' = slots_out s" "exits s' = exits s"
    by (simp_all add: s' slots_out_def)
  show ?thesis
    using v sender_pub[OF s v(11)] sender_running[OF s]
    by (simp add: pipe_inv_def inv_own_def inv_count_def inv_ctx_def inv_resume_def inv_exits_def inv_ctrl_def inv_pp_def
        inv_data_def inv_sizes_def inv_frames_def inv_joined_def inv_clock_def t) (simp add: s')
qed

lemma start_inv:
  assumes "start_pub pub"
  shows "pipe_inv E (pipe_start E pub ctrl_ok)"
proof -
  have "pub_inv (pub_new 32)" by (auto simp: pub_inv_def pub_new_def) (simp add: bq_new_def)
  then have "pub_inv pub" using assms by (auto simp: start_pub_def pub_start_def pub_inv_def split: if_splits)
  moreover have "[0..<5] = [0, 1, 2, 3, 4]" by (simp add: upt_rec)
  ultimately show ?thesis
    by (auto simp: pipe_inv_def inv_own_def inv_count_def inv_ctx_def inv_resume_def inv_exits_def inv_ctrl_def inv_pp_def
        inv_data_def inv_sizes_def inv_frames_def inv_joined_def inv_pub_def inv_clock_def pipe_start_def tokens_defs exits_def live_def
        pool_init_state empty_pool_def N_BUF_def N_THREADS_def ctl_init_def)
qed

lemma reachable_inv:
  assumes "env_ok E" "reachable E s"
  shows "pipe_inv E s"
  using assms(2)
proof induction
  case (start pub ctrl_ok)
  then show ?case by (rule start_inv)
next
  case (step s s')
  from step.hyps(2) step.IH show ?case
    by (cases rule: sys_step.cases) (auto intro: main_inv[OF assms(1)] worker_inv[OF assms(1)] ctrl_inv sender_inv)
qed

end
