(* ===== verification/Pipeline_Safety.thy ===== *)
theory Pipeline_Safety
  imports Pipeline_Data
begin

text \<open>
  What the invariants give: no undefined behaviour, exclusive ownership of the frame buffers, the
  published detections and pictures, the NPU during a blackout, and progress of every thread.
\<close>

section \<open>No step is undefined\<close>

lemma ctx_live:
  assumes "pipe_inv E s" "0 < outstanding s" "pi_main s \<noteq> MDone"
  shows "pi_ctxs s = live"
  using pipe_invD(2,3)[OF assms(1)] assms(2,3)
  by (cases "pi_main s") (auto simp: inv_ctx_def inv_count_def split: if_splits)

lemma workers_length: "pipe_inv E s \<Longrightarrow> length (pi_workers s) = 3"
  by (simp add: pipe_inv_def inv_sizes_def)

lemma worker_job_in:
  assumes "i < length (pi_workers s)" "pi_workers s ! i = WRun job \<or> pi_workers s ! i = WJob job"
  shows "job \<in> set (jobs_of s)"
proof -
  have "pi_workers s ! i \<in> set (pi_workers s)" using assms(1) by simp
  moreover have "job \<in> set (worker_jobs (pi_workers s ! i))" using assms(2) by auto
  ultimately show ?thesis by (auto simp: jobs_of_def)
qed

lemma worker_defined:
  assumes E: "env_ok E" and inv: "pipe_inv E s" and i: "i < N_THREADS"
  shows "worker_step E garbage us i s \<noteq> Undefined"
proof (cases "pi_workers s ! i")
  case (WRun job)
  have l: "i < length (pi_workers s)" using i workers_length[OF inv] by (simp add: N_THREADS_def)
  have j: "job \<in> set (jobs_of s)" using worker_job_in[OF l] WRun by blast
  then have out: "0 < outstanding s" by (auto simp: outstanding_def)
  have nd: "pi_main s \<noteq> MDone"
    using pipe_invD(12)[OF inv] l WRun by (auto simp: inv_joined_def list_all_length)
  have "pi_ctxs s ! i" using ctx_live[OF inv out nd] i by (simp add: live_def)
  moreover have "job_ok E (pi_pool s) (gh_tag s) (gh_captured s) job"
    using pipe_invD(8)[OF inv] j by (simp add: inv_data_def)
  moreover have "pi_pp s = pp_start \<or> pi_pp s = labels_loaded E"
    using pipe_invD(7)[OF inv] nd by (simp add: inv_pp_def)
  ultimately have "infer E garbage us (pi_ctxs s ! i) (bp_model (pi_pool s) ! nat (ij_buf_idx job)) (pi_pp s) job \<noteq> None"
    using detect_any(1)[OF E] by (auto simp: infer_def job_ok_def)
  then show ?thesis using WRun by (auto simp: worker_step_def)
qed (auto simp: worker_step_def split: option.splits)

lemma sender_defined:
  assumes "pipe_inv E s"
  shows "sender_step k s \<noteq> Undefined"
proof -
  have "pub_inv (pi_pub s)" using pipe_invD(11)[OF assms] by (simp add: inv_pub_def)
  then obtain out p where "pub_step (case k of Some k \<Rightarrow> EvAccept k | None \<Rightarrow> EvTurn) (pi_pub s) = Some (out, p)"
    by (rule pub_step_total)
  then show ?thesis by (simp only: sender_step_def option.simps prod.case turn.distinct not_False_eq_True)
qed

lemma ctrl_defined: "ctrl_step cin s \<noteq> Undefined"
  by (auto simp: ctrl_step_def split: ctrl_pc.splits ctrl_in.splits prod.splits outcome.splits)

lemma draw_defined:
  assumes "env_ok E" "pipe_inv E s" "pi_main s = MDraw start r"
  shows "\<exists>img. draw_group (ir_group r) (bp_display (pi_pool s) ! nat (ir_buf_idx r)) = Some img"
proof -
  let ?f = "frame_in (gh_tag s) (gh_captured s) (ir_buf_idx r)"
  have r: "bp_display (pi_pool s) ! nat (ir_buf_idx r) = en_bgr E ?f" "group_ok E ?f (ir_group r)"
    using pipe_invD(8)[OF assms(2)] assms(3) by (auto simp: inv_data_def res_ok_def)
  have "length (en_bgr E ?f) = frame_size" using assms(1) by (simp add: env_ok_def)
  from draw_group_total[OF group_ok_wf[OF assms(1) r(2)] this] show ?thesis by (auto simp: r(1))
qed

lemma main_defined:
  assumes E: "env_ok E" and inv: "pipe_inv E s" and t: "ok_time (in_tv inp)" and u: "main_step E inp s = Undefined"
  shows "pi_main s = MDeinit \<and> ys_blackout_active (pi_ctl s)"
proof (cases "pi_main s")
  case (MCapture c idx)
  have "\<exists>us. fto_u64 (get_us (in_tv inp)) = Some us" by (rule fto_u64_time[OF t])
  moreover have "32 \<le> en_model_w E" "en_model_w E \<le> 4096" using E by (auto simp: env_ok_def)
  ultimately show ?thesis
    using u MCapture letterbox_frame(1)[of "en_model_w E" "int (en_model_h E)"]
    by (auto simp: main_defs capture_def Let_def)
next
  case (MDraw start r)
  with u draw_defined[OF E inv MDraw] show ?thesis by (auto simp: main_defs)
next
  case (MPublish start r)
  obtain tv where "ok_time tv" "start = get_us tv"
    using pipe_invD(13)[OF inv] MPublish by (auto simp: inv_clock_def clock_read_def simp del: split_paired_Ex)
  then obtain us where us: "fto_u64 start = Some us" using fto_u64_time by blast
  have "pub_inv (pi_pub s)" using pipe_invD(11)[OF inv] by (simp add: inv_pub_def)
  then obtain out p where
    "pub_step (EvPublish \<lparr>dm_frame_id = ir_frame_id r, dm_timestamp_us = us, dm_group = ir_group r\<rparr>) (pi_pub s) = Some (out, p)"
    by (rule pub_step_total)
  with u MPublish us show ?thesis by (auto simp: main_defs Let_def split: option.splits)
next
  case MBoDestroy
  with u pipe_invD(3)[OF inv] show ?thesis by (auto simp: main_defs inv_ctx_def destroy_ctxs_def)
next
  case MDeinit
  with u pipe_invD(3)[OF inv] show ?thesis by (auto simp: main_defs inv_ctx_def destroy_ctxs_def split: if_splits)
qed (use u in \<open>auto simp: main_defs split: option.splits if_splits\<close>)

section \<open>Progress\<close>

text \<open>What is left for the inference threads to do.\<close>

fun worker_work :: "worker \<Rightarrow> nat" where
  "worker_work (WJob _) = 3"
| "worker_work (WRun _) = 2"
| "worker_work (WDone _) = 1"
| "worker_work _ = 0"

definition work :: "pipe \<Rightarrow> nat" where
  "work s = 4 * length (pi_infer_q s) + sum_list (map worker_work (pi_workers s))"

lemma worker_work_less:
  assumes "worker_step E garbage us i s = Go s'" "i < length (pi_workers s)"
  shows "work s' < work s"
  using assms by (cases rule: worker_step_cases) (auto simp: work_def)

text \<open>Without a worker that can move, there is nothing in the queue or every thread has returned.\<close>

lemma workers_stuck:
  assumes E: "env_ok E" and inv: "pipe_inv E s"
    and stuck: "\<And>i s'. i < N_THREADS \<Longrightarrow> worker_step E garbage us i s \<noteq> Go s'"
  shows "\<forall>w\<in>set (pi_workers s). w = WIdle \<or> w = WExit"
    and "pi_infer_q s = [] \<or> (\<forall>w\<in>set (pi_workers s). w = WExit)"
proof -
  have l: "length (pi_workers s) = 3" by (rule workers_length[OF inv])
  have b: "worker_step E garbage us i s = Blocked" if "i < 3" for i
    using worker_defined[OF E inv, of i garbage us] stuck[of i] that
    by (cases "worker_step E garbage us i s") (auto simp: N_THREADS_def)
  have w: "w = WExit \<or> w = WIdle \<and> pi_infer_q s = []" if "w \<in> set (pi_workers s)" for w
  proof -
    from that obtain i where i: "i < 3" "w = pi_workers s ! i" using l by (auto simp: in_set_conv_nth)
    show ?thesis using b[OF i(1)] unfolding i(2)
      by (cases "pi_workers s ! i") (auto simp: worker_step_def fifo_simps split: option.splits if_splits)
  qed
  then show "\<forall>w\<in>set (pi_workers s). w = WIdle \<or> w = WExit" by blast
  from w show "pi_infer_q s = [] \<or> (\<forall>w\<in>set (pi_workers s). w = WExit)" by blast
qed

lemma filter_all: "(\<forall>x\<in>set xs. P x) \<Longrightarrow> filter P xs = xs"
  by (induction xs) auto

lemma stuck_no_frames:
  assumes E: "env_ok E" and inv: "pipe_inv E s"
    and stuck: "\<And>i s'. i < N_THREADS \<Longrightarrow> worker_step E garbage us i s \<noteq> Go s'"
    and pc: "sentinels (pi_main s) = 0"
  shows "outstanding s = length (pi_result_q s)"
proof -
  note w = workers_stuck[OF E inv stuck]
  have l: "length (pi_workers s) = 3" by (rule workers_length[OF inv])
  have "exits s = 0" using pipe_invD(5)[OF inv] pc by (simp add: inv_exits_def)
  then have "\<forall>w\<in>set (pi_workers s). w \<noteq> WExit" by (auto simp: exits_def filter_empty_conv)
  moreover have "pi_workers s \<noteq> []" using l by auto
  ultimately have "pi_infer_q s = []" using w(2) by (metis list.set_sel(1))
  moreover have "concat (map worker_jobs (pi_workers s)) = []" "concat (map worker_results (pi_workers s)) = []"
    using w(1) by auto
  ultimately show ?thesis by (simp add: outstanding_def jobs_of_def results_of_def)
qed

lemma stuck_all_exit:
  assumes E: "env_ok E" and inv: "pipe_inv E s"
    and stuck: "\<And>i s'. i < N_THREADS \<Longrightarrow> worker_step E garbage us i s \<noteq> Go s'"
    and pc: "pi_main s = MJoinWorkers"
  shows "list_all (\<lambda>w. w = WExit) (pi_workers s)"
proof (cases "\<forall>w\<in>set (pi_workers s). w = WExit")
  case False
  then have "pi_infer_q s = []" using workers_stuck(2)[OF E inv stuck] by blast
  then have "length (filter (\<lambda>w. w = WExit) (pi_workers s)) = length (pi_workers s)"
    using pipe_invD(5)[OF inv] pc workers_length[OF inv] by (simp add: inv_exits_def exits_def)
  then show ?thesis by (auto simp: list_all_iff dest: length_filter_less)
qed (simp add: list_all_iff)

end
