(* ===== verification/Pipeline_Runs.thy ===== *)
theory Pipeline_Runs
  imports Pipeline_Safety
begin

text \<open>
  Concrete runs of the pipeline: a scheduler for its threads, and the states some schedules reach.
\<close>

datatype act = AMain | AWork nat | ACtrl ctrl_in

definition input0 :: input where
  "input0 = \<lparr>in_tv = (0, 0), in_frame = [], in_init_ok = True\<rparr>"

fun act_step :: "env \<Rightarrow> act \<Rightarrow> pipe \<Rightarrow> pipe turn" where
  "act_step E AMain s = main_step E input0 s"
| "act_step E (AWork i) s = (if i < N_THREADS then worker_step E zero_group 0 i s else Blocked)"
| "act_step E (ACtrl c) s = ctrl_step c s"

fun exec :: "env \<Rightarrow> act list \<Rightarrow> pipe \<Rightarrow> pipe option" where
  "exec E [] s = Some s"
| "exec E (a # acts) s = (case act_step E a s of Go s' \<Rightarrow> exec E acts s' | _ \<Rightarrow> None)"

lemma act_sys_step:
  assumes "act_step E a s = Go s'"
  shows "sys_step E s s'"
proof (cases a)
  case AMain
  with assms show ?thesis by (auto intro!: sys_step.main[of input0] simp: input0_def ok_time_def)
next
  case (AWork i)
  with assms show ?thesis by (auto intro!: sys_step.worker split: if_splits)
next
  case (ACtrl c)
  with assms show ?thesis by (auto intro!: sys_step.ctrl)
qed

lemma exec_reachable: "reachable E s \<Longrightarrow> exec E acts s = Some s' \<Longrightarrow> reachable E s'"
  by (induction acts arbitrary: s) (auto split: turn.splits dest!: act_sys_step intro: reachable.step)

lemma exec_append: "exec E (xs @ ys) s = (case exec E xs s of Some s' \<Rightarrow> exec E ys s' | None \<Rightarrow> None)"
  by (induction xs arbitrary: s) (auto split: turn.splits)

lemma exec_then: "exec E xs s0 = Some s \<Longrightarrow> exec E ys s = Some t \<Longrightarrow> exec E (xs @ ys) s0 = Some t"
  by (simp add: exec_append)

lemma letterbox_sample:
  assumes "env_ok E"
  shows "letterbox WIDTH HEIGHT (int (en_model_w E)) (int (en_model_h E)) = Some (scale_of E, int (en_model_w E), resize_h E)"
  using assms letterbox_frame(1)[of "en_model_w E" "int (en_model_h E)"]
  by (auto simp: env_ok_def scale_of_def resize_h_def)

lemma time_sample: "fto_u64 (get_us (0, 0)) = Some 0"
  by (simp add: get_us_def fof_int_exact)

lemmas run_simps = main_defs capture_def worker_step_def ctrl_step_def tsq_push_def tsq_pop_def pool_acquire_def
  pool_release_def return_to_def N_THREADS_def input0_def Let_def

text \<open>The first three captures.\<close>

definition job0 :: "env \<Rightarrow> nat \<Rightarrow> infer_job" where
  "job0 E i = \<lparr>ij_buf_idx = int i, ij_scale_w = scale_of E, ij_scale_h = scale_of E,
     ij_frame_id = of_nat i, ij_capture_us = 0\<rparr>"

definition prefill :: "act list" where
  "prefill = [AMain, AMain, AMain, AMain, AMain, AMain, AMain, AMain, AMain]"

lemma run_prefill:
  assumes "env_ok E"
  obtains s where "exec E prefill (pipe_start E pub True) = Some s"
    "pi_main s = MLoop" "pi_infer_q s = [job0 E 0, job0 E 1, job0 E 2]" "pi_workers s = [WIdle, WIdle, WIdle]"
    "pi_ctl s = ctl_init\<lparr>ys_frame_id := 3\<rparr>" "pi_ctxs s = live" "pi_result_q s = []" "pi_in_flight s = 3"
    "pi_ctrl s = CAccept" "pi_running s" "pi_pub s = pub" "bp_free (pi_pool s) = [3, 4]"
    "bp_display (pi_pool s) ! 0 = en_bgr E []" "bp_model (pi_pool s) ! 0 = model_image E []" "gh_tag s ! 0 = 0"
    "gh_log s = []" "pi_pp s = pp_start" "length (bp_display (pi_pool s)) = 5"
proof -
  have lists: "[0..<5] = [0, 1, 2, 3, 4]" "replicate 3 x = [x, x, x]" for x :: 'a
    by (simp_all add: upt_rec numeral_eq_Suc)
  have w: "replicate 3 WIdle = [WIdle, WIdle, WIdle]" by (simp add: numeral_eq_Suc)
  have "\<exists>s. exec E prefill (pipe_start E pub True) = Some s
    \<and> pi_main s = MLoop \<and> pi_infer_q s = [job0 E 0, job0 E 1, job0 E 2] \<and> pi_workers s = [WIdle, WIdle, WIdle]
    \<and> pi_ctl s = ctl_init\<lparr>ys_frame_id := 3\<rparr> \<and> pi_ctxs s = live \<and> pi_result_q s = [] \<and> pi_in_flight s = 3
    \<and> pi_ctrl s = CAccept \<and> pi_running s \<and> pi_pub s = pub \<and> bp_free (pi_pool s) = [3, 4]
    \<and> bp_display (pi_pool s) ! 0 = en_bgr E [] \<and> bp_model (pi_pool s) ! 0 = model_image E [] \<and> gh_tag s ! 0 = 0
    \<and> gh_log s = [] \<and> pi_pp s = pp_start \<and> length (bp_display (pi_pool s)) = 5"
    by (simp add: model_image_def prefill_def pipe_start_def run_simps letterbox_sample[OF assms] time_sample
        pool_init_state empty_pool_def N_BUF_def lists w job0_def live_def)
  then show thesis using that by blast
qed

text \<open>Requests, and what the server does with them.\<close>

definition req :: "string \<Rightarrow> string" where
  "req cmd = buildCommand cmd None"

lemma req_cmd:
  assumes "cmd \<in> {''blackout'', ''shutdown'', ''resume'', ''pause_yolo''}"
  shows "req cmd \<noteq> []" "extractString (req cmd) ''cmd'' = cmd"
proof -
  have "DQ \<notin> set cmd" "cmd \<noteq> ''set_dump_enabled''" using assms by auto
  then show "extractString (req cmd) ''cmd'' = cmd" "req cmd \<noteq> []"
    unfolding req_def by (simp_all add: buildCommand_cmd) (simp add: buildCommand_def)
qed

lemma dispatch_req:
  "dispatchCommand d (req ''blackout'') st = (WaitBlackout, st\<lparr>ys_inference_enabled := False, ys_blackout_requested := True\<rparr>)"
  "dispatchCommand d (req ''shutdown'') st = (Reply okResponse, st\<lparr>ys_shutdown_requested := True\<rparr>)"
  "ys_blackout_active st \<Longrightarrow> dispatchCommand d (req ''resume'') st = (WaitResume, st\<lparr>ys_resume_requested := True\<rparr>)"
  "dispatchCommand d (req ''pause_yolo'') st = (Reply okResponse, st\<lparr>ys_inference_enabled := False\<rparr>)"
  by (simp_all add: dispatchCommand_def req_cmd)

lemma req_not_empty [simp]: "req ''blackout'' \<noteq> []" "req ''shutdown'' \<noteq> []" "req ''resume'' \<noteq> []" "req ''pause_yolo'' \<noteq> []"
  by (simp_all add: req_cmd)

text \<open>A blackout from the first pass of the main loop on: the three frames are answered empty and
  discarded, the contexts destroyed, the client told.\<close>

definition blackout :: "act list" where
  "blackout = [ACtrl Connects, ACtrl Quiet, ACtrl (Sends (req ''blackout'')),
     AWork 0, AWork 0, AWork 0, AWork 1, AWork 1, AWork 1, AWork 2, AWork 2, AWork 2,
     AMain, AMain, AMain, AMain, AMain, AMain, AMain, AMain, AMain, AMain, AMain, AMain, AMain, AMain, AMain,
     ACtrl Quiet, ACtrl Quiet, ACtrl Quiet]"

lemma run_blackout:
  assumes "env_ok E"
  obtains s where "exec E (prefill @ blackout) (pipe_start E pub True) = Some s"
    "pi_main s = MBoIdle" "pi_infer_q s = []" "pi_workers s = [WIdle, WIdle, WIdle]"
    "pi_ctl s = ctl_init\<lparr>ys_frame_id := 3, ys_inference_enabled := False, ys_blackout_requested := True,
                         ys_blackout_active := True\<rparr>"
    "pi_ctxs s = dead" "pi_result_q s = []" "pi_in_flight s = 0"
    "pi_ctrl s = CRecv" "pi_running s" "pi_pub s = pub"
proof -
  obtain s where s: "exec E prefill (pipe_start E pub True) = Some s"
    "pi_main s = MLoop" "pi_infer_q s = [job0 E 0, job0 E 1, job0 E 2]" "pi_workers s = [WIdle, WIdle, WIdle]"
    "pi_ctl s = ctl_init\<lparr>ys_frame_id := 3\<rparr>" "pi_ctxs s = live" "pi_result_q s = []" "pi_in_flight s = 3"
    "pi_ctrl s = CAccept" "pi_running s" "pi_pub s = pub" "bp_free (pi_pool s) = [3, 4]"
    by (rule run_prefill[OF assms])
  have "\<exists>t. exec E blackout s = Some t \<and> pi_main t = MBoIdle \<and> pi_infer_q t = [] \<and> pi_workers t = [WIdle, WIdle, WIdle]
    \<and> pi_ctl t = ctl_init\<lparr>ys_frame_id := 3, ys_inference_enabled := False, ys_blackout_requested := True,
                         ys_blackout_active := True\<rparr>
    \<and> pi_ctxs t = dead \<and> pi_result_q t = [] \<and> pi_in_flight t = 0 \<and> pi_ctrl t = CRecv \<and> pi_running t \<and> pi_pub t = pub"
    by (simp add: blackout_def run_simps s job0_def dispatch_req ctl_init_def destroy_ctxs_def paused_result_def
        wait_over_def)
  then show thesis using that exec_then[OF s(1)] by blast
qed

text \<open>A shutdown during the blackout: the main thread leaves the wait, stops the servers and ends the
  threads, and comes to the destruction of the contexts a second time.\<close>

definition shutdown_in_blackout :: "act list" where
  "shutdown_in_blackout = [ACtrl (Sends (req ''shutdown'')), ACtrl Quiet,
     AMain, AMain, AMain, ACtrl Quiet, AMain, AMain, AMain, AMain, AMain, AMain, AWork 0, AWork 1, AWork 2, AMain]"

lemma run_shutdown_in_blackout:
  assumes "env_ok E"
  obtains s where "exec E ((prefill @ blackout) @ shutdown_in_blackout) (pipe_start E (pub_new 32) True) = Some s"
    "pi_main s = MDeinit" "pi_ctxs s = dead"
proof -
  obtain s where s: "exec E (prefill @ blackout) (pipe_start E (pub_new 32) True) = Some s"
    "pi_main s = MBoIdle" "pi_infer_q s = []" "pi_workers s = [WIdle, WIdle, WIdle]"
    "pi_ctl s = ctl_init\<lparr>ys_frame_id := 3, ys_inference_enabled := False, ys_blackout_requested := True,
                         ys_blackout_active := True\<rparr>"
    "pi_ctxs s = dead" "pi_result_q s = []" "pi_in_flight s = 0"
    "pi_ctrl s = CRecv" "pi_running s" "pi_pub s = pub_new 32"
    by (rule run_blackout[OF assms])
  have c: "pb_conn (pub_stop (pub_new 32)) = None" by (simp add: pub_stop_def pub_new_def)
  have "\<exists>t. exec E shutdown_in_blackout s = Some t \<and> pi_main t = MDeinit \<and> pi_ctxs t = dead"
    by (simp add: shutdown_in_blackout_def run_simps s dispatch_req ctl_init_def listen_next_def c)
  then show thesis using that exec_then[OF s(1)] by blast
qed

text \<open>A second blackout requested between the end of the handshake of a resume and the clearing of
  the request flag.\<close>

definition blackout_too_soon :: "act list" where
  "blackout_too_soon = [ACtrl (Sends (req ''resume'')), AMain, AMain, AMain, AMain,
     ACtrl Quiet, ACtrl Quiet, ACtrl Quiet, ACtrl (Sends (req ''blackout'')), AMain, AMain]"

lemma run_blackout_too_soon:
  assumes "env_ok E"
  obtains s where "exec E ((prefill @ blackout) @ blackout_too_soon) (pipe_start E (pub_new 32) True) = Some s"
    "pi_ctrl s = CWait WaitBlackout" "\<not> ys_blackout_requested (pi_ctl s)" "\<not> ys_inference_enabled (pi_ctl s)"
    "\<not> ys_blackout_active (pi_ctl s)" "pi_main s = MAcquire (Refill 0)"
proof -
  obtain s where s: "exec E (prefill @ blackout) (pipe_start E (pub_new 32) True) = Some s"
    "pi_main s = MBoIdle" "pi_infer_q s = []" "pi_workers s = [WIdle, WIdle, WIdle]"
    "pi_ctl s = ctl_init\<lparr>ys_frame_id := 3, ys_inference_enabled := False, ys_blackout_requested := True,
                         ys_blackout_active := True\<rparr>"
    "pi_ctxs s = dead" "pi_result_q s = []" "pi_in_flight s = 0"
    "pi_ctrl s = CRecv" "pi_running s" "pi_pub s = pub_new 32"
    by (rule run_blackout[OF assms])
  have "\<exists>t. exec E blackout_too_soon s = Some t \<and> pi_ctrl t = CWait WaitBlackout
    \<and> \<not> ys_blackout_requested (pi_ctl t) \<and> \<not> ys_inference_enabled (pi_ctl t)
    \<and> \<not> ys_blackout_active (pi_ctl t) \<and> pi_main t = MAcquire (Refill 0)"
    by (simp add: blackout_too_soon_def run_simps s dispatch_req ctl_init_def wait_over_def)
  then show thesis using that exec_then[OF s(1)] by blast
qed

text \<open>A client that asks for a shutdown and keeps its connection open.\<close>

definition shutdown_connected :: "act list" where
  "shutdown_connected = [ACtrl Connects, ACtrl Quiet, ACtrl (Sends (req ''shutdown'')), ACtrl Quiet, ACtrl Quiet,
     AMain, AMain]"

lemma run_shutdown_connected:
  assumes "env_ok E"
  obtains s where "exec E (prefill @ shutdown_connected) (pipe_start E (pub_new 32) True) = Some s"
    "pi_ctrl s = CRecv" "pi_main s = MJoinCtrl"
proof -
  obtain s where s: "exec E prefill (pipe_start E (pub_new 32) True) = Some s"
    "pi_main s = MLoop" "pi_infer_q s = [job0 E 0, job0 E 1, job0 E 2]" "pi_workers s = [WIdle, WIdle, WIdle]"
    "pi_ctl s = ctl_init\<lparr>ys_frame_id := 3\<rparr>" "pi_ctxs s = live" "pi_result_q s = []" "pi_in_flight s = 3"
    "pi_ctrl s = CAccept" "pi_running s" "pi_pub s = pub_new 32" "bp_free (pi_pool s) = [3, 4]"
    by (rule run_prefill[OF assms])
  have "\<exists>t. exec E shutdown_connected s = Some t \<and> pi_ctrl t = CRecv \<and> pi_main t = MJoinCtrl"
    by (simp add: shutdown_connected_def run_simps s dispatch_req ctl_init_def)
  then show thesis using that exec_then[OF s(1)] by blast
qed

text \<open>The first frame of a pipeline, seen by the network, drawn and published.\<close>

definition first_frame :: "act list" where
  "first_frame = [AWork 0, AWork 0, AWork 0, AWork 0, AMain, AMain, AMain, AMain, AMain]"

lemma run_first_frame_pub:
  assumes E: "env_ok E"
    and p: "pub_publish \<lparr>dm_frame_id = 0, dm_timestamp_us = 0, dm_group = detect E []\<rparr> pub = Some (ok, pub')"
  obtains s img where "exec E (prefill @ first_frame) (pipe_start E pub True) = Some s"
    "gh_log s = [(0, \<lparr>dm_frame_id = 0, dm_timestamp_us = 0, dm_group = detect E []\<rparr>, img)]"
    "draw_group (detect E []) (en_bgr E []) = Some img" "pi_pub s = pub'"
proof -
  obtain s where s: "exec E prefill (pipe_start E pub True) = Some s"
    "pi_main s = MLoop" "pi_infer_q s = [job0 E 0, job0 E 1, job0 E 2]" "pi_workers s = [WIdle, WIdle, WIdle]"
    "pi_ctl s = ctl_init\<lparr>ys_frame_id := 3\<rparr>" "pi_ctxs s = live" "pi_result_q s = []" "pi_in_flight s = 3"
    "pi_ctrl s = CAccept" "pi_running s" "pi_pub s = pub" "bp_free (pi_pool s) = [3, 4]"
    "bp_display (pi_pool s) ! 0 = en_bgr E []" "bp_model (pi_pool s) ! 0 = model_image E []" "gh_tag s ! 0 = 0"
    "gh_log s = []" "pi_pp s = pp_start" "length (bp_display (pi_pool s)) = 5"
    by (rule run_prefill[OF E])
  have g: "group_ok E [] (detect E [])" by (simp add: group_ok_def)
  have "length (en_bgr E []) = frame_size" using E by (simp add: env_ok_def)
  from draw_group_total[OF group_ok_wf[OF E g] this] obtain img where
    img: "draw_group (detect E []) (en_bgr E []) = Some img" by blast
  have l: "live ! 0" by (simp add: live_def N_THREADS_def)
  have "\<exists>t. exec E first_frame s = Some t
    \<and> gh_log t = [(0, \<lparr>dm_frame_id = 0, dm_timestamp_us = 0, dm_group = detect E []\<rparr>, img)] \<and> pi_pub t = pub'"
    by (simp add: first_frame_def run_simps s job0_def ctl_init_def infer_def l detect_any(1)[OF E] img p time_sample)
  then show thesis using that exec_then[OF s(1)] img by blast
qed

lemma run_first_frame:
  assumes E: "env_ok E"
  obtains s img where "exec E (prefill @ first_frame) (pipe_start E (pub_new 32) True) = Some s"
    "gh_log s = [(0, \<lparr>dm_frame_id = 0, dm_timestamp_us = 0, dm_group = detect E []\<rparr>, img)]"
    "draw_group (detect E []) (en_bgr E []) = Some img"
proof -
  have p: "pub_publish m (pub_new 32) = Some (True, (pub_new 32)\<lparr>pb_queue := (pb_queue (pub_new 32))\<lparr>bq_items := [m]\<rparr>\<rparr>)" for m
    by (simp add: pub_publish_def pub_new_def bq_push_def bq_new_def)
  show thesis by (rule run_first_frame_pub[OF E p]) (rule that)
qed

section \<open>An environment\<close>

definition sample_env :: env where
  "sample_env = \<lparr>en_bgr = (\<lambda>_. replicate frame_size 0), en_resize = (\<lambda>_ _ img. img),
     en_npu = (\<lambda>_. [replicate 1040 0, replicate 260 0, replicate 65 0]), en_dup_ok = True,
     en_expf = expf0, en_logf = logf0, en_label_file = Some (''uav'' @ [CHR 0x0A]),
     en_model_w = 32, en_model_h = 32, en_zps = [0, 0, 0], en_scales = [Fin (1/8), Fin (1/8), Fin (1/8)]\<rparr>"

lemma sample_env_ok: "env_ok sample_env"
  using sample_inputs sample_load
  by (auto simp: env_ok_def sample_env_def ok_inputs_def loaded_def)

end
