(* ===== verification/Pipeline_Correct.thy ===== *)
theory Pipeline_Correct
  imports Pipeline_Runs
begin

text \<open>
  The properties of the pipeline: what every reachable state of its threads satisfies, and three
  states it reaches although it should not.
\<close>

section \<open>Safety\<close>

lemma start_reachable: "reachable E (pipe_start E (pub_new 32) ctrl_ok)"
  by (rule reachable.start) (auto simp: start_pub_def pub_start_def)



text \<open>C16: the frame buffers are never shared: in every reachable state the five slots are split
  among the free list, the jobs and results in the queues and inference threads, and the main
  thread, each slot in exactly one place.\<close>

theorem buffers_exclusive:
  assumes "env_ok E" "reachable E s"
  shows "mset (bp_free (pi_pool s)) + mset (map ij_buf_idx (jobs_of s)) + mset (map ir_buf_idx (results_of s))
      + mset (main_slots (pi_main s)) = {#0, 1, 2, 3, 4#}"
proof -
  have "[0..<N_BUF] = [0, 1, 2, 3, 4]" by (simp add: N_BUF_def N_THREADS_def upt_rec)
  then show ?thesis
    using pipe_invD(1)[OF reachable_inv[OF assms]] by (simp add: inv_own_def slots_out_def add.assoc)
qed

theorem buffers_exclusive_witness:
  "\<exists>s. reachable sample_env s \<and> main_slots (pi_main s) = []
    \<and> mset (map ij_buf_idx (jobs_of s)) + mset (map ir_buf_idx (results_of s)) = {#0, 1, 2#}
    \<and> mset (bp_free (pi_pool s)) = {#3, 4#}"
proof -
  obtain s where s: "exec sample_env prefill (pipe_start sample_env (pub_new 32) True) = Some s"
    "pi_main s = MLoop" "bp_free (pi_pool s) = [3, 4]"
    by (rule run_prefill[OF sample_env_ok])
  have r: "reachable sample_env s" by (rule exec_reachable[OF start_reachable s(1)])
  from buffers_exclusive[OF sample_env_ok r] s(2,3)
  have "{#3, 4#} + (mset (map ij_buf_idx (jobs_of s)) + mset (map ir_buf_idx (results_of s))) = {#3, 4#} + {#0, 1, 2#}"
    by (simp add: add_mset_commute add.assoc)
  then have "mset (map ij_buf_idx (jobs_of s)) + mset (map ir_buf_idx (results_of s)) = {#0, 1, 2#}"
    by (rule add_left_imp_eq)
  with r s show ?thesis by auto
qed



text \<open>C13: no frame is published twice or lost: the published and the discarded frames are distinct
  captured frames, and all other captured frames, three at most, are still in the pipeline.\<close>

theorem frames_accounted:
  assumes "env_ok E" "reachable E s"
  shows "distinct (map fst (gh_log s) @ gh_drained s)
    \<and> set (map fst (gh_log s) @ gh_drained s) \<subseteq> {..<length (gh_captured s)}
    \<and> length (gh_captured s) \<le> length (gh_log s) + length (gh_drained s) + 3"
proof -
  note inv = reachable_inv[OF assms]
  define p where "p = image_mset (\<lambda>i. gh_tag s ! nat i) (slots_out s)
     + mset (map (\<lambda>r. gh_tag s ! nat (ir_buf_idx r)) (main_result (pi_main s)))"
  have eq: "p + mset (map fst (gh_log s) @ gh_drained s) = mset [0..<length (gh_captured s)]"
    using pipe_invD(10)[OF inv] by (simp add: inv_frames_def p_def add.assoc)
  have "size p = outstanding s + length (main_result (pi_main s))"
    by (simp add: p_def slots_out_def outstanding_def)
  moreover have "flight (pi_main s) (outstanding s)" using pipe_invD(2)[OF inv] by (simp add: inv_count_def)
  then have "outstanding s + length (main_result (pi_main s)) \<le> 3" by (cases "pi_main s") auto
  moreover have "size p + (length (gh_log s) + length (gh_drained s)) = length (gh_captured s)"
    using arg_cong[OF eq, of size] by simp
  ultimately have "length (gh_captured s) \<le> length (gh_log s) + length (gh_drained s) + 3" by linarith
  moreover obtain ps where "mset ps = p" using ex_mset by blast
  then have ps: "mset (ps @ map fst (gh_log s) @ gh_drained s) = mset [0..<length (gh_captured s)]"
    using eq by simp
  have "distinct (map fst (gh_log s) @ gh_drained s)"
    using mset_eq_imp_distinct_iff[OF ps] by simp
  moreover have "set (map fst (gh_log s) @ gh_drained s) \<subseteq> set [0..<length (gh_captured s)]"
    using mset_eq_setD[OF ps] by auto
  ultimately show ?thesis by (simp add: atLeast0LessThan)
qed

theorem frames_accounted_witness:
  "\<exists>s. reachable sample_env s \<and> map fst (gh_log s) = [0] \<and> distinct (map fst (gh_log s) @ gh_drained s)"
proof -
  obtain s img where s: "exec sample_env (prefill @ first_frame) (pipe_start sample_env (pub_new 32) True) = Some s"
    "gh_log s = [(0, \<lparr>dm_frame_id = 0, dm_timestamp_us = 0, dm_group = detect sample_env []\<rparr>, img)]"
    by (rule run_first_frame[OF sample_env_ok])
  have r: "reachable sample_env s" by (rule exec_reachable[OF start_reachable s(1)])
  from frames_accounted[OF sample_env_ok r] s(2) r show ?thesis by auto
qed

text \<open>Capturing never waits for a buffer: whenever the main thread is about to acquire one, at
  least three of the five are free.\<close>

theorem capture_never_waits:
  assumes "env_ok E" "reachable E s" "pi_main s = MAcquire c"
  shows "3 \<le> length (bp_free (pi_pool s)) \<and> (\<exists>s'. main_step E inp s = Go s')"
proof -
  note inv = reachable_inv[OF assms(1,2)]
  have "outstanding s < 3" using pipe_invD(2)[OF inv] assms(3) by (simp add: inv_count_def)
  then have f: "3 \<le> length (bp_free (pi_pool s))" using own_size[OF pipe_invD(1)[OF inv]] assms(3) by simp
  then obtain i fs where "bp_free (pi_pool s) = i # fs" by (cases "bp_free (pi_pool s)") auto
  with f show ?thesis using assms(3) by (simp add: main_defs pool_acquire_def)
qed

theorem capture_never_waits_witness:
  "\<exists>s'. main_step sample_env input0 (pipe_start sample_env (pub_new 32) True) = Go s'"
  using capture_never_waits[OF sample_env_ok start_reachable, of True "Prefill 0" input0] by (simp add: pipe_start_def)

text \<open>C14: while a blackout is active and no resume has been asked for, the NPU is free: every context
  is destroyed, no frame is in the pipeline, and a client waiting for the blackout is told
  that it succeeded.\<close>

theorem blackout_frees_npu:
  assumes "env_ok E" "reachable E s" "ys_blackout_active (pi_ctl s)" "\<not> ys_resume_requested (pi_ctl s)"
  shows "pi_ctxs s = replicate 3 False \<and> jobs_of s = [] \<and> results_of s = []
    \<and> (pi_ctrl s = CWait WaitBlackout \<longrightarrow> ctrl_step cin s = Go (s\<lparr>pi_ctrl := CSend okResponse\<rparr>))"
proof -
  note inv = reachable_inv[OF assms(1,2)]
  have "pi_ctxs s = dead \<and> outstanding s = 0"
    using pipe_invD(2-4)[OF inv] assms(3,4)
    by (cases "pi_main s") (auto simp: inv_count_def inv_ctx_def inv_resume_def split: if_splits)
  then show ?thesis
    using assms(3) by (simp add: dead_def N_THREADS_def outstanding_def ctrl_step_def wait_over_def finish_wait_def)
qed

theorem blackout_frees_npu_witness:
  "\<exists>s. reachable sample_env s \<and> pi_main s = MBoIdle \<and> pi_ctxs s = replicate 3 False"
proof -
  obtain s where s: "exec sample_env (prefill @ blackout) (pipe_start sample_env (pub_new 32) True) = Some s"
    "pi_main s = MBoIdle" "pi_ctl s = ctl_init\<lparr>ys_frame_id := 3, ys_inference_enabled := False, ys_blackout_requested := True,
                         ys_blackout_active := True\<rparr>"
    by (rule run_blackout[OF sample_env_ok])
  have r: "reachable sample_env s" by (rule exec_reachable[OF start_reachable s(1)])
  from blackout_frees_npu[OF sample_env_ok r] s(2,3) r show ?thesis by (auto simp: ctl_init_def)
qed

section \<open>Progress\<close>



text \<open>Any number of steps of the inference threads alone.\<close>

inductive workers_run :: "env \<Rightarrow> pipe \<Rightarrow> nat \<Rightarrow> pipe \<Rightarrow> bool" for E where
  none: "workers_run E s 0 s"
| more: "workers_run E s n s1 \<Longrightarrow> i < N_THREADS \<Longrightarrow> worker_step E garbage us i s1 = Go s2 \<Longrightarrow> workers_run E s (Suc n) s2"

lemma workers_run_inv:
  assumes "workers_run E s n s'" "env_ok E" "pipe_inv E s"
  shows "pipe_inv E s' \<and> pi_main s' = pi_main s \<and> n + work s' \<le> work s"
  using assms
proof induction
  case (more s n s1 i garbage us s2)
  then have inv: "pipe_inv E s1" and m: "pi_main s1 = pi_main s" "n + work s1 \<le> work s" by auto
  have l: "i < length (pi_workers s1)" using more.hyps(2) workers_length[OF inv] by (simp add: N_THREADS_def)
  show ?case
    using worker_inv[OF more.prems(1) more.hyps(3,2) inv] worker_keeps(1)[OF more.hyps(3) l]
      worker_work_less[OF more.hyps(3) l] m by auto
qed simp

text \<open>C28: a result always arrives: while the main thread waits for one, the inference threads can take
  at most \<open>work s\<close> steps in all, and until a result is in the queue one of them can take a step.\<close>

theorem results_arrive:
  assumes E: "env_ok E" and r: "reachable E s" and w: "pi_main s = MTake start \<or> pi_main s = MBoPop"
    and run: "workers_run E s n s'"
  shows "n \<le> work s \<and> (pi_result_q s' \<noteq> [] \<or> (\<exists>i<N_THREADS. \<exists>s''. worker_step E garbage us i s' = Go s''))"
proof -
  have inv: "pipe_inv E s'" and m: "pi_main s' = pi_main s" and n: "n + work s' \<le> work s"
    using workers_run_inv[OF run E reachable_inv[OF E r]] by auto
  have "pi_result_q s' \<noteq> []" if "\<not> (\<exists>i<N_THREADS. \<exists>s''. worker_step E garbage us i s' = Go s'')"
  proof -
    from that have stuck: "worker_step E garbage us i s' \<noteq> Go s''" if "i < N_THREADS" for i s'' using that by blast
    have "sentinels (pi_main s') = 0" "flight (pi_main s') (outstanding s')"
      using w m pipe_invD(2)[OF inv] by (auto simp: inv_count_def)
    with stuck_no_frames[OF E inv stuck] w m show ?thesis by auto
  qed
  with n show ?thesis by auto
qed

lemma run_to_take:
  assumes "env_ok E"
  obtains s where "reachable E s" "pi_main s = MTake (get_us (0, 0))"
proof -
  obtain s where s: "exec E prefill (pipe_start E (pub_new 32) True) = Some s" "pi_main s = MLoop"
    "pi_ctl s = ctl_init\<lparr>ys_frame_id := 3\<rparr>"
    by (rule run_prefill[OF assms])
  have "\<exists>t. exec E [AMain, AMain] s = Some t \<and> pi_main t = MTake (get_us (0, 0))"
    by (simp add: run_simps s ctl_init_def)
  then show thesis using that exec_reachable[OF start_reachable exec_then[OF s(1)]] by blast
qed

theorem results_arrive_witness:
  "\<exists>s start. pi_main s = MTake start
    \<and> (pi_result_q s \<noteq> [] \<or> (\<exists>i<N_THREADS. \<exists>s''. worker_step sample_env zero_group 0 i s = Go s''))"
proof -
  obtain s where s: "reachable sample_env s" "pi_main s = MTake (get_us (0, 0))" by (rule run_to_take[OF sample_env_ok])
  have "pi_main s = MTake (get_us (0, 0)) \<or> pi_main s = MBoPop" using s(2) by simp
  from results_arrive[OF sample_env_ok s(1) this workers_run.none] s(2) show ?thesis by blast
qed

section \<open>States it should not reach\<close>



text \<open>C40: a blackout can be lost: requested between the end of a resume and the clearing of the
  request flags, it is erased while its client waits, with inference switched off.\<close>

theorem blackout_request_lost:
  assumes "env_ok E"
  shows "\<exists>s. reachable E s \<and> pi_ctrl s = CWait WaitBlackout \<and> \<not> ys_blackout_requested (pi_ctl s)
    \<and> \<not> ys_blackout_active (pi_ctl s) \<and> \<not> ys_inference_enabled (pi_ctl s) \<and> pi_main s = MAcquire (Refill 0)"
proof -
  obtain s where s: "exec E ((prefill @ blackout) @ blackout_too_soon) (pipe_start E (pub_new 32) True) = Some s"
    "pi_ctrl s = CWait WaitBlackout" "\<not> ys_blackout_requested (pi_ctl s)" "\<not> ys_inference_enabled (pi_ctl s)"
    "\<not> ys_blackout_active (pi_ctl s)" "pi_main s = MAcquire (Refill 0)"
    by (rule run_blackout_too_soon[OF assms])
  with exec_reachable[OF start_reachable s(1)] show ?thesis by blast
qed

theorem blackout_request_lost_witness:
  "\<exists>s. reachable sample_env s \<and> pi_ctrl s = CWait WaitBlackout \<and> \<not> ys_blackout_requested (pi_ctl s)"
  using blackout_request_lost[OF sample_env_ok] by blast

text \<open>A shutdown waits for the client: when the client that asked for it keeps its connection
  open, the main thread joins a control thread that is blocked in \<open>read\<close>, and neither moves until
  the client does.\<close>

theorem shutdown_waits_for_client:
  assumes "env_ok E"
  shows "\<exists>s. reachable E s \<and> pi_main s = MJoinCtrl \<and> main_step E inp s = Blocked
    \<and> (\<forall>cin\<in>{Quiet, Connects, TimesOut, SendFails}. ctrl_step cin s = Blocked)"
proof -
  obtain s where s: "exec E (prefill @ shutdown_connected) (pipe_start E (pub_new 32) True) = Some s"
    "pi_ctrl s = CRecv" "pi_main s = MJoinCtrl"
    by (rule run_shutdown_connected[OF assms])
  with exec_reachable[OF start_reachable s(1)] show ?thesis
    by (intro exI[of _ s]) (simp add: main_defs ctrl_step_def)
qed

theorem shutdown_waits_for_client_witness:
  "\<exists>s. reachable sample_env s \<and> pi_main s = MJoinCtrl \<and> ctrl_step TimesOut s = Blocked"
  using shutdown_waits_for_client[OF sample_env_ok, of input0] by auto

end
