(* ===== verification/Model_Setup.thy ===== *)
theory Model_Setup
  imports Pipeline_Correct "HOL-Library.Monad_Syntax" "HOL-Library.Sublist"
begin

text \<open>
  What \<open>main\<close> of \<open>src/main.cc\<close> does before the threads start: the command line, loading the model file
  (\<open>src/model_utils.cc\<close>), the queries of the RKNN library, the contexts, one for each core of the NPU,
  the buffer pool and the state of the inference threads; and \<open>release_rknpu_fds\<close>, which the blackout
  calls. The library's answers are the parameter \<open>rknn_api\<close>. The theorem of the set-up gives the
  assumptions on the model's dimensions and parameters under which the pipeline is correct.
\<close>

section \<open>The model file\<close>

text \<open>\<open>load_data\<close>: a buffer of sz bytes of which \<open>fread\<close> fills those that the file has from the offset on;
  the rest stays uninitialised (\<open>None\<close>). \<open>malloc\<close> tells for which sizes memory is there.\<close>

definition load_data :: "(nat \<Rightarrow> bool) \<Rightarrow> bytes option \<Rightarrow> nat \<Rightarrow> nat \<Rightarrow> byte option list option" where
  "load_data malloc fp ofst sz =
     (case fp of
        None \<Rightarrow> None
      | Some content \<Rightarrow>
          if \<not> malloc sz then None
          else (let got = take sz (drop ofst content)
                in Some (map Some got @ replicate (sz - length got) None)))"

text \<open>\<open>load_model\<close>: the buffer and the size, which \<open>main\<close> has initialised with 0. The length of the file
  is read into an \<open>int\<close>, and that converted to \<open>size_t\<close>.\<close>

definition load_model :: "(nat \<Rightarrow> bool) \<Rightarrow> bytes option \<Rightarrow> byte option list option \<times> i32" where
  "load_model malloc file =
     (case file of
        None \<Rightarrow> (None, 0)
      | Some content \<Rightarrow>
          (let size = i32 (int (length content))
           in (load_data malloc (Some content) 0 (unat (scast size :: u64)), size)))"

section \<open>The RKNN library\<close>

record tensor_attr =
  ta_fmt :: u32
  ta_dims :: "u32 list" \<comment> \<open>\<open>uint32_t[RKNN_MAX_DIMS]\<close>\<close>
  ta_scale :: fp
  ta_zp :: int

definition zero_attr :: tensor_attr where
  "zero_attr = \<lparr>ta_fmt = 0, ta_dims = replicate 16 0, ta_scale = Fin 0, ta_zp = 0\<rparr>"

text \<open>The answers of the calls; \<open>None\<close> and \<open>False\<close> are negative results. \<open>rk_nchw\<close> is the value of
  \<open>RKNN_TENSOR_NCHW\<close>.\<close>

record rknn_api =
  rk_init :: "byte option list option \<Rightarrow> bool"
  rk_version :: bool
  rk_in_out_num :: "(nat \<times> nat) option"
  rk_input_attr :: "nat \<Rightarrow> tensor_attr option"
  rk_output_attr :: "nat \<Rightarrow> tensor_attr option"
  rk_dup :: "nat \<Rightarrow> bool"
  rk_nchw :: u32

datatype core = Core0 | Core1 | Core2

definition core_masks :: "core list" where "core_masks = [Core0, Core1, Core2]"

section \<open>The set-up\<close>

text \<open>The state of an inference thread: its context and the core it is pinned to, the dimensions and
  parameters of the model, and the descriptors of the input and the outputs.\<close>

record thread_ctx =
  tx_ctx :: nat
  tx_core :: core
  tx_n_output :: nat
  tx_model_w :: i32
  tx_model_h :: i32
  tx_out_scales :: "fp list"
  tx_out_zps :: "int list"
  tx_conf_thresh :: fp
  tx_nms_thresh :: fp
  tx_input_size :: u32
  tx_want_float :: "bool list"

record main_setup =
  st_use_hdmi :: bool
  st_rtsp_port :: int
  st_model :: "byte option list option"
  st_model_size :: i32
  st_dims :: "i32 \<times> i32 \<times> i32" \<comment> \<open>width, height, channels\<close>
  st_pool :: buf_pool
  st_threads :: "thread_ctx list"

datatype setup_error =
  Usage | Init_failed | Version_failed | Num_failed | Input_attr_failed nat | Dup_failed nat

text \<open>The queries of the inputs stop at the first failure; a failed query of an output leaves the
  attributes zero.\<close>

fun query_inputs :: "rknn_api \<Rightarrow> nat list \<Rightarrow> nat + tensor_attr list" where
  "query_inputs rk [] = Inr []"
| "query_inputs rk (i # ks) =
     (case rk_input_attr rk i of
        None \<Rightarrow> Inl i
      | Some a \<Rightarrow> (case query_inputs rk ks of Inl j \<Rightarrow> Inl j | Inr bs \<Rightarrow> Inr (a # bs)))"

definition query_output :: "rknn_api \<Rightarrow> nat \<Rightarrow> tensor_attr" where
  "query_output rk i = (case rk_output_attr rk i of None \<Rightarrow> zero_attr | Some a \<Rightarrow> a)"

definition model_dims :: "rknn_api \<Rightarrow> tensor_attr \<Rightarrow> i32 \<times> i32 \<times> i32" where
  "model_dims rk a =
     (if ta_fmt a = rk_nchw rk then (ta_dims a ! 3, ta_dims a ! 2, ta_dims a ! 1)
      else (ta_dims a ! 2, ta_dims a ! 1, ta_dims a ! 3))"

text \<open>The contexts are numbered; the first is the base context.\<close>

fun dup_ctxs :: "rknn_api \<Rightarrow> nat list \<Rightarrow> nat + (nat \<times> core) list" where
  "dup_ctxs rk [] = Inr []"
| "dup_ctxs rk (i # ks) =
     (if \<not> rk_dup rk i then Inl i
      else case dup_ctxs rk ks of Inl j \<Rightarrow> Inl j | Inr cs \<Rightarrow> Inr ((i, core_masks ! i) # cs))"

text \<open>\<open>int\<close> multiplication: a product that does not fit is undefined.\<close>

definition imul :: "int \<Rightarrow> int \<Rightarrow> int option" where
  "imul a b = (if - (2 ^ 31) \<le> a * b \<and> a * b < 2 ^ 31 then Some (a * b) else None)"

definition input_size :: "i32 \<times> i32 \<times> i32 \<Rightarrow> u32 option" where
  "input_size d = (case d of (w, h, ch) \<Rightarrow>
     do { wh \<leftarrow> imul (sint w) (sint h); whc \<leftarrow> imul wh (sint ch); Some (word_of_int whc) })"

definition make_thread ::
  "i32 \<times> i32 \<times> i32 \<Rightarrow> nat \<Rightarrow> fp list \<Rightarrow> int list \<Rightarrow> u32 \<Rightarrow> nat \<times> core \<Rightarrow> thread_ctx" where
  "make_thread dims n_output out_scales out_zps sz c =
     \<lparr>tx_ctx = fst c, tx_core = snd c, tx_n_output = n_output, tx_model_w = fst dims,
      tx_model_h = fst (snd dims), tx_out_scales = out_scales, tx_out_zps = out_zps,
      tx_conf_thresh = box_conf_threshold, tx_nms_thresh = nms_threshold, tx_input_size = sz,
      tx_want_float = replicate n_output False\<rparr>"

definition pool_setup :: "i32 \<times> i32 \<times> i32 \<Rightarrow> buf_pool" where
  "pool_setup d = (case d of (w, h, ch) \<Rightarrow>
     pool_init frame_size (unat ((scast w :: u64) * scast h * scast ch)) N_BUF empty_pool)"

text \<open>\<open>main\<close> up to the start of the threads, from \<open>argv[1]\<close> on; \<open>fs\<close> gives the contents of the files.
  \<open>Inl\<close> is a return of -1. Without an input the attributes of input 0 are read outside the array.\<close>

definition setup_main ::
  "rknn_api \<Rightarrow> (nat \<Rightarrow> bool) \<Rightarrow> (string \<Rightarrow> bytes option) \<Rightarrow> string list \<Rightarrow> (setup_error + main_setup) option" where
  "setup_main rk malloc fs args =
     (if length args \<noteq> 3 then Some (Inl Usage)
      else do {
        let use_hdmi = (args ! 2 = ''hdmi'');
        port \<leftarrow> (if use_hdmi then Some 0 else atoi (args ! 2));
        let (model_data, model_size) = load_model malloc (fs (args ! 0));
        if \<not> rk_init rk model_data then Some (Inl Init_failed)
        else if \<not> rk_version rk then Some (Inl Version_failed)
        else case rk_in_out_num rk of
          None \<Rightarrow> Some (Inl Num_failed)
        | Some (n_input, n_output) \<Rightarrow>
            (case query_inputs rk [0..<n_input] of
               Inl i \<Rightarrow> Some (Inl (Input_attr_failed i))
             | Inr [] \<Rightarrow> None
             | Inr (a # _) \<Rightarrow>
                 (let outs = map (query_output rk) [0..<n_output]; dims = model_dims rk a
                  in case dup_ctxs rk [1..<N_THREADS] of
                    Inl i \<Rightarrow> Some (Inl (Dup_failed i))
                  | Inr cs \<Rightarrow>
                      do {
                        sz \<leftarrow> input_size dims;
                        Some (Inr \<lparr>st_use_hdmi = use_hdmi, st_rtsp_port = port, st_model = model_data,
                          st_model_size = model_size, st_dims = dims, st_pool = pool_setup dims,
                          st_threads = map (make_thread dims n_output (map ta_scale outs) (map ta_zp outs) sz)
                            ((0, Core0) # cs)\<rparr>)
                      }))
      })"

section \<open>What the set-up establishes\<close>

text \<open>The environment of the pipeline: the model's part of it is what the set-up found.\<close>

definition setup_env :: "env \<Rightarrow> main_setup \<Rightarrow> env" where
  "setup_env E st = E\<lparr>en_model_w := nat (sint (fst (st_dims st))), en_model_h := nat (sint (fst (snd (st_dims st)))),
     en_zps := tx_out_zps (hd (st_threads st)), en_scales := tx_out_scales (hd (st_threads st))\<rparr>"

text \<open>What the pipeline needs of the other libraries.\<close>

definition drivers_ok :: "env \<Rightarrow> bool" where
  "drivers_ok E \<longleftrightarrow> en_dup_ok E \<and> (\<forall>f. length (en_bgr E f) = frame_size) \<and> expf_ok (en_expf E)
     \<and> logf_ok (en_logf E) \<and> (\<exists>label. pp_labels (snd (pp_load (en_label_file E) pp_start)) = [Some label])"

definition dims_ok :: "i32 \<times> i32 \<times> i32 \<Rightarrow> bool" where
  "dims_ok d \<longleftrightarrow> (case d of (w, h, ch) \<Rightarrow>
     32 \<le> sint w \<and> sint w \<le> 4096 \<and> 0 \<le> sint h \<and> sint h \<le> 4096 \<and> ch = 3)"

text \<open>The layout the library documents for an input of three channels: NCHW or NHWC.\<close>

definition input_shape :: "rknn_api \<Rightarrow> tensor_attr \<Rightarrow> i32 \<Rightarrow> i32 \<Rightarrow> bool" where
  "input_shape rk a w h \<longleftrightarrow>
     (\<exists>rest. ta_dims a = (if ta_fmt a = rk_nchw rk then [1, 3, h, w] else [1, h, w, 3]) @ rest)"

text \<open>The calls of the library succeed on a model with three outputs, an input of three channels and
  parameters in the documented ranges.\<close>

definition rknn_ok :: "rknn_api \<Rightarrow> byte option list option \<Rightarrow> i32 \<Rightarrow> i32 \<Rightarrow> bool" where
  "rknn_ok rk model w h \<longleftrightarrow> rk_init rk model \<and> rk_version rk \<and> (\<forall>i. rk_dup rk i)
     \<and> (\<exists>n. 0 < n \<and> rk_in_out_num rk = Some (n, 3) \<and> (\<forall>i<n. rk_input_attr rk i \<noteq> None))
     \<and> (\<forall>a. rk_input_attr rk 0 = Some a \<longrightarrow> input_shape rk a w h)
     \<and> 32 \<le> sint w \<and> sint w \<le> 4096 \<and> 0 \<le> sint h \<and> sint h \<le> 4096
     \<and> (\<forall>i<3. \<exists>a. rk_output_attr rk i = Some a \<and> ok_scale (ta_scale a) \<and> zp_ok (ta_zp a))"

lemma model_dims_shape: "input_shape rk a w h \<Longrightarrow> model_dims rk a = (w, h, 3)"
  by (auto simp: input_shape_def model_dims_def)

lemma query_inputs_ok:
  "\<forall>i\<in>set ks. rk_input_attr rk i \<noteq> None \<Longrightarrow> query_inputs rk ks = Inr (map (the \<circ> rk_input_attr rk) ks)"
  by (induction ks) auto

lemma dup_ctxs_ok: "\<forall>i\<in>set ks. rk_dup rk i \<Longrightarrow> dup_ctxs rk ks = Inr (map (\<lambda>i. (i, core_masks ! i)) ks)"
  by (induction ks) auto

lemma input_size_ok:
  assumes "dims_ok d"
  shows "\<exists>sz. input_size d = Some sz \<and> unat sz = nat (sint (fst d)) * nat (sint (fst (snd d))) * 3
    \<and> pool_setup d = pool_init frame_size (unat sz) N_BUF empty_pool"
proof -
  obtain w h ch where d: "d = (w, h, ch)" by (cases d)
  then have r: "32 \<le> sint w" "sint w \<le> 4096" "0 \<le> sint h" "sint h \<le> 4096" "ch = 3"
    using assms by (auto simp: dims_ok_def)
  define p where "p = sint w * sint h"
  have p: "0 \<le> p" unfolding p_def using r by (intro mult_nonneg_nonneg) auto
  have p': "p \<le> 4096 * 4096" unfolding p_def using r by (intro mult_mono) auto
  have n: "nat (sint w) * nat (sint h) * 3 = nat (p * 3)"
    unfolding p_def using nat_mult_distrib[of "sint w" "sint h"] nat_mult_distrib[of "sint w * sint h" 3] r p
    by (simp add: p_def)
  have s3: "sint (3 :: i32) = 3" by simp
  have "(scast w :: u64) * scast h * scast ch = word_of_int (sint w) * word_of_int (sint h) * word_of_int (sint ch)"
    by (simp only: scast_eq)
  then have u: "(scast w :: u64) * scast h * scast ch = word_of_int (p * 3)"
    unfolding p_def r(5) s3 by (simp only: of_int_mult)
  have of_int: "unat (word_of_int q :: u64) = nat q" "unat (word_of_int q :: u32) = nat q"
    if "0 \<le> q" "q < 2 ^ 32" for q
    using that by (simp_all add: unsigned_of_int take_bit_int_eq_self)
  have w3: "unat (word_of_int (p * 3) :: u64) = nat (p * 3)" "unat (word_of_int (p * 3) :: u32) = nat (p * 3)"
    using p p' by (intro of_int; simp)+
  have "pool_setup d = pool_init frame_size (nat (p * 3)) N_BUF empty_pool"
    by (simp only: pool_setup_def d prod.case u w3(1))
  moreover have "input_size d = Some (word_of_int (p * 3))"
    using p p' r(5) s3 by (simp add: d input_size_def imul_def flip: p_def)
  ultimately show ?thesis by (intro exI[of _ "word_of_int (p * 3)"]) (simp only: d fst_conv snd_conv n w3(2))
qed

text \<open>C7: The set-up gives the pipeline what it was proved for. If the calls of the library succeed, the
  model has three outputs with parameters in the documented ranges and an input of three channels in either layout, and
  the arguments are three of which the last names the screen or is a port, then \<open>main\<close> gets to the
  threads: the assumptions of the pipeline hold of the dimensions and parameters found, the buffers are those the
  pipeline starts with, the threads share the parameters and have a context and a core each, and the
  size in the input descriptor is the size of the buffers it is pointed at.\<close>

theorem setup_establishes_env:
  assumes "length args = 3" "args ! 2 = ''hdmi'' \<or> atoi (args ! 2) \<noteq> None"
    and "rknn_ok rk (fst (load_model malloc (fs (args ! 0)))) w h" "drivers_ok E"
  shows "\<exists>st. setup_main rk malloc fs args = Some (Inr st)
    \<and> env_ok (setup_env E st) \<and> st_pool st = pi_pool (pipe_start (setup_env E st) pub ctrl_ok)
    \<and> length (st_threads st) = N_THREADS \<and> distinct (map tx_ctx (st_threads st)) \<and> distinct (map tx_core (st_threads st))
    \<and> (\<forall>t\<in>set (st_threads st). tx_n_output t = 3
         \<and> tx_model_w t = w \<and> tx_model_h t = h
         \<and> int (en_model_w (setup_env E st)) = sint w \<and> int (en_model_h (setup_env E st)) = sint h
         \<and> tx_out_zps t = en_zps (setup_env E st) \<and> tx_out_scales t = en_scales (setup_env E st)
         \<and> tx_conf_thresh t = box_conf_threshold \<and> tx_nms_thresh t = nms_threshold
         \<and> (\<forall>b\<in>set (bp_model (st_pool st)). length b = unat (tx_input_size t)))"
proof -
  define model where "model = load_model malloc (fs (args ! 0))"
  obtain n where n: "0 < n" "rk_in_out_num rk = Some (n, 3)" "\<forall>i<n. rk_input_attr rk i \<noteq> None"
    and rk: "rk_init rk (fst model)" "rk_version rk" "\<forall>i. rk_dup rk i"
      "\<forall>a. rk_input_attr rk 0 = Some a \<longrightarrow> input_shape rk a w h"
      "32 \<le> sint w" "sint w \<le> 4096" "0 \<le> sint h" "sint h \<le> 4096"
      "\<forall>i<3. \<exists>a. rk_output_attr rk i = Some a \<and> ok_scale (ta_scale a) \<and> zp_ok (ta_zp a)"
    using assms(3) by (auto simp: rknn_ok_def model_def)
  obtain a where a: "rk_input_attr rk 0 = Some a" using n by blast
  have q: "query_inputs rk [0..<n] = Inr (a # map (the \<circ> rk_input_attr rk) [1..<n])"
    using query_inputs_ok[of "[0..<n]" rk] n a by (simp add: upt_conv_Cons)
  define outs where "outs = map (query_output rk) [0..<3]"
  have o: "\<forall>t\<in>set outs. ok_scale (ta_scale t) \<and> zp_ok (ta_zp t)"
    using rk(9) by (auto simp: outs_def query_output_def split: option.splits)
  define dims where "dims = model_dims rk a"
  have dims: "dims = (w, h, 3)" using rk(4) a by (simp add: dims_def model_dims_shape)
  have d: "dims_ok dims" using rk(5-8) by (simp add: dims dims_ok_def)
  obtain sz where sz: "input_size dims = Some sz"
    "unat sz = nat (sint (fst dims)) * nat (sint (fst (snd dims))) * 3"
    "pool_setup dims = pool_init frame_size (unat sz) N_BUF empty_pool"
    using input_size_ok[OF d] by blast
  have c: "dup_ctxs rk [1..<N_THREADS] = Inr [(1, Core1), (2, Core2)]"
    using rk(3) by (simp add: dup_ctxs_ok N_THREADS_def upt_rec core_masks_def)
  obtain port where p: "(if args ! 2 = ''hdmi'' then Some 0 else atoi (args ! 2)) = Some port"
    using assms(2) by (cases "args ! 2 = ''hdmi''") auto
  define mk where "mk = make_thread dims 3 (map ta_scale outs) (map ta_zp outs) sz"
  define st where "st = \<lparr>st_use_hdmi = (args ! 2 = ''hdmi''), st_rtsp_port = port, st_model = fst model,
      st_model_size = snd model, st_dims = dims, st_pool = pool_setup dims,
      st_threads = map mk [(0, Core0), (1, Core1), (2, Core2)]\<rparr>"
  have run: "setup_main rk malloc fs args = Some (Inr st)"
    using assms(1) rk(1,2) n(2) q c sz(1)
    by (simp add: setup_main_def p Let_def case_prod_beta st_def mk_def outs_def comp_def flip: model_def dims_def)
  have env: "env_ok (setup_env E st)"
    using assms(4) d o
    by (auto simp: env_ok_def drivers_ok_def setup_env_def st_def mk_def make_thread_def dims_ok_def list_all_iff
        outs_def case_prod_beta)
  show ?thesis
    using run env d sz rk(5-8)
    by (auto simp: dims setup_env_def st_def mk_def make_thread_def pipe_start_def N_THREADS_def pool_init_state
        empty_pool_def dims_ok_def case_prod_beta)
qed

definition sample_rknn :: rknn_api where
  "sample_rknn = \<lparr>rk_init = (\<lambda>_. True), rk_version = True, rk_in_out_num = Some (1, 3),
     rk_input_attr = (\<lambda>i. Some \<lparr>ta_fmt = 1, ta_dims = [1, 384, 640, 3], ta_scale = Fin 0, ta_zp = 0\<rparr>),
     rk_output_attr = (\<lambda>i. Some \<lparr>ta_fmt = 0, ta_dims = [1, 65, 80, 80], ta_scale = Fin (1/8), ta_zp = -4\<rparr>),
     rk_dup = (\<lambda>_. True), rk_nchw = 0\<rparr>"

lemma sample_rknn_ok: "rknn_ok sample_rknn model 640 384"
proof -
  have "frep F32 (1 / 8)" using frepI[of 1 F32 "-3"] by (simp add: power_int_minus)
  then show ?thesis
    by (simp add: rknn_ok_def sample_rknn_def input_shape_def zp_ok_def ok_scale_def)
qed

lemma setup_establishes_env_witness:
  "\<exists>st. setup_main sample_rknn (\<lambda>_. True) (\<lambda>_. Some [1, 2, 3]) [''m.rknn'', ''33'', ''hdmi''] = Some (Inr st)
     \<and> env_ok (setup_env sample_env st)"
proof -
  have "drivers_ok sample_env" using sample_env_ok by (simp add: drivers_ok_def env_ok_def)
  from setup_establishes_env[OF _ _ sample_rknn_ok this, of "[''m.rknn'', ''33'', ''hdmi'']" "\<lambda>_. True" "\<lambda>_. Some [1, 2, 3]"]
  show ?thesis by force
qed

text \<open>What the set-up does not notice. An output whose query fails enters the dequantisation with scale 0;
  a model file that cannot be read is only noticed if \<open>rknn_init\<close> refuses the null pointer.\<close>

lemma failed_output_query:
  assumes "rk_output_attr rk i = None"
  shows "ta_scale (query_output rk i) = Fin 0 \<and> \<not> ok_scale (ta_scale (query_output rk i))"
  using assms by (simp add: query_output_def zero_attr_def ok_scale_def)

lemma missing_model:
  assumes "fs m = None"
  shows "setup_main rk malloc fs [m, d, ''hdmi''] = setup_main rk malloc (\<lambda>_. None) [m, d, ''hdmi'']"
  using assms by (simp add: setup_main_def load_model_def)

text \<open>The set-up stops with -1 at the first call that fails; nothing after it is done.\<close>

lemma setup_first_failure:
  assumes "length args = 3" "args ! 2 = ''hdmi''" "model = fst (load_model malloc (fs (args ! 0)))"
  shows "\<not> rk_init rk model \<Longrightarrow> setup_main rk malloc fs args = Some (Inl Init_failed)"
    and "rk_init rk model \<Longrightarrow> \<not> rk_version rk \<Longrightarrow> setup_main rk malloc fs args = Some (Inl Version_failed)"
    and "rk_init rk model \<Longrightarrow> rk_version rk \<Longrightarrow> rk_in_out_num rk = None
      \<Longrightarrow> setup_main rk malloc fs args = Some (Inl Num_failed)"
  using assms by (simp_all add: setup_main_def case_prod_beta)

section \<open>The loaded file\<close>

text \<open>With memory for it and below 2 GiB, the buffer is the file. A longer file gets a length that is
  negative or too small.\<close>

lemma load_model_whole:
  assumes "length content < 2 ^ 31" "malloc (length content)"
  shows "load_model malloc (Some content) = (Some (map Some content), word_of_int (int (length content)))"
proof -
  have "sint (i32 (int (length content))) = int (length content)"
    using assms(1) by (intro sint_i32_of_int) simp_all
  then have "(scast (i32 (int (length content))) :: u64) = word_of_int (int (length content))" by (simp only: scast_eq)
  then have "unat (scast (i32 (int (length content))) :: u64) = length content"
    using assms(1) by (simp add: unsigned_of_nat take_bit_nat_eq_self)
  then show ?thesis using assms(2) by (simp add: load_model_def load_data_def)
qed

section \<open>Giving the NPU back\<close>

text \<open>\<open>release_rknpu_fds\<close>: the entries of \<open>/proc/self/fd\<close>, if it can be opened, the target of each
  link (\<open>None\<close>: \<open>readlink\<close> fails), of which 255 characters are read, and the descriptors closed, in
  this order. The name of an entry may exceed \<open>int\<close>, which is undefined in \<open>atoi\<close>.\<close>

fun rknpu_fds :: "(int \<Rightarrow> string option) \<Rightarrow> string list \<Rightarrow> int list option" where
  "rknpu_fds readlink [] = Some []"
| "rknpu_fds readlink (name # names) =
     (if take 1 name = ''.'' then rknpu_fds readlink names
      else do {
        fd \<leftarrow> atoi name;
        rest \<leftarrow> rknpu_fds readlink names;
        Some (if fd \<le> 2 then rest
              else case readlink fd of
                None \<Rightarrow> rest
              | Some target \<Rightarrow>
                  if take 255 target \<noteq> [] \<and> sublist ''rknpu'' (take 255 target) then fd # rest else rest)
      })"

definition release_rknpu_fds :: "string list option \<Rightarrow> (int \<Rightarrow> string option) \<Rightarrow> int list option" where
  "release_rknpu_fds dir readlink = (case dir of None \<Rightarrow> Some [] | Some names \<Rightarrow> rknpu_fds readlink names)"

text \<open>What the kernel documents of the directory: beside \<open>.\<close> and \<open>..\<close> it lists each open descriptor
  once, by its number.\<close>

definition fd_dir :: "nat list \<Rightarrow> string list" where
  "fd_dir fds = [''.'', ''..''] @ map dec_digits fds"

definition rknpu_fd :: "(int \<Rightarrow> string option) \<Rightarrow> nat \<Rightarrow> bool" where
  "rknpu_fd readlink fd \<longleftrightarrow> 2 < fd
     \<and> (case readlink (int fd) of None \<Rightarrow> False | Some target \<Rightarrow> sublist ''rknpu'' (take 255 target))"

lemma take1_dec_digits: "take (Suc 0) (dec_digits n) \<noteq> ''.''"
proof
  assume t: "take (Suc 0) (dec_digits n) = ''.''"
  then have "CHR ''.'' \<in> set (take (Suc 0) (dec_digits n))" by simp
  then have "is_digit (CHR ''.'')" using dec_digits_digits in_set_takeD by metis
  then show False by (simp add: is_digit_def)
qed

lemma rknpu_fds_dir:
  "\<forall>fd\<in>set fds. fd < 2 ^ 31
   \<Longrightarrow> rknpu_fds readlink (map dec_digits fds) = Some (map int (filter (rknpu_fd readlink) fds))"
  by (induction fds) (auto simp: atoi_dec_digits take1_dec_digits rknpu_fd_def split: option.splits)

text \<open>After the blackout's \<open>rknn_destroy\<close>, \<open>release_rknpu_fds\<close> closes each open descriptor above 2 whose
  link names an \<open>rknpu\<close> device, once, and no other; without the directory it closes none. A device whose name only comes after
  the 255th character of the link is kept open.\<close>

theorem rknpu_fds_released:
  assumes "\<forall>fd\<in>set fds. fd < 2 ^ 31" "distinct fds"
  shows "\<exists>closed. release_rknpu_fds (Some (fd_dir fds)) readlink = Some closed \<and> distinct closed
      \<and> set closed = {int fd | fd. fd \<in> set fds \<and> 2 < fd
            \<and> (\<exists>target. readlink (int fd) = Some target \<and> sublist ''rknpu'' (take 255 target))}
      \<and> release_rknpu_fds None readlink = Some []"
proof -
  have "release_rknpu_fds (Some (fd_dir fds)) readlink = Some (map int (filter (rknpu_fd readlink) fds))"
    using rknpu_fds_dir[OF assms(1)] by (simp add: release_rknpu_fds_def fd_dir_def)
  then show ?thesis using assms(2)
    by (auto simp: release_rknpu_fds_def rknpu_fd_def distinct_map inj_on_def split: option.splits)
qed

lemma rknpu_fds_released_witness:
  "\<exists>closed. release_rknpu_fds (Some (fd_dir [0, 1, 2, 7, 9]))
      (\<lambda>fd. if fd = 7 then Some ''/dev/rknpu0'' else Some ''/dev/video33'') = Some closed \<and> distinct closed"
  using rknpu_fds_released[of "[0, 1, 2, 7, 9]" "\<lambda>fd. if fd = 7 then Some ''/dev/rknpu0'' else Some ''/dev/video33''"]
  by fastforce

end
