(* ===== verification/Camera.thy ===== *)
theory Camera
  imports Prelude
begin

text \<open>
  \<open>src/camera_util.cc\<close>: the V4L2 capture device. The driver's answers are the parameter \<open>driver\<close>;
  of its behaviour the lemmas use what the V4L2 documentation says of a queue: a buffer dequeued was
  queued, a buffer that is queued cannot be queued again, and the buffer type of a call must be the
  one the queue was set up with. \<open>CHECK_IOCTL\<close> ends the process when a call fails.
\<close>

section \<open>State\<close>

definition REQ_COUNT :: nat where "REQ_COUNT = 4"

datatype buf_type = Video_capture | Video_capture_mplane

text \<open>The answers: \<open>None\<close> and \<open>False\<close> are a call that fails. The capabilities say whether the device
  captures multi-planar video; the size is the one the driver sets for the size asked for.\<close>

record driver =
  dv_open :: bool
  dv_querycap :: "bool option"
  dv_s_fmt :: "nat \<times> nat \<Rightarrow> (nat \<times> nat) option"
  dv_reqbufs :: "nat \<Rightarrow> nat option"
  dv_querybuf :: "nat \<Rightarrow> nat option"
  dv_mmap :: "nat \<Rightarrow> nat option"
  dv_qbuf :: "nat \<Rightarrow> bool"
  dv_streamon :: "buf_type \<Rightarrow> bool"
  dv_streamoff :: "buf_type \<Rightarrow> bool"

text \<open>The globals of the file: the mapped buffers (start and length; \<open>None\<close> not yet set), the index in
  \<open>buf\<close>, the size; and which buffers the driver holds.\<close>

record camera =
  cm_open :: bool
  cm_buffers :: "(nat \<times> nat) option list"
  cm_index :: nat
  cm_size :: "nat \<times> nat"
  cm_queued :: "nat set"

definition camera_start :: camera where
  "camera_start = \<lparr>cm_open = False, cm_buffers = replicate REQ_COUNT None, cm_index = 0, cm_size = (0, 0),
     cm_queued = {}\<rparr>"

text \<open>A function returns, exits the process, or is undefined.\<close>

datatype 'a outcome = Return 'a | Exit_failure | Undefined_access

fun and_then :: "'a outcome \<Rightarrow> ('a \<Rightarrow> 'b outcome) \<Rightarrow> 'b outcome" where
  "and_then (Return x) f = f x"
| "and_then Exit_failure f = Exit_failure"
| "and_then Undefined_access f = Undefined_access"

definition check_ioctl :: "bool \<Rightarrow> unit outcome" where
  "check_ioctl ok = (if ok then Return () else Exit_failure)"

definition check_answer :: "'a option \<Rightarrow> 'a outcome" where
  "check_answer r = (case r of None \<Rightarrow> Exit_failure | Some x \<Rightarrow> Return x)"

section \<open>Operations\<close>

text \<open>The body of the loop over the granted buffers: the store to \<open>buffers[i]\<close> is out of bounds for
  i >= \<open>REQ_COUNT\<close>.\<close>

definition map_buffer :: "driver \<Rightarrow> nat \<Rightarrow> camera \<Rightarrow> camera outcome" where
  "map_buffer dv i c =
     and_then (check_answer (dv_querybuf dv i)) (\<lambda>len.
       if length (cm_buffers c) \<le> i then Undefined_access
       else and_then (check_answer (dv_mmap dv i)) (\<lambda>start.
         and_then (check_ioctl (dv_qbuf dv i)) (\<lambda>_.
           Return (c\<lparr>cm_buffers := (cm_buffers c)[i := Some (start, len)], cm_index := i,
                     cm_queued := insert i (cm_queued c)\<rparr>))))"

fun map_buffers :: "driver \<Rightarrow> nat list \<Rightarrow> camera \<Rightarrow> camera outcome" where
  "map_buffers dv [] c = Return c"
| "map_buffers dv (i # is) c = and_then (map_buffer dv i c) (map_buffers dv is)"

text \<open>The flag is \<open>EXIT_SUCCESS\<close>.\<close>

definition load_mipi_camera :: "driver \<Rightarrow> nat \<Rightarrow> nat \<Rightarrow> camera \<Rightarrow> (bool \<times> camera) outcome" where
  "load_mipi_camera dv camera_width camera_height c =
     (if \<not> dv_open dv then Return (False, c)
      else and_then (check_answer (dv_querycap dv)) (\<lambda>mplane.
        if \<not> mplane then Return (False, c)
        else and_then (check_answer (dv_s_fmt dv (camera_width, camera_height))) (\<lambda>size.
          and_then (check_answer (dv_reqbufs dv REQ_COUNT)) (\<lambda>granted.
            and_then (map_buffers dv [0..<granted] (c\<lparr>cm_open := True, cm_size := size\<rparr>)) (\<lambda>c.
              and_then (check_ioctl (dv_streamon dv Video_capture_mplane)) (\<lambda>_. Return (True, c)))))))"

text \<open>\<open>dq\<close> is the index the driver dequeues, \<open>None\<close> an error. The result is the frame's address; reading a
  buffer never mapped is undefined.\<close>

definition read_mipi_frame_nv12 :: "nat option \<Rightarrow> camera \<Rightarrow> (nat \<times> camera) outcome" where
  "read_mipi_frame_nv12 dq c =
     (if \<not> cm_open c then Exit_failure
      else and_then (check_answer dq) (\<lambda>i.
        case (if i < length (cm_buffers c) then cm_buffers c ! i else None) of
          None \<Rightarrow> Undefined_access
        | Some (start, len) \<Rightarrow> Return (start, c\<lparr>cm_index := i, cm_queued := cm_queued c - {i}\<rparr>)))"

definition release_mipi_frame :: "camera \<Rightarrow> camera outcome" where
  "release_mipi_frame c =
     and_then (check_ioctl (cm_open c \<and> cm_index c \<notin> cm_queued c)) (\<lambda>_.
       Return (c\<lparr>cm_queued := insert (cm_index c) (cm_queued c)\<rparr>))"

text \<open>All \<open>REQ_COUNT\<close> buffers are unmapped, those never mapped too.\<close>

definition close_mipi_camera :: "driver \<Rightarrow> camera \<Rightarrow> camera outcome" where
  "close_mipi_camera dv c =
     and_then (check_ioctl (cm_open c \<and> dv_streamoff dv Video_capture)) (\<lambda>_.
       if None \<in> set (cm_buffers c) then Undefined_access
       else Return (c\<lparr>cm_buffers := [], cm_open := False, cm_queued := {}\<rparr>))"

section \<open>Capturing\<close>

text \<open>A capture as \<open>main\<close> makes it, for the index the driver chooses: read, use, release. The result is
  the list of the addresses.\<close>

fun captures :: "nat list \<Rightarrow> camera \<Rightarrow> (nat list \<times> camera) outcome" where
  "captures [] c = Return ([], c)"
| "captures (i # is) c =
     and_then (read_mipi_frame_nv12 (if i \<in> cm_queued c then Some i else None) c) (\<lambda>(start, c).
       and_then (release_mipi_frame c) (\<lambda>c.
         and_then (captures is c) (\<lambda>(starts, c). Return (start # starts, c))))"

text \<open>A driver that grants granted buffers and whose calls succeed when the documentation says so.\<close>

definition documented :: "driver \<Rightarrow> nat \<Rightarrow> bool" where
  "documented dv granted \<longleftrightarrow> dv_open dv \<and> dv_querycap dv = Some True \<and> (\<forall>s. dv_s_fmt dv s \<noteq> None)
     \<and> dv_reqbufs dv REQ_COUNT = Some granted
     \<and> (\<forall>i<granted. dv_querybuf dv i \<noteq> None \<and> dv_mmap dv i \<noteq> None \<and> dv_qbuf dv i)
     \<and> (\<forall>t. dv_streamon dv t \<longleftrightarrow> t = Video_capture_mplane) \<and> (\<forall>t. dv_streamoff dv t \<longleftrightarrow> t = Video_capture_mplane)"

lemma map_buffers_all:
  assumes "\<forall>i<granted. dv_querybuf dv i \<noteq> None \<and> dv_mmap dv i \<noteq> None \<and> dv_qbuf dv i"
  shows "n \<le> granted \<Longrightarrow> n \<le> REQ_COUNT \<Longrightarrow> length (cm_buffers c) = REQ_COUNT \<Longrightarrow>
    \<exists>c'. map_buffers dv [0..<n] c = Return c' \<and> cm_open c' = cm_open c \<and> cm_size c' = cm_size c
      \<and> cm_queued c' = cm_queued c \<union> {0..<n} \<and> length (cm_buffers c') = REQ_COUNT
      \<and> (\<forall>i<n. \<exists>len. cm_buffers c' ! i = Some (the (dv_mmap dv i), len))
      \<and> (\<forall>i. n \<le> i \<and> i < REQ_COUNT \<longrightarrow> cm_buffers c' ! i = cm_buffers c ! i)"
proof (induction n)
  case (Suc n)
  have app: "map_buffers dv (xs @ [i]) c = and_then (map_buffers dv xs c) (map_buffer dv i)" for xs i c
  proof (induction xs arbitrary: c)
    case Nil
    show ?case by (cases "map_buffer dv i c") simp_all
  next
    case (Cons x xs)
    then show ?case by (cases "map_buffer dv x c") simp_all
  qed
  obtain c' where c': "map_buffers dv [0..<n] c = Return c'" "cm_open c' = cm_open c" "cm_size c' = cm_size c"
      "cm_queued c' = cm_queued c \<union> {0..<n}" "length (cm_buffers c') = REQ_COUNT"
      "\<forall>i<n. \<exists>len. cm_buffers c' ! i = Some (the (dv_mmap dv i), len)"
      "\<forall>i. n \<le> i \<and> i < REQ_COUNT \<longrightarrow> cm_buffers c' ! i = cm_buffers c ! i"
    using Suc by auto
  obtain len start where d: "dv_querybuf dv n = Some len" "dv_mmap dv n = Some start" "dv_qbuf dv n"
    using assms Suc.prems(1) by force
  have "map_buffers dv [0..<Suc n] c = Return (c'\<lparr>cm_buffers := (cm_buffers c')[n := Some (start, len)],
      cm_index := n, cm_queued := insert n (cm_queued c')\<rparr>)"
    using c'(1,5) d Suc.prems(2) by (simp add: app map_buffer_def check_answer_def check_ioctl_def)
  then show ?case using c' d Suc.prems(2) by (auto simp: nth_list_update less_Suc_eq)
qed auto

lemma captures_all:
  "cm_open c \<Longrightarrow> set is \<subseteq> cm_queued c \<Longrightarrow> (\<forall>i \<in> cm_queued c. \<exists>len. i < length (cm_buffers c) \<and> cm_buffers c ! i = Some (addr i, len)) \<Longrightarrow>
   \<exists>c'. captures is c = Return (map addr is, c') \<and> cm_open c' = cm_open c \<and> cm_queued c' = cm_queued c
     \<and> cm_buffers c' = cm_buffers c"
proof (induction "is" arbitrary: c)
  case (Cons i "is")
  obtain len where b: "i < length (cm_buffers c)" "cm_buffers c ! i = Some (addr i, len)"
    using Cons.prems by auto
  let ?c1 = "c\<lparr>cm_index := i, cm_queued := insert i (cm_queued c - {i})\<rparr>"
  have q: "insert i (cm_queued c - {i}) = cm_queued c" using Cons.prems(2) by auto
  obtain c' where "captures is ?c1 = Return (map addr is, c')" "cm_open c' = cm_open c"
      "cm_queued c' = cm_queued c" "cm_buffers c' = cm_buffers c"
    using Cons.IH[of ?c1] Cons.prems by (auto simp: insert_absorb)
  then show ?case using Cons.prems b
    by (simp add: read_mipi_frame_nv12_def release_mipi_frame_def check_answer_def check_ioctl_def)
qed simp

section \<open>Properties\<close>

lemma load_documented:
  assumes "documented dv granted" "granted \<le> REQ_COUNT"
  obtains c where "load_mipi_camera dv w h camera_start = Return (True, c)" "cm_open c" "cm_queued c = {0..<granted}"
    "length (cm_buffers c) = REQ_COUNT" "\<forall>i<granted. \<exists>len. cm_buffers c ! i = Some (the (dv_mmap dv i), len)"
    "\<forall>i. granted \<le> i \<and> i < REQ_COUNT \<longrightarrow> cm_buffers c ! i = None"
proof -
  have "dv_s_fmt dv (w, h) \<noteq> None" using assms(1) unfolding documented_def by blast
  then obtain size where s: "dv_s_fmt dv (w, h) = Some size" by blast
  have d: "\<forall>i<granted. dv_querybuf dv i \<noteq> None \<and> dv_mmap dv i \<noteq> None \<and> dv_qbuf dv i"
    using assms(1) by (simp add: documented_def)
  obtain c where c: "map_buffers dv [0..<granted] (camera_start\<lparr>cm_open := True, cm_size := size\<rparr>) = Return c"
      "cm_open c" "cm_queued c = {0..<granted}" "length (cm_buffers c) = REQ_COUNT"
      "\<forall>i<granted. \<exists>len. cm_buffers c ! i = Some (the (dv_mmap dv i), len)"
      "\<forall>i. granted \<le> i \<and> i < REQ_COUNT \<longrightarrow> cm_buffers c ! i = None"
    using map_buffers_all[OF d order_refl assms(2), of "camera_start\<lparr>cm_open := True, cm_size := size\<rparr>"]
    by (auto simp: camera_start_def)
  have "load_mipi_camera dv w h camera_start = Return (True, c)"
    using assms(1) s c(1) by (simp add: load_mipi_camera_def documented_def check_answer_def check_ioctl_def)
  then show thesis using that c by blast
qed

lemma map_buffers_too_many:
  assumes "\<forall>i<granted. dv_querybuf dv i \<noteq> None \<and> dv_mmap dv i \<noteq> None \<and> dv_qbuf dv i" "REQ_COUNT < granted"
    and "length (cm_buffers c) = REQ_COUNT"
  shows "map_buffers dv [0..<granted] c = Undefined_access"
proof -
  have app: "map_buffers dv (xs @ i # ys) c = and_then (map_buffers dv xs c) (map_buffers dv (i # ys))" for xs i ys c
  proof (induction xs arbitrary: c)
    case (Cons x xs)
    then show ?case by (cases "map_buffer dv x c") simp_all
  qed simp
  obtain c' where c': "map_buffers dv [0..<REQ_COUNT] c = Return c'" "length (cm_buffers c') = REQ_COUNT"
    using map_buffers_all[OF assms(1), of REQ_COUNT c] assms(2,3) by auto
  have "[0..<granted] = [0..<REQ_COUNT] @ REQ_COUNT # [Suc REQ_COUNT..<granted]"
    using assms(2) upt_add_eq_append[of 0 REQ_COUNT "granted - REQ_COUNT"] by (simp add: upt_conv_Cons)
  moreover obtain len where "dv_querybuf dv REQ_COUNT = Some len" using assms(1,2) by force
  ultimately show ?thesis using c' by (simp add: app map_buffer_def check_answer_def)
qed

text \<open>C37: the life of the camera with a driver that behaves as documented and grants as many buffers as
  asked for: the set-up succeeds, every capture gives the address at which the buffer the driver
  chose is mapped and hands the buffer back, without an error; but the teardown stops the stream
  with the buffer type of a single-planar queue, which the driver refuses, and ends the process with
  a failure before anything after it is torn down. A driver that grants more buffers than asked for
  has the set-up store outside the array.\<close>

theorem camera_life:
  assumes "documented dv granted"
  shows "(granted = REQ_COUNT \<longrightarrow> (\<exists>c. load_mipi_camera dv w h camera_start = Return (True, c)
      \<and> (\<forall>is. set is \<subseteq> {0..<granted} \<longrightarrow>
          (\<exists>c'. captures is c = Return (map (\<lambda>i. the (dv_mmap dv i)) is, c')
             \<and> cm_queued c' = cm_queued c \<and> close_mipi_camera dv c' = Exit_failure))))
    \<and> (REQ_COUNT < granted \<longrightarrow> load_mipi_camera dv w h camera_start = Undefined_access)"
proof (intro conjI impI)
  assume n: "granted = REQ_COUNT"
  obtain c where c: "load_mipi_camera dv w h camera_start = Return (True, c)" "cm_open c" "cm_queued c = {0..<granted}"
      "length (cm_buffers c) = REQ_COUNT" "\<forall>i<granted. \<exists>len. cm_buffers c ! i = Some (the (dv_mmap dv i), len)"
    using load_documented[OF assms] n by (metis order_refl)
  have a: "\<forall>i \<in> cm_queued c. \<exists>len. i < length (cm_buffers c) \<and> cm_buffers c ! i = Some (the (dv_mmap dv i), len)"
    using c(3-5) n by auto
  have "\<exists>c'. captures is c = Return (map (\<lambda>i. the (dv_mmap dv i)) is, c') \<and> cm_queued c' = cm_queued c
      \<and> close_mipi_camera dv c' = Exit_failure" if "set is \<subseteq> {0..<granted}" for "is"
    using captures_all[OF c(2) _ a, of "is"] that c(3) assms
    by (auto simp: close_mipi_camera_def check_ioctl_def documented_def)
  then show "\<exists>c. load_mipi_camera dv w h camera_start = Return (True, c)
      \<and> (\<forall>is. set is \<subseteq> {0..<granted} \<longrightarrow>
          (\<exists>c'. captures is c = Return (map (\<lambda>i. the (dv_mmap dv i)) is, c')
             \<and> cm_queued c' = cm_queued c \<and> close_mipi_camera dv c' = Exit_failure))"
    using c(1) by blast
next
  assume n: "REQ_COUNT < granted"
  have "dv_s_fmt dv (w, h) \<noteq> None" using assms unfolding documented_def by blast
  then obtain size where s: "dv_s_fmt dv (w, h) = Some size" by blast
  have "map_buffers dv [0..<granted] (camera_start\<lparr>cm_open := True, cm_size := size\<rparr>) = Undefined_access"
    by (rule map_buffers_too_many[OF _ n]) (use assms in \<open>simp_all add: documented_def camera_start_def\<close>)
  then show "load_mipi_camera dv w h camera_start = Undefined_access"
    using assms s by (simp add: load_mipi_camera_def documented_def check_answer_def)
qed

definition sample_driver :: driver where
  "sample_driver = \<lparr>dv_open = True, dv_querycap = Some True, dv_s_fmt = Some, dv_reqbufs = Some,
     dv_querybuf = (\<lambda>i. Some 10), dv_mmap = (\<lambda>i. Some (100 * i)), dv_qbuf = (\<lambda>i. True),
     dv_streamon = (\<lambda>t. t = Video_capture_mplane), dv_streamoff = (\<lambda>t. t = Video_capture_mplane)\<rparr>"

lemma camera_life_witness:
  "\<exists>c c'. load_mipi_camera sample_driver 1920 1080 camera_start = Return (True, c)
    \<and> captures [2, 0, 3] c = Return ([200, 0, 300], c') \<and> close_mipi_camera sample_driver c' = Exit_failure"
proof -
  have "documented sample_driver REQ_COUNT" by (simp add: documented_def sample_driver_def)
  from camera_life[OF this, of 1920 1080] obtain c
    where c: "load_mipi_camera sample_driver 1920 1080 camera_start = Return (True, c)"
      "\<forall>is. set is \<subseteq> {0..<REQ_COUNT} \<longrightarrow>
          (\<exists>c'. captures is c = Return (map (\<lambda>i. the (dv_mmap sample_driver i)) is, c')
             \<and> cm_queued c' = cm_queued c \<and> close_mipi_camera sample_driver c' = Exit_failure)"
    by blast
  have "set [2, 0, 3] \<subseteq> {0..<REQ_COUNT}" by (simp add: REQ_COUNT_def)
  with c(2) obtain c' where "captures [2, 0, 3] c = Return (map (\<lambda>i. the (dv_mmap sample_driver i)) [2, 0, 3], c')"
      "close_mipi_camera sample_driver c' = Exit_failure"
    by meson
  then show ?thesis using c(1) by (auto simp: sample_driver_def)
qed

end
