(* ===== verification/Video_Out.thy ===== *)
theory Video_Out
  imports Prelude
begin

text \<open>
  The two outputs of the pipeline, \<open>src/rtsp_stream.cc\<close> and \<open>src/local_display.cc\<close>, as far as they
  are more than calls of GStreamer: which references the program holds while the callback of the
  RTSP server, on its own thread, replaces the element the main thread pushes to; what is copied
  into a pushed buffer; and what the teardown releases and joins. Of GStreamer they rely on its
  reference counting: an element the program holds a reference of is alive, and giving up a
  reference that is not held is undefined.
\<close>

section \<open>References\<close>

text \<open>The references held, by element; the result of giving one up. A step that a thread cannot make
  now is \<open>Wait\<close>, undefined behaviour is \<open>UB\<close>.\<close>

datatype 'a move = Wait | UB | Ok 'a

definition unref :: "nat \<Rightarrow> nat multiset \<Rightarrow> nat multiset option" where
  "unref a R = (if a \<in># R then Some (R - {#a#}) else None)"

section \<open>The RTSP stream\<close>

text \<open>Where the main thread stands: between calls; in \<open>rtsp_stream_push_frame\<close> with the reference it
  took, before and after the emission; in \<open>rtsp_stream_deinit\<close> before the join and before the server
  is released; after it. Where the callback stands: not running, or with the element it found.\<close>

datatype out_pc = OIdle | OHave nat bytes int int | ODone nat | OEnding | OJoined | OEnd

datatype cb_pc = CbIdle | CbGot nat

text \<open>\<open>rs_sent\<close> records the buffers pushed.\<close>

record rtsp =
  rs_appsrc :: "nat option"
  rs_loop :: bool
  rs_server :: bool
  rs_main :: out_pc
  rs_cb :: cb_pc
  rs_refs :: "nat multiset"
  rs_sent :: "(nat \<times> bytes) list"

definition rtsp_stream_init :: rtsp where
  "rtsp_stream_init = \<lparr>rs_appsrc = None, rs_loop = True, rs_server = True, rs_main = OIdle,
     rs_cb = CbIdle, rs_refs = {#}, rs_sent = []\<rparr>"

text \<open>\<open>on_media_configure\<close>: the reference of the element, then, under the mutex, the replacement. The
  references of the pipeline and of the caps are taken and given up in the first part.\<close>

definition media_found :: "nat \<Rightarrow> rtsp \<Rightarrow> rtsp move" where
  "media_found a s =
     (if rs_loop s \<and> rs_cb s = CbIdle then Ok (s\<lparr>rs_cb := CbGot a, rs_refs := add_mset a (rs_refs s)\<rparr>) else Wait)"

definition media_install :: "rtsp \<Rightarrow> rtsp move" where
  "media_install s =
     (case rs_cb s of
        CbIdle \<Rightarrow> Wait
      | CbGot a \<Rightarrow>
        (case rs_appsrc s of
           None \<Rightarrow> Ok (s\<lparr>rs_appsrc := Some a, rs_cb := CbIdle\<rparr>)
         | Some b \<Rightarrow>
           (case unref b (rs_refs s) of
              None \<Rightarrow> UB
            | Some R \<Rightarrow> Ok (s\<lparr>rs_appsrc := Some a, rs_refs := R, rs_cb := CbIdle\<rparr>))))"

text \<open>\<open>rtsp_stream_push_frame\<close>: under the mutex a reference of the current element; then the copy of
  \<open>width * height * 3\<close> bytes and its emission; then the reference is given up.\<close>

definition frame_bytes_of :: "int \<Rightarrow> int \<Rightarrow> nat" where
  "frame_bytes_of width height = nat (width * height * 3)"

definition push_take :: "bytes \<Rightarrow> int \<Rightarrow> int \<Rightarrow> rtsp \<Rightarrow> rtsp move" where
  "push_take bgr width height s =
     (if rs_main s \<noteq> OIdle then Wait
      else case rs_appsrc s of
        None \<Rightarrow> Ok s
      | Some a \<Rightarrow>
          (if a \<in># rs_refs s
           then Ok (s\<lparr>rs_main := OHave a bgr width height, rs_refs := add_mset a (rs_refs s)\<rparr>) else UB))"

definition push_emit :: "rtsp \<Rightarrow> rtsp move" where
  "push_emit s =
     (case rs_main s of
        OHave a bgr width height \<Rightarrow>
          (if length bgr < frame_bytes_of width height \<or> a \<notin># rs_refs s then UB
           else Ok (s\<lparr>rs_sent := rs_sent s @ [(a, take (frame_bytes_of width height) bgr)], rs_main := ODone a\<rparr>))
      | _ \<Rightarrow> Wait)"

definition push_release :: "rtsp \<Rightarrow> rtsp move" where
  "push_release s =
     (case rs_main s of
        ODone a \<Rightarrow> (case unref a (rs_refs s) of
            None \<Rightarrow> UB
          | Some R \<Rightarrow> Ok (s\<lparr>rs_refs := R, rs_main := OIdle\<rparr>))
      | _ \<Rightarrow> Wait)"

text \<open>\<open>rtsp_stream_deinit\<close>: the section under the mutex; the end of the GLib loop, whose thread is
  joined once a running callback has returned; the server.\<close>

definition deinit_eos :: "rtsp \<Rightarrow> rtsp move" where
  "deinit_eos s =
     (if rs_main s \<noteq> OIdle then Wait
      else case rs_appsrc s of
        None \<Rightarrow> Ok (s\<lparr>rs_main := OEnding\<rparr>)
      | Some a \<Rightarrow> (case unref a (rs_refs s) of
            None \<Rightarrow> UB
          | Some R \<Rightarrow> Ok (s\<lparr>rs_appsrc := None, rs_refs := R, rs_main := OEnding\<rparr>)))"

definition deinit_join :: "rtsp \<Rightarrow> rtsp move" where
  "deinit_join s =
     (if rs_main s = OEnding \<and> rs_cb s = CbIdle then Ok (s\<lparr>rs_loop := False, rs_main := OJoined\<rparr>) else Wait)"

definition deinit_server :: "rtsp \<Rightarrow> rtsp move" where
  "deinit_server s = (if rs_main s = OJoined then Ok (s\<lparr>rs_server := False, rs_main := OEnd\<rparr>) else Wait)"

datatype rtsp_act =
    Media_found nat | Media_install
  | Push_take bytes int int | Push_emit | Push_release
  | Deinit_eos | Deinit_join | Deinit_server

fun rtsp_step :: "rtsp_act \<Rightarrow> rtsp \<Rightarrow> rtsp move" where
  "rtsp_step (Media_found a) s = media_found a s"
| "rtsp_step Media_install s = media_install s"
| "rtsp_step (Push_take bgr w h) s = push_take bgr w h s"
| "rtsp_step Push_emit s = push_emit s"
| "rtsp_step Push_release s = push_release s"
| "rtsp_step Deinit_eos s = deinit_eos s"
| "rtsp_step Deinit_join s = deinit_join s"
| "rtsp_step Deinit_server s = deinit_server s"

text \<open>Every frame handed over has the bytes of its size, as \<open>main\<close>'s buffers do.\<close>

fun act_ok :: "rtsp_act \<Rightarrow> bool" where
  "act_ok (Push_take bgr w h) = (frame_bytes_of w h \<le> length bgr)"
| "act_ok _ = True"

inductive rtsp_reach :: "rtsp \<Rightarrow> bool" where
  init: "rtsp_reach rtsp_stream_init"
| step: "rtsp_reach s \<Longrightarrow> act_ok act \<Longrightarrow> rtsp_step act s = Ok s' \<Longrightarrow> rtsp_reach s'"

section \<open>Every reference is accounted for\<close>

fun main_refs :: "out_pc \<Rightarrow> nat multiset" where
  "main_refs (OHave a _ _ _) = {#a#}"
| "main_refs (ODone a) = {#a#}"
| "main_refs _ = {#}"

fun cb_refs :: "cb_pc \<Rightarrow> nat multiset" where
  "cb_refs CbIdle = {#}"
| "cb_refs (CbGot a) = {#a#}"

definition rtsp_inv :: "rtsp \<Rightarrow> bool" where
  "rtsp_inv s \<longleftrightarrow> rs_refs s = mset_set (set_option (rs_appsrc s)) + main_refs (rs_main s) + cb_refs (rs_cb s)
     \<and> (\<forall>a bgr w h. rs_main s = OHave a bgr w h \<longrightarrow> frame_bytes_of w h \<le> length bgr)
     \<and> (rs_main s \<in> {OJoined, OEnd} \<longrightarrow> \<not> rs_loop s \<and> rs_cb s = CbIdle)
     \<and> (rs_loop s \<longleftrightarrow> rs_main s \<notin> {OJoined, OEnd}) \<and> (rs_server s \<longleftrightarrow> rs_main s \<noteq> OEnd)"

lemmas rtsp_defs = media_found_def media_install_def push_take_def push_emit_def push_release_def
  deinit_eos_def deinit_join_def deinit_server_def unref_def

lemma rtsp_step_inv: "rtsp_inv s \<Longrightarrow> act_ok act \<Longrightarrow> rtsp_step act s = Ok s' \<Longrightarrow> rtsp_inv s'"
  by (cases act; cases "rs_appsrc s"; cases "rs_main s"; cases "rs_cb s")
    (auto simp: rtsp_defs rtsp_inv_def split: if_splits)

lemma rtsp_step_defined: "rtsp_inv s \<Longrightarrow> rtsp_step act s \<noteq> UB"
  by (cases act; cases "rs_appsrc s"; cases "rs_main s"; cases "rs_cb s")
    (auto simp: rtsp_defs rtsp_inv_def split: if_splits)

lemma rtsp_reach_inv: "rtsp_reach s \<Longrightarrow> rtsp_inv s"
  by (induction rule: rtsp_reach.induct) (simp add: rtsp_inv_def rtsp_stream_init_def, rule rtsp_step_inv)

text \<open>C26: whatever the interleaving of the RTSP callback with the main thread's pushes and its teardown,
  no step is undefined: the element a frame or the end of the stream is sent to is held by a
  reference of its own, although the callback may replace the current element in the meantime. The
  references held are exactly those the two threads and the global variable stand for, so that
  after the teardown at most the one of an element installed after the end-of-stream section is
  left.\<close>

theorem rtsp_elements_alive:
  assumes "rtsp_reach s"
  shows "(\<forall>act. rtsp_step act s \<noteq> UB)
    \<and> rs_refs s = mset_set (set_option (rs_appsrc s)) + main_refs (rs_main s) + cb_refs (rs_cb s)
    \<and> (rs_main s = OEnd \<longrightarrow> \<not> rs_loop s \<and> \<not> rs_server s \<and> rs_refs s = mset_set (set_option (rs_appsrc s)))"
  using rtsp_reach_inv[OF assms] rtsp_step_defined[OF rtsp_reach_inv[OF assms]] by (auto simp: rtsp_inv_def)

text \<open>Runs of a list of steps, for the witnesses.\<close>

fun rtsp_run :: "rtsp_act list \<Rightarrow> rtsp \<Rightarrow> rtsp move" where
  "rtsp_run [] s = Ok s"
| "rtsp_run (act # acts) s = (case rtsp_step act s of Ok s' \<Rightarrow> rtsp_run acts s' | m \<Rightarrow> m)"

lemma rtsp_run_reach:
  "rtsp_run acts s = Ok s' \<Longrightarrow> rtsp_reach s \<Longrightarrow> list_all act_ok acts \<Longrightarrow> rtsp_reach s'"
proof (induction acts arbitrary: s)
  case (Cons act acts)
  then obtain s1 where "rtsp_step act s = Ok s1" "rtsp_run acts s1 = Ok s'"
    by (auto split: move.splits)
  then show ?case using Cons rtsp_reach.step by auto
qed simp

lemma rtsp_elements_alive_witness:
  "\<exists>s. rtsp_run [Media_found 4, Media_install, Push_take [1, 2, 3] 1 1, Media_found 9, Media_install] rtsp_stream_init = Ok s
    \<and> rs_refs s = {#4, 9#} \<and> rtsp_step Push_emit s \<noteq> UB"
proof -
  let ?acts = "[Media_found 4, Media_install, Push_take [1, 2, 3] 1 1, Media_found 9, Media_install]"
  obtain s where s: "rtsp_run ?acts rtsp_stream_init = Ok s" "rs_refs s = {#4, 9#}"
    by (simp add: rtsp_defs rtsp_stream_init_def)
  have "rtsp_reach s"
    by (rule rtsp_run_reach[OF s(1) rtsp_reach.init]) (simp add: frame_bytes_of_def)
  with s rtsp_elements_alive[of s] show ?thesis by blast
qed

text \<open>A client that connects between the end-of-stream section and the join leaves a reference behind.\<close>

lemma rtsp_deinit_can_leak: "\<exists>s. rtsp_reach s \<and> rs_main s = OEnd \<and> rs_refs s = {#7#}"
proof -
  let ?acts = "[Deinit_eos, Media_found 7, Media_install, Deinit_join, Deinit_server]"
  obtain s where s: "rtsp_run ?acts rtsp_stream_init = Ok s" "rs_main s = OEnd" "rs_refs s = {#7#}"
    by (simp add: rtsp_defs rtsp_stream_init_def)
  have "rtsp_reach s" by (rule rtsp_run_reach[OF s(1) rtsp_reach.init]) simp
  with s show ?thesis by blast
qed

section \<open>The local display\<close>

text \<open>\<open>ld_thread\<close>: the thread of the GLib loop has been created and not joined.\<close>

record display =
  ld_pipeline :: bool
  ld_appsrc :: bool
  ld_loop :: bool
  ld_thread :: bool
  ld_sent :: "bytes list"

definition display_start :: display where
  "display_start = \<lparr>ld_pipeline = False, ld_appsrc = False, ld_loop = False, ld_thread = False, ld_sent = []\<rparr>"

text \<open>\<open>gst_parse_launch\<close>: a pipeline, an error, or both (a pipeline with missing elements).\<close>

datatype parse_result = Parsed | Parsed_with_error | Parse_failed

definition local_display_init :: "parse_result \<Rightarrow> display \<Rightarrow> display" where
  "local_display_init r d =
     (let d = d\<lparr>ld_loop := True, ld_pipeline := r \<noteq> Parse_failed\<rparr>
      in if r \<noteq> Parsed then d else d\<lparr>ld_appsrc := True, ld_thread := True\<rparr>)"

definition local_display_push_frame :: "bytes \<Rightarrow> int \<Rightarrow> int \<Rightarrow> display \<Rightarrow> display option" where
  "local_display_push_frame bgr width height d =
     (if \<not> ld_appsrc d then Some d
      else if length bgr < frame_bytes_of width height then None
      else Some (d\<lparr>ld_sent := ld_sent d @ [take (frame_bytes_of width height) bgr]\<rparr>))"

text \<open>\<open>pthread_join\<close> of a thread that was not created is undefined.\<close>

definition local_display_deinit :: "display \<Rightarrow> display option" where
  "local_display_deinit d =
     (let d = d\<lparr>ld_appsrc := False, ld_pipeline := False\<rparr>
      in if ld_loop d then (if ld_thread d then Some (d\<lparr>ld_thread := False, ld_loop := False\<rparr>) else None)
         else Some d)"

fun display_pushes :: "(bytes \<times> int \<times> int) list \<Rightarrow> display \<Rightarrow> display option" where
  "display_pushes [] d = Some d"
| "display_pushes ((bgr, w, h) # fs) d = Option.bind (local_display_push_frame bgr w h d) (display_pushes fs)"

lemma display_pushes_fields:
  assumes "\<forall>(bgr, w, h) \<in> set fs. frame_bytes_of w h \<le> length bgr"
  shows "display_pushes fs d = Some (d\<lparr>ld_sent := ld_sent d @
    (if ld_appsrc d then map (\<lambda>(bgr, w, h). take (frame_bytes_of w h) bgr) fs else [])\<rparr>)"
  using assms
proof (induction fs arbitrary: d)
  case (Cons f fs)
  obtain bgr w h where f: "f = (bgr, w, h)" by (cases f)
  then have "\<not> length bgr < frame_bytes_of w h" using Cons.prems by auto
  then show ?case using Cons f by (auto simp: local_display_push_frame_def)
qed simp

text \<open>The life of the local display: when the pipeline was built, every frame pushed is sent with
  the bytes of its size and the teardown is defined and releases everything; when GStreamer reported
  an error, the pushes do nothing, as meant, but the teardown joins a thread that was never created,
  because the loop exists before the early return.\<close>

theorem local_display_life:
  assumes "\<forall>(bgr, w, h) \<in> set fs. frame_bytes_of w h \<le> length bgr"
  shows "\<exists>d. display_pushes fs (local_display_init r display_start) = Some d
    \<and> (if r = Parsed
       then ld_sent d = map (\<lambda>(bgr, w, h). take (frame_bytes_of w h) bgr) fs
         \<and> local_display_deinit d = Some (display_start\<lparr>ld_sent := ld_sent d\<rparr>)
       else ld_sent d = [] \<and> local_display_deinit d = None)"
  using display_pushes_fields[OF assms]
  by (simp add: local_display_init_def local_display_deinit_def display_start_def)

lemma local_display_life_witness:
  "\<exists>d. display_pushes [([1, 2, 3, 4], 1, 1)] (local_display_init Parse_failed display_start) = Some d
    \<and> local_display_deinit d = None"
  using local_display_life[of "[([1, 2, 3, 4], 1, 1)]" Parse_failed] by (auto simp: frame_bytes_of_def)

end
