(* ===== verification/Letterbox.thy ===== *)
theory Letterbox
  imports Pipeline_Detect
begin

text \<open>
  \<open>rga_letterbox_rgb\<close> of \<open>src/rga_func.cc\<close> down to the pixels: the black background and the resized
  frame in the top left corner. The resizing itself is done by the RGA library; it is the parameter
  \<open>imresize\<close>, the resized image for a width and a height, row by row, or \<open>None\<close> when the call fails.
\<close>

section \<open>The model buffer\<close>

text \<open>Bytes written at an offset; outside the buffer it is undefined.\<close>

definition write_at :: "nat \<Rightarrow> bytes \<Rightarrow> image \<Rightarrow> image option" where
  "write_at i bs dst =
     (if i + length bs \<le> length dst then Some (take i dst @ bs @ drop (i + length bs) dst) else None)"

text \<open>The rows of an image of width w written with a distance of \<open>wstride\<close> pixels, which is what
  \<open>wrapbuffer_virtualaddr_t\<close> asks the library for.\<close>

definition write_rows :: "nat \<Rightarrow> nat \<Rightarrow> nat \<Rightarrow> bytes \<Rightarrow> image \<Rightarrow> image option" where
  "write_rows wstride w h img =
     foldo (\<lambda>y. write_at (y * wstride * 3) (take (w * 3) (drop (y * w * 3) img))) [0..<h]"

definition rga_letterbox_rgb ::
  "(nat \<Rightarrow> nat \<Rightarrow> image \<Rightarrow> bytes option) \<Rightarrow> image \<Rightarrow> int \<Rightarrow> int \<Rightarrow> nat \<Rightarrow> nat \<Rightarrow> (fp \<times> image) option" where
  "rga_letterbox_rgb imresize src src_w src_h model_w model_h =
     (case letterbox src_w src_h (int model_w) (int model_h) of
        None \<Rightarrow> None
      | Some (scale, rw, rh) \<Rightarrow>
          (let dst = replicate (model_w * model_h * 3) 0
           in case imresize (nat rw) (nat rh) src of
                None \<Rightarrow> Some (scale, dst)
              | Some img \<Rightarrow> map_option (Pair scale) (write_rows model_w (nat rw) (nat rh) img dst)))"

section \<open>Its pixels\<close>

lemma write_at_nth:
  assumes "i + length bs \<le> length dst"
  shows "\<exists>d. write_at i bs dst = Some d \<and> length d = length dst
    \<and> (\<forall>j<length dst. d ! j = (if i \<le> j \<and> j < i + length bs then bs ! (j - i) else dst ! j))"
  using assms by (intro exI[of _ "take i dst @ bs @ drop (i + length bs) dst"]) (auto simp: write_at_def nth_append min_def)

text \<open>What is in the buffer after h rows: the image in the corner, the background elsewhere.\<close>

definition pixel_at :: "nat \<Rightarrow> nat \<Rightarrow> nat \<Rightarrow> nat \<Rightarrow> nat" where
  "pixel_at w x y c = (y * w + x) * 3 + c"

lemma pixel_row: "x < w \<Longrightarrow> c < 3 \<Longrightarrow> pixel_at w x y c < (y * w + w) * 3"
  by (simp add: pixel_at_def)

lemma pixel_lt: "x < w \<Longrightarrow> y < h \<Longrightarrow> c < 3 \<Longrightarrow> pixel_at w x y c < w * h * 3"
proof -
  assume a: "x < w" "y < h" "c < 3"
  have "(y + 1) * w \<le> h * w" using a(2) by (intro mult_right_mono) auto
  then show ?thesis using pixel_row[OF a(1,3), of y] by (simp add: algebra_simps)
qed

lemma row_pixel:
  assumes "x < ws" "c < 3" "w \<le> ws"
  shows "n * ws * 3 \<le> pixel_at ws x y c \<and> pixel_at ws x y c < n * ws * 3 + w * 3 \<longleftrightarrow> y = n \<and> x < w"
proof -
  consider "y < n" | "y = n" | "n < y" by linarith
  then show ?thesis
  proof cases
    case 1
    then have "(y + 1) * ws \<le> n * ws" by (intro mult_right_mono) auto
    then have "pixel_at ws x y c < n * ws * 3" using assms by (simp add: pixel_at_def)
    with 1 show ?thesis by auto
  next
    case 2
    with assms show ?thesis by (auto simp: pixel_at_def)
  next
    case 3
    then have "(n + 1) * ws \<le> y * ws" by (intro mult_right_mono) auto
    then have "n * ws * 3 + w * 3 \<le> pixel_at ws x y c" using assms by (simp add: pixel_at_def)
    with 3 show ?thesis by auto
  qed
qed

definition corner :: "nat \<Rightarrow> nat \<Rightarrow> nat \<Rightarrow> nat \<Rightarrow> bytes \<Rightarrow> nat \<Rightarrow> image \<Rightarrow> bool" where
  "corner ws mh w h img n dst \<longleftrightarrow> length dst = ws * mh * 3
     \<and> (\<forall>x y c. x < ws \<longrightarrow> y < mh \<longrightarrow> c < 3
          \<longrightarrow> dst ! pixel_at ws x y c = (if x < w \<and> y < n then img ! pixel_at w x y c else 0))"

lemma corner_row:
  assumes "corner ws mh w h img n dst" "n < h" "h \<le> mh" "w \<le> ws" "length img = w * h * 3"
  shows "\<exists>d. write_at (n * ws * 3) (take (w * 3) (drop (n * w * 3) img)) dst = Some d \<and> corner ws mh w h img (Suc n) d"
proof -
  define row where "row = take (w * 3) (drop (n * w * 3) img)"
  have l: "length dst = ws * mh * 3" using assms(1) by (simp add: corner_def)
  have "(n + 1) * w \<le> h * w" using assms(2) by (intro mult_right_mono) auto
  then have r: "length row = w * 3" using assms(5) by (simp add: row_def algebra_simps)
  have nl: "n * w * 3 \<le> length img" using assms(2,5) by simp
  have "(n + 1) * ws \<le> mh * ws" using assms(2,3) by (intro mult_right_mono) auto
  then have b: "n * ws * 3 + length row \<le> length dst" using assms(4) by (simp add: r l algebra_simps)
  obtain d where d: "write_at (n * ws * 3) row dst = Some d" "length d = length dst"
    "\<forall>j<length dst. d ! j = (if n * ws * 3 \<le> j \<and> j < n * ws * 3 + length row then row ! (j - n * ws * 3) else dst ! j)"
    using write_at_nth[OF b] by blast
  have "d ! pixel_at ws x y c = (if x < w \<and> y < Suc n then img ! pixel_at w x y c else 0)"
    if xyc: "x < ws" "y < mh" "c < 3" for x y c
  proof -
    have j: "pixel_at ws x y c < length dst" using pixel_lt[OF xyc] by (simp add: l)
    have old: "dst ! pixel_at ws x y c = (if x < w \<and> y < n then img ! pixel_at w x y c else 0)"
      using assms(1) xyc by (simp add: corner_def)
    show ?thesis
    proof (cases "y = n \<and> x < w")
      case True
      then have "row ! (pixel_at ws x y c - n * ws * 3) = img ! pixel_at w x y c"
        using xyc(3) nl by (simp add: row_def pixel_at_def algebra_simps)
      then show ?thesis using True d(3)[rule_format, OF j] row_pixel[OF xyc(1,3) assms(4), of n y] by (simp add: r)
    next
      case False
      then show ?thesis using d(3)[rule_format, OF j] row_pixel[OF xyc(1,3) assms(4), of n y] old by (auto simp: r less_Suc_eq)
    qed
  qed
  with d(1,2) l show ?thesis by (simp add: corner_def row_def)
qed

lemma write_rows_corner:
  assumes "h \<le> mh" "w \<le> ws" "length img = w * h * 3"
  shows "\<exists>dst. write_rows ws w h img (replicate (ws * mh * 3) 0) = Some dst \<and> corner ws mh w h img h dst"
  unfolding write_rows_def
proof (rule foldo_upt[where P = "corner ws mh w h img"])
  show "corner ws mh w h img 0 (replicate (ws * mh * 3) 0)" by (simp add: corner_def pixel_lt)
qed (use corner_row[OF _ _ assms] in auto)



text \<open>Nothing checks that the resized frame is not higher than the model's input: a model wider than 16:9
  has its buffer overrun.\<close>

lemma letterbox_overrun:
  assumes "letterbox src_w src_h (int mw) (int mh) = Some (scale, rw, rh)" "rw = int mw" "0 < mw" "int mh < rh"
    and "imresize mw (nat rh) src = Some img" "length img = mw * nat rh * 3"
  shows "rga_letterbox_rgb imresize src src_w src_h mw mh = None"
proof -
  let ?w = "\<lambda>y. write_at (y * mw * 3) (take (mw * 3) (drop (y * mw * 3) img))"
  have "mh < nat rh" using assms(4) by linarith
  then obtain h where h: "nat rh = mh + Suc h" using less_imp_Suc_add by auto
  have "mw * (mh + Suc h) = mh * mw + mw + h * mw" by (simp add: algebra_simps)
  then have r: "length (take (mw * 3) (drop (mh * mw * 3) img)) = mw * 3"
    using assms(6) by (simp add: h)
  have up: "[0..<mh + Suc h] = [0..<mh] @ [mh..<mh + Suc h]" by (rule upt_add_eq_append) simp
  let ?d0 = "replicate (mw * mh * 3) 0 :: image"
  have run: "foldo ?w [0..<mh + Suc h] ?d0 = Option.bind (foldo ?w [0..<mh] ?d0) (foldo ?w [mh..<mh + Suc h])"
    by (simp only: up foldo_append)
  have len: "length d = mw * mh * 3" if "foldo ?w [0..<mh] ?d0 = Some d" for d
    by (rule foldo_SomeD[OF that]) (auto simp: write_at_def split: if_splits)
  have stop: "foldo ?w [mh..<mh + Suc h] d = None" if "length d = mw * mh * 3" for d
  proof -
    have "\<not> mh * mw * 3 + mw * 3 \<le> length d" using that assms(3) by simp
    then have "?w mh d = None" by (simp only: write_at_def r if_False)
    then show ?thesis by (simp add: upt_conv_Cons del: upt_Suc)
  qed
  have "write_rows mw mw (nat rh) img ?d0 = None"
    unfolding write_rows_def h run
  proof (cases "foldo ?w [0..<mh] ?d0")
    case (Some d)
    show "Option.bind (foldo ?w [0..<mh] ?d0) (foldo ?w [mh..<mh + Suc h]) = None"
      by (simp only: Some Option.bind.simps stop[OF len[OF Some]])
  qed simp
  then show ?thesis using assms(1,2,5) by (simp add: rga_letterbox_rgb_def Let_def)
qed

end
