(* ===== verification/Service.thy ===== *)
theory Service
  imports Data_Plane "HOL-Library.Monad_Syntax"
begin

text \<open>
  What \<open>tracker/src/bytetrack_service.cc\<close> and \<open>temporal/src/temporal_service.cc\<close> share, text for
  text: the reconnecting input, the non-blocking output with at most one consumer, and the frame
  loop, which reads a frame, hands it to the component behind the service and publishes what it
  returns. The records, their sizes and the component are parameters here; the two services
  instantiate them.

  A read that fails in the middle of the records does not end the frame: the component gets what
  was read, and the loop ends when the next length prefix cannot be read.
\<close>

section \<open>Input\<close>

text \<open>\<open>connect_input\<close>: retried until the peer listens; no more attempts means that a signal
  cleared \<open>g_running\<close>.\<close>

datatype 'c attempt = Socket_error | Refused | Connected 'c

fun connect_input :: "'c attempt list \<Rightarrow> 'c option \<times> 'c attempt list" where
  "connect_input [] = (None, [])"
| "connect_input (Socket_error # as) = (None, as)"
| "connect_input (Refused # as) = connect_input as"
| "connect_input (Connected c # as) = (Some c, as)"

text \<open>The length prefix and the header of a frame; \<open>Inl\<close> ends the frame loop.\<close>

datatype input_end = Input_closed | Body_too_small u32 | Header_short | Length_mismatch

definition read_header :: "nat \<Rightarrow> delivery list \<Rightarrow> (input_end + wire_frame_header) \<times> delivery list" where
  "read_header sz s =
     (case readExact 4 s of
        (None, s) \<Rightarrow> (Inl Input_closed, s)
      | (Some lb, s) \<Rightarrow>
        (let body_len = dec_u32 0 lb in
         if unat body_len < sizeof_WireFrameHeader then (Inl (Body_too_small body_len), s)
         else case readExact sizeof_WireFrameHeader s of
           (None, s) \<Rightarrow> (Inl Header_short, s)
         | (Some hb, s) \<Rightarrow>
           (let hdr = dec_header hb;
                rec_bytes = of_nat (unat (wh_count hdr)) * of_nat sz :: u32
            in if body_len \<noteq> of_nat sizeof_WireFrameHeader + rec_bytes
               then (Inl Length_mismatch, s) else (Inr hdr, s))))"

text \<open>The record loop: the records read before the count is reached or a read fails.\<close>

fun read_records :: "(bytes \<Rightarrow> 'r) \<Rightarrow> nat \<Rightarrow> nat \<Rightarrow> delivery list \<Rightarrow> 'r list \<times> delivery list" where
  "read_records dec sz 0 s = ([], s)"
| "read_records dec sz (Suc n) s =
     (case readExact sz s of
        (None, s) \<Rightarrow> ([], s)
      | (Some b, s) \<Rightarrow> (case read_records dec sz n s of (rs, s) \<Rightarrow> (dec b # rs, s)))"

section \<open>Output\<close>

text \<open>The consumer side: the connection \<open>out_conn\<close>, the consumers waiting on the listening socket,
  and, to state what each was sent, the connections closed.\<close>

record consumer =
  co_conn :: "sink option"
  co_backlog :: "sink list"
  co_closed :: "sink list"

definition try_accept :: "consumer \<Rightarrow> consumer" where
  "try_accept c = (case co_backlog c of [] \<Rightarrow> c
     | k # ks \<Rightarrow> c\<lparr>co_conn := Some k, co_backlog := ks\<rparr>)"

definition publish_records ::
  "('o \<Rightarrow> bytes) \<Rightarrow> nat \<Rightarrow> wire_frame_header \<Rightarrow> 'o list \<Rightarrow> sink \<Rightarrow> bool \<times> sink" where
  "publish_records enc sz hdr_in outs k =
     send_frame enc sz (hdr_in\<lparr>wh_count := of_nat (length outs)\<rparr>) outs k"

definition publish_step ::
  "('o \<Rightarrow> bytes) \<Rightarrow> nat \<Rightarrow> wire_frame_header \<Rightarrow> 'o list \<Rightarrow> consumer \<Rightarrow> consumer" where
  "publish_step enc sz hdr outs c =
     (let c = (if co_conn c = None then try_accept c else c) in
      case co_conn c of
        None \<Rightarrow> c
      | Some k \<Rightarrow> (case publish_records enc sz hdr outs k of
          (True, k') \<Rightarrow> c\<lparr>co_conn := Some k'\<rparr>
        | (False, k') \<Rightarrow> c\<lparr>co_conn := None, co_closed := co_closed c @ [k']\<rparr>))"

section \<open>The frame loop\<close>

text \<open>
  The component behind a service: from the header, the records read (fewer than the count after a
  short read) and its state, the records to publish. \<open>None\<close> is undefined behaviour.
\<close>

type_synonym ('r, 'o, 's) handler = "wire_frame_header \<Rightarrow> 'r list \<Rightarrow> 's \<Rightarrow> ('o list \<times> 's) option"

record ('r, 'o, 's) service =
  sv_dec :: "bytes \<Rightarrow> 'r"
  sv_in_size :: nat
  sv_enc :: "'o \<Rightarrow> bytes"
  sv_out_size :: nat
  sv_handle :: "('r, 'o, 's) handler"

datatype ('s) turn = Next 's consumer "delivery list" | Lost 's consumer input_end

definition service_turn ::
  "('r, 'o, 's) service \<Rightarrow> 's \<Rightarrow> consumer \<Rightarrow> delivery list \<Rightarrow> 's turn option" where
  "service_turn v st c s =
     (case read_header (sv_in_size v) s of
        (Inl e, s) \<Rightarrow> Some (Lost st c e)
      | (Inr hdr, s) \<Rightarrow>
        (case read_records (sv_dec v) (sv_in_size v) (unat (wh_count hdr)) s of (rs, s) \<Rightarrow>
           do {
             (outs, st) \<leftarrow> sv_handle v hdr rs st;
             Some (Next st (publish_step (sv_enc v) (sv_out_size v) hdr outs c) s)
           }))"

text \<open>The turns of one input connection. The list gives, for every turn taken while \<open>g_running\<close>,
  the consumers that have come to wait on the listening socket; its end is the signal.\<close>

fun service_loop ::
  "('r, 'o, 's) service \<Rightarrow> sink list list \<Rightarrow> 's \<Rightarrow> consumer \<Rightarrow> delivery list
   \<Rightarrow> ('s \<times> consumer \<times> input_end option) option" where
  "service_loop v [] st c s = Some (st, c, None)"
| "service_loop v (ks # kss) st c s =
     (case service_turn v st (c\<lparr>co_backlog := co_backlog c @ ks\<rparr>) s of
        None \<Rightarrow> None
      | Some (Lost st c e) \<Rightarrow> Some (st, c, Some e)
      | Some (Next st c s) \<Rightarrow> service_loop v kss st c s)"

text \<open>\<open>main\<close> after the output socket is bound: reconnect after a lost input, until the signal or a
  socket error; the consumer is closed at the end.\<close>

definition service_exit :: "consumer \<Rightarrow> consumer" where
  "service_exit c = (case co_conn c of None \<Rightarrow> c
     | Some k \<Rightarrow> c\<lparr>co_conn := None, co_closed := co_closed c @ [k]\<rparr>)"

lemma connect_input_less:
  "connect_input as = (Some c, as') \<Longrightarrow> length as' < length as"
  by (induction as rule: connect_input.induct) auto

function service_main ::
  "('r, 'o, 's) service \<Rightarrow> (sink list list \<times> delivery list) attempt list \<Rightarrow> 's \<Rightarrow> consumer
   \<Rightarrow> ('s \<times> consumer) option" where
  "service_main v as st c =
     (case connect_input as of
        (None, _) \<Rightarrow> Some (st, service_exit c)
      | (Some (kss, s), as) \<Rightarrow>
        (case service_loop v kss st c s of
           None \<Rightarrow> None
         | Some (st, c, None) \<Rightarrow> Some (st, service_exit c)
         | Some (st, c, Some e) \<Rightarrow> service_main v as st c))"
  by pat_completeness auto
termination
  by (relation "measure (\<lambda>(v, as, st, c). length as)") (auto dest!: connect_input_less[OF sym])

declare service_main.simps [simp del]

section \<open>Reading what was sent\<close>

lemma avail_one [simp]: "avail [Data bs] = bs"
  by (cases bs) simp_all

context record_codec
begin

lemma read_header_frame:
  assumes h: "wf_header h" "unat (wh_count h) = length rs" and n: "length rs < 2 ^ 16" and sz: "sz \<le> 200"
    and av: "avail s = frame_bytes enc sz h rs @ rest"
  obtains s' where "read_header sz s = (Inr h, s')" "avail s' = concat (map enc rs) @ rest"
proof -
  have hl: "length (enc_header h) = sizeof_WireFrameHeader" using h(1) by (rule hdr.length_enc_rec)
  obtain s1 where r1: "readExact 4 s = (Some (enc_u32 (body_size sz (length rs))), s1)"
    and a1: "avail s1 = enc_header h @ concat (map enc rs) @ rest"
    by (rule readExact_Some[of 4 s]) (auto simp: av frame_bytes_def)
  obtain s2 where r2: "readExact sizeof_WireFrameHeader s1 = (Some (enc_header h), s2)"
    and a2: "avail s2 = concat (map enc rs) @ rest"
    by (rule readExact_Some[of sizeof_WireFrameHeader s1]) (auto simp: a1 hl)
  note bs = unat_body_size[OF sz n]
  have uc: "(ucast (wh_count h) :: u32) = of_nat (length rs)"
    unfolding h(2)[symmetric] by simp
  have "read_header sz s = (Inr h, s2)"
    using bs(1) hdr.dec_enc_rec[OF h(1)]
    by (simp add: read_header_def r1 r2 Let_def codec_simps h(2) body_size_def uc)
  then show thesis using that a2 by blast
qed

lemma read_records_all:
  "\<forall>r\<in>set rs. wf r \<Longrightarrow> avail s = concat (map enc rs) @ rest \<Longrightarrow>
   \<exists>s'. read_records dec sz (length rs) s = (rs, s') \<and> avail s' = rest"
proof (induction rs arbitrary: s)
  case (Cons r rs)
  then obtain s1 where r1: "readExact sz s = (Some (enc r), s1)" and a1: "avail s1 = concat (map enc rs) @ rest"
    by (auto intro: readExact_Some[of sz s] simp: length_enc_rec)
  obtain s' where "read_records dec sz (length rs) s1 = (rs, s')" "avail s' = rest"
    using Cons.IH[of s1] Cons.prems(1) a1 by auto
  then show ?case using r1 Cons.prems(1) by (simp add: dec_enc_rec)
qed simp

text \<open>A stream that ends inside the records gives the complete ones.\<close>

lemma read_records_short:
  "\<forall>r\<in>set rs. wf r \<Longrightarrow> length rs < n \<Longrightarrow> avail s = concat (map enc rs) @ part \<Longrightarrow> length part < sz \<Longrightarrow>
   \<exists>s'. read_records dec sz n s = (rs, s')"
proof (induction rs arbitrary: s n)
  case Nil
  then obtain n' where "n = Suc n'" by (cases n) auto
  moreover obtain s' where "readExact sz s = (None, s')" using Nil readExact_None[of s sz] by auto
  ultimately show ?case by simp
next
  case (Cons r rs)
  then obtain n' where n: "n = Suc n'" "length rs < n'" by (cases n) auto
  obtain s1 where r1: "readExact sz s = (Some (enc r), s1)" and a1: "avail s1 = concat (map enc rs) @ part"
    using Cons.prems by (auto intro: readExact_Some[of sz s] simp: length_enc_rec)
  obtain s' where "read_records dec sz n' s1 = (rs, s')"
    using Cons.IH[of n' s1] Cons.prems n a1 by auto
  then show ?case using r1 Cons.prems(1) n by (simp add: dec_enc_rec)
qed

end

section \<open>A connected consumer\<close>

text \<open>The outputs of the component over a sequence of frames, with the headers they go out under.\<close>

fun handle_run ::
  "('r, 'o, 's) handler \<Rightarrow> (wire_frame_header \<times> 'r list) list \<Rightarrow> 's
   \<Rightarrow> ((wire_frame_header \<times> 'o list) list \<times> 's) option" where
  "handle_run f [] st = Some ([], st)"
| "handle_run f ((hdr, rs) # fs) st =
     do {
       (outs, st) \<leftarrow> f hdr rs st;
       (os, st) \<leftarrow> handle_run f fs st;
       Some ((hdr\<lparr>wh_count := of_nat (length outs)\<rparr>, outs) # os, st)
     }"

definition stream_of :: "('r \<Rightarrow> bytes) \<Rightarrow> nat \<Rightarrow> (wire_frame_header \<times> 'r list) list \<Rightarrow> bytes" where
  "stream_of enc sz fs = concat (map (\<lambda>(h, rs). frame_bytes enc sz h rs) fs)"

lemma stream_of_simps [simp]:
  "stream_of enc sz [] = []"
  "stream_of enc sz ((h, rs) # fs) = frame_bytes enc sz h rs @ stream_of enc sz fs"
  by (simp_all add: stream_of_def)

text \<open>A connection that accepts n bytes and never fails.\<close>

definition takes :: "nat \<Rightarrow> sink \<Rightarrow> bool" where
  "takes n k \<longleftrightarrow> n \<le> length (accepts k) \<and> 0 \<notin> set (accepts k)"

lemma write_all_takes:
  "takes (length (concat bs) + n) k \<Longrightarrow>
   \<exists>k'. write_all bs k = (True, k') \<and> sent k' = sent k @ concat bs \<and> takes n k'"
proof (induction bs arbitrary: k)
  case (Cons b bs)
  obtain k1 where k1: "writeExact b k = (True, k1)" "sent k1 = sent k @ b"
      "length (accepts k) \<le> length (accepts k1) + length b" "set (accepts k1) \<subseteq> set (accepts k)"
    using writeExact_succeeds[of b k] Cons.prems by (auto simp: takes_def)
  then have "takes (length (concat bs) + n) k1" using Cons.prems by (auto simp: takes_def)
  then obtain k' where "write_all bs k1 = (True, k')" "sent k' = sent k1 @ concat bs" "takes n k'"
    using Cons.IH by blast
  then show ?case using k1 by simp
qed simp

lemma publish_records_takes:
  assumes "takes (length (frame_bytes enc sz (h\<lparr>wh_count := of_nat (length outs)\<rparr>) outs) + n) k"
  shows "\<exists>k'. publish_records enc sz h outs k = (True, k') \<and> takes n k'
    \<and> sent k' = sent k @ frame_bytes enc sz (h\<lparr>wh_count := of_nat (length outs)\<rparr>) outs"
  unfolding publish_records_def send_frame_def
  using write_all_takes[OF assms[unfolded frame_bytes_concat]]
  by (auto simp: frame_bytes_concat)

context record_codec
begin

lemma service_turn_frame:
  assumes v: "sv_dec v = dec" "sv_in_size v = sz" "sz \<le> 200"
    and h: "wf_header h" "unat (wh_count h) = length rs" "\<forall>r\<in>set rs. wf r"
    and av: "avail s = frame_bytes enc sz h rs @ rest"
    and f: "sv_handle v h rs st = Some (outs, st')"
  obtains s' where "avail s' = rest"
    "service_turn v st c s = Some (Next st' (publish_step (sv_enc v) (sv_out_size v) h outs c) s')"
proof -
  have "unat (wh_count h) < 2 ^ LENGTH(16)" by (rule unsigned_less)
  then have n: "length rs < 2 ^ 16" using h(2) by simp
  obtain s1 where s1: "read_header sz s = (Inr h, s1)" "avail s1 = concat (map enc rs) @ rest"
    using read_header_frame[OF h(1,2) n v(3) av] by blast
  obtain s' where "read_records dec sz (length rs) s1 = (rs, s')" "avail s' = rest"
    using read_records_all[OF h(3) s1(2)] by blast
  then show thesis using that s1 v f h(2) by (simp add: service_turn_def)
qed

text \<open>Frame by frame, the service sends what its component returns.\<close>

lemma service_loop_frames:
  assumes v: "sv_dec v = dec" "sv_in_size v = sz" "sz \<le> 200"
  shows "\<forall>(h, rs)\<in>set fs. wf_header h \<and> unat (wh_count h) = length rs \<and> (\<forall>r\<in>set rs. wf r) \<Longrightarrow>
    handle_run (sv_handle v) fs st = Some (os, st') \<Longrightarrow> avail s = stream_of enc sz fs \<Longrightarrow>
    co_conn c = Some k \<Longrightarrow> takes (length (stream_of (sv_enc v) (sv_out_size v) os)) k \<Longrightarrow>
    length fs < length kss \<Longrightarrow>
    \<exists>c' k'. service_loop v kss st c s = Some (st', c', Some Input_closed) \<and> co_conn c' = Some k'
      \<and> sent k' = sent k @ stream_of (sv_enc v) (sv_out_size v) os"
proof (induction fs arbitrary: st os s c k kss)
  case Nil
  then obtain ks kss' where "kss = ks # kss'" by (cases kss) auto
  moreover obtain s' where "readExact 4 s = (None, s')" using Nil readExact_None[of s 4] by auto
  ultimately show ?case using Nil by (simp add: service_turn_def read_header_def)
next
  case (Cons f fs)
  obtain h rs where f: "f = (h, rs)" by (cases f)
  obtain ks kss' where kss: "kss = ks # kss'" using Cons.prems(6) by (cases kss) auto
  obtain outs st1 os' where fr: "sv_handle v h rs st = Some (outs, st1)"
      "handle_run (sv_handle v) fs st1 = Some (os', st')"
      "os = (h\<lparr>wh_count := of_nat (length outs)\<rparr>, outs) # os'"
    using Cons.prems(2) by (auto simp: f split: Option.bind_splits)
  define c1 where "c1 = c\<lparr>co_backlog := co_backlog c @ ks\<rparr>"
  obtain s' where s': "avail s' = stream_of enc sz fs"
      "service_turn v st c1 s = Some (Next st1 (publish_step (sv_enc v) (sv_out_size v) h outs c1) s')"
    using service_turn_frame[OF v _ _ _ _ fr(1), of s "stream_of enc sz fs" c1] Cons.prems(1,3)
    by (auto simp: f)
  obtain k1 where k1: "publish_records (sv_enc v) (sv_out_size v) h outs k = (True, k1)"
      "takes (length (stream_of (sv_enc v) (sv_out_size v) os')) k1"
      "sent k1 = sent k @ frame_bytes (sv_enc v) (sv_out_size v) (h\<lparr>wh_count := of_nat (length outs)\<rparr>) outs"
    using publish_records_takes[of "sv_enc v" "sv_out_size v" outs h _ k] Cons.prems(5) fr(3) by auto
  define c2 where "c2 = publish_step (sv_enc v) (sv_out_size v) h outs c1"
  have c2: "co_conn c2 = Some k1"
    using Cons.prems(4) k1(1) by (simp add: c2_def c1_def publish_step_def)
  obtain c' k' where "service_loop v kss' st1 c2 s' = Some (st', c', Some Input_closed)"
      "co_conn c' = Some k'" "sent k' = sent k1 @ stream_of (sv_enc v) (sv_out_size v) os'"
    using Cons.IH[OF _ fr(2) s'(1) c2 k1(2), of kss'] Cons.prems(1,6) kss by auto
  then show ?case using s'(2) kss k1(3) fr(3) by (simp add: c1_def c2_def)
qed

end

end
