(* ===== verification/Iou_Tracker.thy ===== *)
theory Iou_Tracker
  imports Float_Bounds "HOL-Library.Monad_Syntax"
begin

text \<open>
  \<open>tracker/src/iou_tracker.cc\<close>: the greedy IOU tracker behind the interface of
  \<open>tracker/include/bytetrack_adapter.h\<close>. The tracks are a vector in order of creation; one
  \<open>update\<close> scores every pair of a detection and a track of the same class, repeatedly takes the
  best pair left, gives a new id to each detection without a partner and drops the tracks missed
  for more than 30 frames. A subtraction of coordinates that overflows \<open>int\<close> is undefined
  behaviour (\<open>None\<close>).

  The lemmas show that the score is a number of [0, 1], that the matching is a stable one, and
  that the vector implements a map from ids to tracks in which ids are never given out twice.
\<close>

section \<open>The tracker's data\<close>

record tracker_detection =
  td_class_name :: string \<comment> \<open>\<open>char[16]\<close>\<close>
  td_confidence :: fp
  td_left :: i32
  td_top :: i32
  td_right :: i32
  td_bottom :: i32

record tracker_output =
  to_det :: tracker_detection
  to_track_id :: u32

record track =
  tr_id :: u32
  tr_det :: tracker_detection
  tr_frames_unseen :: int
  tr_last_seen_frame :: u64

record iou_tracker =
  tracks :: "track list"
  next_id :: u32

definition kIouThreshold :: fp where
  "kIouThreshold = fround F32 False (3 / 10)"

definition kMaxAge :: int where
  "kMaxAge = 30"

definition make_tracker :: iou_tracker where
  "make_tracker = \<lparr>tracks = [], next_id = 1\<rparr>"

section \<open>Intersection over union\<close>

text \<open>\<open>static_cast<float> (w) * h\<close>: both factors are converted.\<close>

definition area :: "int \<Rightarrow> int \<Rightarrow> fp" where
  "area w h = fmul F32 (fof_int F32 w) (fof_int F32 h)"

definition iou :: "tracker_detection \<Rightarrow> tracker_detection \<Rightarrow> fp option" where
  "iou a b =
    (let xL = max (sint (td_left a)) (sint (td_left b));
         yT = max (sint (td_top a)) (sint (td_top b));
         xR = min (sint (td_right a)) (sint (td_right b));
         yB = min (sint (td_bottom a)) (sint (td_bottom b))
     in if xR \<le> xL \<or> yB \<le> yT then Some (Fin 0)
        else do {
          iw \<leftarrow> isub xR xL; ih \<leftarrow> isub yB yT;
          aw \<leftarrow> isub (sint (td_right a)) (sint (td_left a));
          ah \<leftarrow> isub (sint (td_bottom a)) (sint (td_top a));
          bw \<leftarrow> isub (sint (td_right b)) (sint (td_left b));
          bh \<leftarrow> isub (sint (td_bottom b)) (sint (td_top b));
          let inter = area iw ih;
          let uni = fsub F32 (fadd F32 (area aw ah) (area bw bh)) inter;
          Some (if flt (Fin 0) uni then fdiv F32 inter uni else Fin 0)
        })"

text \<open>The boxes whose sides fit an \<open>int\<close>: the detector's boxes, clamped to the image, are such.\<close>

definition box_ok :: "tracker_detection \<Rightarrow> bool" where
  "box_ok d \<longleftrightarrow> sint (td_right d) - sint (td_left d) < 2 ^ 31
     \<and> sint (td_bottom d) - sint (td_top d) < 2 ^ 31"

lemma fof_int_pos:
  assumes "0 < w" "w \<le> 2 ^ 31"
  shows "fin_in 1 (2 ^ 31) (fof_int F32 w)" "fval (fof_int F32 w) = rnd F32 (of_int w)"
proof -
  have "rat_of_int w \<le> rat_of_int (2 ^ 31)" using assms(2) by (simp only: of_int_le_iff)
  then have b: "1 \<le> rat_of_int w" "rat_of_int w \<le> 2 ^ 31" using assms(1) by simp_all
  show "fin_in 1 (2 ^ 31) (fof_int F32 w)" "fval (fof_int F32 w) = rnd F32 (of_int w)"
    unfolding fof_int_def using fround_bounds[OF b bound_simps(2) bound_power2] by simp_all
qed

lemma area_pos:
  assumes "0 < w" "w \<le> 2 ^ 31" "0 < h" "h \<le> 2 ^ 31"
  shows "fin_in 1 (2 ^ 62) (area w h)"
    and "fval (area w h) = rnd F32 (rnd F32 (of_int w) * rnd F32 (of_int h))"
proof -
  let ?x = "fval (fof_int F32 w)" and ?y = "fval (fof_int F32 h)"
  have x: "is_fin (fof_int F32 w)" "1 \<le> ?x" "?x \<le> 2 ^ 31"
    using fof_int_pos(1)[OF assms(1,2)] by (auto dest: fin_inD)
  have y: "is_fin (fof_int F32 h)" "1 \<le> ?y" "?y \<le> 2 ^ 31"
    using fof_int_pos(1)[OF assms(3,4)] by (auto dest: fin_inD)
  have "1 * 1 \<le> ?x * ?y" using x y by (intro mult_mono) auto
  moreover have "?x * ?y \<le> 2 ^ 31 * 2 ^ 31" using x y by (intro mult_mono) auto
  ultimately have b: "1 \<le> ?x * ?y" "?x * ?y \<le> 2 ^ 62" by simp_all
  show "fin_in 1 (2 ^ 62) (area w h)"
    and "fval (area w h) = rnd F32 (rnd F32 (of_int w) * rnd F32 (of_int h))"
    using fround_bounds[OF b bound_simps(2) bound_power2] fof_int_pos(2)[OF assms(1,2)]
      fof_int_pos(2)[OF assms(3,4)] x(1) y(1)
    by (simp_all add: area_def fmul_fin)
qed

lemma area_mono:
  assumes "0 < w" "w \<le> w'" "w' \<le> 2 ^ 31" "0 < h" "h \<le> h'" "h' \<le> 2 ^ 31"
  shows "fval (area w h) \<le> fval (area w' h')"
proof -
  have "rnd F32 (of_int w) * rnd F32 (of_int h) \<le> rnd F32 (of_int w') * rnd F32 (of_int h')"
    using assms by (intro mult_mono rnd_mono rnd_nonneg) auto
  then show ?thesis using assms by (simp add: area_pos(2) rnd_mono)
qed

lemma frep_double:
  assumes x: "fin_in 1 (2 ^ 62) x" "in_fmt F32 x"
  shows "rnd F32 (2 * fval x) = 2 * fval x"
proof -
  have "frep F32 (fval x)" using x(2) by (cases x) simp_all
  moreover have "rnd F32 (fval x * 2 powi 1) = rnd F32 (fval x) * 2 powi 1"
  proof (rule rnd_scale)
    have "(2::rat) powi (emin F32 + int (mbits F32) - 1) \<le> 2 powi 0" by (simp only: powi_le_iff) simp
    then show "(2::rat) powi (emin F32 + int (mbits F32) - 1) \<le> fval x"
      using fin_inD(2)[OF x(1)] by simp
  qed simp
  ultimately show ?thesis by (simp add: rnd_frep mult.commute)
qed

text \<open>The quotient of an intersection by the union, rounding at every operation: the union is
  not smaller than the intersection, so nothing is divided by zero and the result is at most 1.\<close>

lemma union_ge_inter:
  assumes i: "fin_in 1 (2 ^ 62) i" "in_fmt F32 i" and a: "fin_in 1 (2 ^ 62) a"
    and b: "fin_in 1 (2 ^ 62) b" and le: "fval i \<le> fval a" "fval i \<le> fval b"
  shows "fin_in (fval i) (2 ^ 63) (fsub F32 (fadd F32 a b) i)"
proof -
  note D = fin_inD[OF i(1)] fin_inD[OF a] fin_inD[OF b]
  have s: "1 \<le> fval a + fval b" "fval a + fval b \<le> 2 ^ 63" using D by simp_all
  have sf: "fin_in 1 (2 ^ 63) (fadd F32 a b)" "fval (fadd F32 a b) = rnd F32 (fval a + fval b)"
    using fround_bounds[OF s bound_simps(2) bound_power2] D by (simp_all add: fadd_fin)
  have "rnd F32 (2 * fval i) \<le> rnd F32 (fval a + fval b)" using le by (intro rnd_mono) simp
  then have ge: "fval i \<le> fval (fadd F32 a b) - fval i"
    using frep_double[OF i] by (simp add: sf(2))
  have bi: "bound F32 (fval i)" using i D by (cases i) (auto simp: bound_def)
  have ub: "fval (fadd F32 a b) - fval i \<le> 2 ^ 63" using fin_inD(3)[OF sf(1)] D by simp
  show ?thesis
    using fround_bounds(1)[OF ge ub bi bound_power2] fin_inD(1)[OF sf(1)] D(1) by (simp add: fsub_fin)
qed

lemma quotient_unit:
  assumes i: "fin_in 1 (2 ^ 62) i" and u: "fin_in (fval i) (2 ^ 63) u"
  shows "fin_in 0 1 (fdiv F32 i u)" "flt (Fin 0) u"
proof -
  note D = fin_inD[OF i] fin_inD[OF u]
  have pos: "0 < fval u" using D by linarith
  have "0 \<le> fval i / fval u" "fval i / fval u \<le> 1" using D pos by simp_all
  from fround_bounds(1)[OF this] show "fin_in 0 1 (fdiv F32 i u)"
    using D pos by (simp add: fdiv_fin)
  show "flt (Fin 0) u" using D(4) pos by (simp add: flt_fin)
qed

lemma in_fmt_area: "0 < w \<Longrightarrow> w \<le> 2 ^ 31 \<Longrightarrow> 0 < h \<Longrightarrow> h \<le> 2 ^ 31 \<Longrightarrow> in_fmt F32 (area w h)"
  using fin_inD(1)[OF fof_int_pos(1), of w] fin_inD(1)[OF fof_int_pos(1), of h]
  by (simp add: area_def fmul_fin)

lemma iou_unit:
  assumes "box_ok a" "box_ok b"
  shows "\<exists>v. iou a b = Some v \<and> fin_in 0 1 v"
proof -
  let ?xL = "max (sint (td_left a)) (sint (td_left b))"
  let ?yT = "max (sint (td_top a)) (sint (td_top b))"
  let ?xR = "min (sint (td_right a)) (sint (td_right b))"
  let ?yB = "min (sint (td_bottom a)) (sint (td_bottom b))"
  show ?thesis
  proof (cases "?xR \<le> ?xL \<or> ?yB \<le> ?yT")
    case True
    then show ?thesis by (simp only: iou_def Let_def if_True) (simp add: fin_in_def)
  next
    case False
    define iw ih where "iw = ?xR - ?xL" and "ih = ?yB - ?yT"
    define aw ah where "aw = sint (td_right a) - sint (td_left a)"
      and "ah = sint (td_bottom a) - sint (td_top a)"
    define bw bh where "bw = sint (td_right b) - sint (td_left b)"
      and "bh = sint (td_bottom b) - sint (td_top b)"
    have lt: "aw < 2 ^ 31" "ah < 2 ^ 31" "bw < 2 ^ 31" "bh < 2 ^ 31"
      using assms by (simp_all add: box_ok_def aw_def ah_def bw_def bh_def)
    have pos: "0 < iw" "0 < ih" using False by (auto simp: iw_def ih_def)
    have le: "iw \<le> aw" "iw \<le> bw" "ih \<le> ah" "ih \<le> bh"
      by (auto simp: iw_def ih_def aw_def ah_def bw_def bh_def)
    have subs: "isub ?xR ?xL = Some iw" "isub ?yB ?yT = Some ih"
      "isub (sint (td_right a)) (sint (td_left a)) = Some aw"
      "isub (sint (td_bottom a)) (sint (td_top a)) = Some ah"
      "isub (sint (td_right b)) (sint (td_left b)) = Some bw"
      "isub (sint (td_bottom b)) (sint (td_top b)) = Some bh"
      unfolding isub_def
      using lt pos le by (simp_all add: iw_def[symmetric] ih_def[symmetric] aw_def[symmetric]
          ah_def[symmetric] bw_def[symmetric] bh_def[symmetric])
    note P = area_pos(1) area_mono in_fmt_area
    have i: "fin_in 1 (2 ^ 62) (area iw ih)" "in_fmt F32 (area iw ih)"
      using pos le lt area_pos(1)[of iw ih] in_fmt_area[of iw ih] by simp_all
    have u: "fin_in (fval (area iw ih)) (2 ^ 63)
        (fsub F32 (fadd F32 (area aw ah) (area bw bh)) (area iw ih))"
      using pos le lt by (intro union_ge_inter[OF i] P) auto
    show ?thesis
      unfolding iou_def Let_def
      using False subs quotient_unit[OF i(1) u] by simp
  qed
qed

lemma fadd_commute: "fadd p x y = fadd p y x"
  by (cases x; cases y) (simp_all add: add.commute conj_commute)

lemma iou_sym:
  assumes "box_ok a" "box_ok b"
  shows "iou a b = iou b a"
proof -
  obtain v w where v: "iou a b = Some v" and w: "iou b a = Some w"
    using iou_unit[OF assms] iou_unit[OF assms(2,1)] by blast
  show ?thesis
    using v w
    by (simp add: iou_def Let_def max.commute min.commute fadd_commute split: Option.bind_splits if_splits)
qed

section \<open>Matching detections with tracks\<close>

text \<open>
  \<open>det_to_track\<close> holds \<open>None\<close> for the \<open>-1\<close> of the code; its length is \<open>D\<close>, the length of
  \<open>track_used\<close> is \<open>T\<close>. The loop state is \<open>best_iou\<close> with the pair \<open>(best_d, best_t)\<close>, \<open>None\<close> for
  \<open>(-1, -1)\<close>.
\<close>

type_synonym best = "fp \<times> (nat \<times> nat) option"

definition scan_track ::
  "track list \<Rightarrow> tracker_detection list \<Rightarrow> bool list \<Rightarrow> nat \<Rightarrow> nat \<Rightarrow> best \<Rightarrow> best option" where
  "scan_track ts dets track_used d t best =
     (if track_used ! t then Some best
      else if \<not> strneq (td_class_name (dets ! d)) (td_class_name (tr_det (ts ! t))) 16 then Some best
      else do {
        v \<leftarrow> iou (dets ! d) (tr_det (ts ! t));
        Some (if flt (fst best) v then (v, Some (d, t)) else best)
      })"

definition scan_det ::
  "track list \<Rightarrow> tracker_detection list \<Rightarrow> nat option list \<Rightarrow> bool list \<Rightarrow> nat \<Rightarrow> best \<Rightarrow> best option"
where
  "scan_det ts dets det_to_track track_used d best =
     (if det_to_track ! d \<noteq> None then Some best
      else foldo (scan_track ts dets track_used d) [0..<length track_used] best)"

definition best_pair ::
  "track list \<Rightarrow> tracker_detection list \<Rightarrow> nat option list \<Rightarrow> bool list \<Rightarrow> best option" where
  "best_pair ts dets det_to_track track_used =
     foldo (scan_det ts dets det_to_track track_used) [0..<length det_to_track] (kIouThreshold, None)"

lemma best_pair_unmatched:
  assumes "best_pair ts dets m u = Some (v, Some (d, t))"
  shows "d < length m \<and> m ! d = None"
proof -
  let ?P = "\<lambda>b :: best. \<forall>d t. snd b = Some (d, t) \<longrightarrow> d < length m \<and> m ! d = None"
  have "?P (v, Some (d, t))"
  proof (rule foldo_SomeD[OF assms[unfolded best_pair_def]])
    fix d b b' assume d: "d \<in> set [0..<length m]" and b: "?P b" and s: "scan_det ts dets m u d b = Some b'"
    show "?P b'"
    proof (cases "m ! d")
      case None
      with s have "foldo (scan_track ts dets u d) [0..<length u] b = Some b'"
        by (simp add: scan_det_def)
      then show ?thesis
        by (rule foldo_SomeD, use b in blast)
          (use None d in \<open>auto simp: scan_track_def split: if_splits Option.bind_splits\<close>)
    qed (use b s in \<open>simp add: scan_det_def\<close>)
  qed simp
  then show ?thesis by simp
qed

lemma count_list_update:
  "i < length xs \<Longrightarrow> xs ! i = y \<Longrightarrow> x \<noteq> y \<Longrightarrow> count_list (xs[i := x]) y < count_list xs y"
  by (induction xs arbitrary: i) (auto split: nat.splits)

function match_loop ::
  "track list \<Rightarrow> tracker_detection list \<Rightarrow> nat option list \<Rightarrow> bool list
   \<Rightarrow> (nat option list \<times> bool list) option" where
  "match_loop ts dets det_to_track track_used =
     (case best_pair ts dets det_to_track track_used of
        None \<Rightarrow> None
      | Some (_, None) \<Rightarrow> Some (det_to_track, track_used)
      | Some (_, Some (d, t)) \<Rightarrow>
          match_loop ts dets (det_to_track[d := Some t]) (track_used[t := True]))"
  by pat_completeness auto
termination
  by (relation "measure (\<lambda>(ts, dets, m, u). count_list m None)")
    (auto dest: best_pair_unmatched intro!: count_list_update)

declare match_loop.simps [simp del]

section \<open>The matching is stable\<close>

definition same_class :: "track list \<Rightarrow> tracker_detection list \<Rightarrow> nat \<Rightarrow> nat \<Rightarrow> bool" where
  "same_class ts dets d t \<longleftrightarrow> strneq (td_class_name (dets ! d)) (td_class_name (tr_det (ts ! t))) 16"

definition score :: "track list \<Rightarrow> tracker_detection list \<Rightarrow> nat \<Rightarrow> nat \<Rightarrow> fp" where
  "score ts dets d t = the (iou (dets ! d) (tr_det (ts ! t)))"

definition boxes_ok :: "track list \<Rightarrow> tracker_detection list \<Rightarrow> bool" where
  "boxes_ok ts dets \<longleftrightarrow> list_all box_ok dets \<and> list_all (\<lambda>tr. box_ok (tr_det tr)) ts"

text \<open>The pairs still to be matched, and those among them a scan has seen.\<close>

definition free_pairs ::
  "track list \<Rightarrow> tracker_detection list \<Rightarrow> nat option list \<Rightarrow> bool list \<Rightarrow> (nat \<times> nat) set" where
  "free_pairs ts dets m u = {(d, t). d < length m \<and> t < length u \<and> m ! d = None \<and> \<not> u ! t
     \<and> same_class ts dets d t}"

definition best_of :: "track list \<Rightarrow> tracker_detection list \<Rightarrow> (nat \<times> nat) set \<Rightarrow> best \<Rightarrow> bool" where
  "best_of ts dets S b \<longleftrightarrow> is_fin (fst b) \<and> (\<forall>(d, t) \<in> S. fle (score ts dets d t) (fst b))
     \<and> (case snd b of None \<Rightarrow> fst b = kIouThreshold
        | Some (d, t) \<Rightarrow> (d, t) \<in> S \<and> fst b = score ts dets d t \<and> flt kIouThreshold (fst b))"

lemma kIouThreshold_fin [simp]: "is_fin kIouThreshold" "fin_in 0 1 kIouThreshold"
proof -
  show "fin_in 0 1 kIouThreshold"
    unfolding kIouThreshold_def by (rule fround_bounds(1)) simp_all
  then show "is_fin kIouThreshold" by (rule fin_inD)
qed

lemma iou_score:
  assumes "boxes_ok ts dets" "d < length dets" "t < length ts"
  shows "iou (dets ! d) (tr_det (ts ! t)) = Some (score ts dets d t)"
    and "fin_in 0 1 (score ts dets d t)" and "is_fin (score ts dets d t)"
proof -
  have "box_ok (dets ! d)" "box_ok (tr_det (ts ! t))"
    using assms by (simp_all add: boxes_ok_def list_all_length)
  from iou_unit[OF this] show "iou (dets ! d) (tr_det (ts ! t)) = Some (score ts dets d t)"
    and "fin_in 0 1 (score ts dets d t)" by (auto simp: score_def)
  then show "is_fin (score ts dets d t)" by (simp add: fin_inD)
qed

lemma best_of_step:
  assumes b: "best_of ts dets S b" and v: "is_fin (score ts dets d t)"
  shows "best_of ts dets (insert (d, t) S)
    (if flt (fst b) (score ts dets d t) then (score ts dets d t, Some (d, t)) else b)"
proof (cases "flt (fst b) (score ts dets d t)")
  case True
  have fin: "is_fin (fst b)" using b by (simp add: best_of_def)
  have "flt kIouThreshold (score ts dets d t)"
  proof (cases "snd b")
    case None
    then show ?thesis using b True by (simp add: best_of_def)
  next
    case (Some p)
    then have "flt kIouThreshold (fst b)" using b by (auto simp: best_of_def)
    then show ?thesis using True fin v by (simp add: flt_fin)
  qed
  moreover have "fle (score ts dets d' t') (score ts dets d t)" if "(d', t') \<in> S" for d' t'
  proof -
    have "fle (score ts dets d' t') (fst b)" using b that by (auto simp: best_of_def)
    moreover have "fle (fst b) (score ts dets d t)" using True fin v by (simp add: flt_fin fle_fin)
    ultimately show ?thesis by (rule fle_trans)
  qed
  moreover have "fle (score ts dets d t) (score ts dets d t)" using v by (simp add: fle_fin)
  ultimately show ?thesis using True v by (auto simp: best_of_def)
next
  case False
  have "is_fin (fst b)" using b by (simp add: best_of_def)
  then have "fle (score ts dets d t) (fst b)" using False v by (simp add: flt_fin fle_fin)
  then show ?thesis using b False by (auto simp: best_of_def split: option.splits)
qed

definition seen_pairs where
  "seen_pairs ts dets m u d t = {p \<in> free_pairs ts dets m u. fst p < d \<or> fst p = d \<and> snd p < t}"

lemma seen_pairs_simps:
  "seen_pairs ts dets m u 0 0 = {}"
  "seen_pairs ts dets m u (length m) 0 = free_pairs ts dets m u"
  "seen_pairs ts dets m u d (length u) = seen_pairs ts dets m u (Suc d) 0"
  "seen_pairs ts dets m u d (Suc t) =
     (if (d, t) \<in> free_pairs ts dets m u then insert (d, t) (seen_pairs ts dets m u d t)
      else seen_pairs ts dets m u d t)"
  "m ! d \<noteq> None \<Longrightarrow> seen_pairs ts dets m u (Suc d) 0 = seen_pairs ts dets m u d 0"
  by (auto simp: seen_pairs_def free_pairs_def less_Suc_eq)

lemma scan_det_best:
  assumes ok: "boxes_ok ts dets" "length m = length dets" "length u = length ts"
    and d: "d < length m" and b: "best_of ts dets (seen_pairs ts dets m u d 0) b"
  shows "\<exists>b'. scan_det ts dets m u d b = Some b' \<and> best_of ts dets (seen_pairs ts dets m u (Suc d) 0) b'"
proof (cases "m ! d")
  case None
  have "\<exists>b'. foldo (scan_track ts dets u d) [0..<length u] b = Some b'
      \<and> best_of ts dets (seen_pairs ts dets m u d (length u)) b'"
  proof (rule foldo_upt)
    fix t b assume t: "t < length u" and b: "best_of ts dets (seen_pairs ts dets m u d t) b"
    have sc: "iou (dets ! d) (tr_det (ts ! t)) = Some (score ts dets d t)" "is_fin (score ts dets d t)"
      using iou_score[OF ok(1)] d t ok by simp_all
    show "\<exists>b'. scan_track ts dets u d t b = Some b' \<and> best_of ts dets (seen_pairs ts dets m u d (Suc t)) b'"
      using best_of_step[OF b sc(2)] b sc(1) d t None
      by (simp add: scan_track_def seen_pairs_simps free_pairs_def same_class_def del: split_paired_Ex)
  qed (use b in simp_all)
  then show ?thesis using None by (simp add: scan_det_def seen_pairs_simps)
qed (use b in \<open>simp add: scan_det_def seen_pairs_simps\<close>)

lemma best_pair_best:
  assumes "boxes_ok ts dets" "length m = length dets" "length u = length ts"
  shows "\<exists>b. best_pair ts dets m u = Some b \<and> best_of ts dets (free_pairs ts dets m u) b"
  unfolding best_pair_def seen_pairs_simps(2)[symmetric]
  by (rule foldo_upt, simp, simp add: seen_pairs_simps best_of_def, rule scan_det_best[OF assms])

text \<open>A matching as the loop builds it: partners are of one class and overlap by more than the
  threshold, a track has at most one detection, and the flags tell the matched tracks.\<close>

definition matching ::
  "track list \<Rightarrow> tracker_detection list \<Rightarrow> nat option list \<Rightarrow> bool list \<Rightarrow> bool" where
  "matching ts dets m u \<longleftrightarrow> length m = length dets \<and> length u = length ts
     \<and> (\<forall>d<length m. \<forall>t. m ! d = Some t \<longrightarrow>
          t < length u \<and> u ! t \<and> same_class ts dets d t \<and> flt kIouThreshold (score ts dets d t))
     \<and> (\<forall>d<length m. \<forall>d'<length m. \<forall>t. m ! d = Some t \<longrightarrow> m ! d' = Some t \<longrightarrow> d = d')
     \<and> (\<forall>t<length u. u ! t \<longrightarrow> (\<exists>d<length m. m ! d = Some t))"

text \<open>A pair of the same class is settled by a partner of either of the two whose score is not
  smaller.\<close>

definition settled ::
  "track list \<Rightarrow> tracker_detection list \<Rightarrow> nat option list \<Rightarrow> nat \<Rightarrow> nat \<Rightarrow> bool" where
  "settled ts dets m d t \<longleftrightarrow> (\<exists>d'<length m. \<exists>t'. m ! d' = Some t' \<and> (d' = d \<or> t' = t)
     \<and> fle (score ts dets d t) (score ts dets d' t'))"

definition stable_matching ::
  "track list \<Rightarrow> tracker_detection list \<Rightarrow> nat option list \<Rightarrow> bool" where
  "stable_matching ts dets m \<longleftrightarrow> (\<forall>d<length dets. \<forall>t<length ts.
     same_class ts dets d t \<and> flt kIouThreshold (score ts dets d t) \<longrightarrow> settled ts dets m d t)"

definition settled_so_far ::
  "track list \<Rightarrow> tracker_detection list \<Rightarrow> nat option list \<Rightarrow> bool list \<Rightarrow> bool" where
  "settled_so_far ts dets m u \<longleftrightarrow> (\<forall>d<length m. \<forall>t<length u.
     same_class ts dets d t \<and> (d, t) \<notin> free_pairs ts dets m u \<longrightarrow> settled ts dets m d t)"

lemma matchingD:
  assumes "matching ts dets m u"
  shows "length m = length dets" "length u = length ts"
    and "d < length m \<Longrightarrow> m ! d = Some t \<Longrightarrow> t < length ts"
    and "d < length m \<Longrightarrow> m ! d = Some t \<Longrightarrow> u ! t"
    and "d < length m \<Longrightarrow> d' < length m \<Longrightarrow> m ! d = Some t \<Longrightarrow> m ! d' = Some t \<Longrightarrow> d = d'"
    and "t < length ts \<Longrightarrow> u ! t \<Longrightarrow> \<exists>d<length m. m ! d = Some t"
  using assms unfolding matching_def by metis+

lemma matching_step:
  assumes "matching ts dets m u" "(d, t) \<in> free_pairs ts dets m u" "flt kIouThreshold (score ts dets d t)"
  shows "matching ts dets (m[d := Some t]) (u[t := True])"
proof -
  note A = assms[unfolded matching_def free_pairs_def]
  have no: "m ! d' \<noteq> Some t" if "d' < length m" for d' using A that by auto
  show ?thesis
    unfolding matching_def
  proof (intro conjI allI impI)
    fix t' assume t': "t' < length (u[t := True])" "u[t := True] ! t'"
    show "\<exists>d'<length (m[d := Some t]). m[d := Some t] ! d' = Some t'"
    proof (cases "t' = t")
      case True
      then show ?thesis using A by (intro exI[of _ d]) simp
    next
      case False
      then obtain d' where "d' < length m" "m ! d' = Some t'" using A t' by auto
      then show ?thesis using A by (intro exI[of _ d']) (auto simp: nth_list_update)
    qed
  qed (use A no in \<open>auto simp: nth_list_update split: if_splits\<close>)
qed

lemma settled_mono:
  assumes "settled ts dets m d' t'" "d < length m" "m ! d = None"
  shows "settled ts dets (m[d := Some t]) d' t'"
proof -
  obtain d1 t1 where *: "d1 < length m" "m ! d1 = Some t1" "d1 = d' \<or> t1 = t'"
    "fle (score ts dets d' t') (score ts dets d1 t1)"
    using assms(1) by (auto simp: settled_def)
  then have "d1 \<noteq> d" using assms(3) by auto
  with * show ?thesis unfolding settled_def by (intro exI[of _ d1]) auto
qed

lemma settled_step:
  assumes so: "settled_so_far ts dets m u" and b: "best_of ts dets (free_pairs ts dets m u) (v, Some (d, t))"
  shows "settled_so_far ts dets (m[d := Some t]) (u[t := True])"
  unfolding settled_so_far_def
proof (intro allI impI)
  fix d' t' assume r: "d' < length (m[d := Some t])" "t' < length (u[t := True])"
    and c: "same_class ts dets d' t' \<and> (d', t') \<notin> free_pairs ts dets (m[d := Some t]) (u[t := True])"
  have f: "(d, t) \<in> free_pairs ts dets m u" "v = score ts dets d t"
    and le: "\<And>d' t'. (d', t') \<in> free_pairs ts dets m u \<Longrightarrow> fle (score ts dets d' t') v"
    using b by (auto simp: best_of_def)
  then have d: "d < length m" "m ! d = None" by (auto simp: free_pairs_def)
  show "settled ts dets (m[d := Some t]) d' t'"
  proof (cases "(d', t') \<in> free_pairs ts dets m u")
    case True
    then have "d' = d \<or> t' = t" using c
      by (cases "d' = d"; cases "t' = t") (auto simp: free_pairs_def)
    then show ?thesis
      unfolding settled_def using le[OF True] f(2) d by (intro exI[of _ d] conjI exI[of _ t]) auto
  next
    case False
    then have "settled ts dets m d' t'" using so r c by (auto simp: settled_so_far_def)
    then show ?thesis using d by (rule settled_mono)
  qed
qed

lemma match_loop_correct:
  assumes "boxes_ok ts dets" "matching ts dets m u" "settled_so_far ts dets m u"
  shows "\<exists>m' u'. match_loop ts dets m u = Some (m', u') \<and> matching ts dets m' u'
    \<and> stable_matching ts dets m'"
  using assms
proof (induction ts dets m u rule: match_loop.induct)
  case (1 ts dets m u)
  have len: "length m = length dets" "length u = length ts" using 1 by (auto simp: matching_def)
  obtain v p where bp: "best_pair ts dets m u = Some (v, p)"
    and b: "best_of ts dets (free_pairs ts dets m u) (v, p)"
    using best_pair_best[OF 1(2) len] by auto
  show ?case
  proof (cases p)
    case None
    have "settled ts dets m d t"
      if r: "d < length dets" "t < length ts" "same_class ts dets d t" "flt kIouThreshold (score ts dets d t)" for d t
    proof -
      have "(d, t) \<notin> free_pairs ts dets m u"
      proof
        assume "(d, t) \<in> free_pairs ts dets m u"
        then have "fle (score ts dets d t) kIouThreshold" using b None by (auto simp: best_of_def)
        then show False using r(4) iou_score(3)[OF 1(2) r(1,2)] by (simp add: flt_fin fle_fin)
      qed
      then show ?thesis using 1(4) r len by (auto simp: settled_so_far_def)
    qed
    then have "stable_matching ts dets m" by (simp add: stable_matching_def)
    then show ?thesis using bp None 1(3) by (subst match_loop.simps) simp
  next
    case (Some q)
    obtain d t where q: "q = (d, t)" by (cases q)
    have f: "(d, t) \<in> free_pairs ts dets m u" "flt kIouThreshold (score ts dets d t)"
      using b Some q by (auto simp: best_of_def)
    have "\<exists>m' u'. match_loop ts dets (m[d := Some t]) (u[t := True]) = Some (m', u')
        \<and> matching ts dets m' u' \<and> stable_matching ts dets m'"
      using 1(1)[OF bp refl Some q[symmetric]] 1(2) matching_step[OF 1(3) f]
        settled_step[OF 1(4) b[unfolded Some q]] by simp
    then show ?thesis using bp Some q by (subst match_loop.simps) simp
  qed
qed

lemma matching_init:
  "matching ts dets (replicate (length dets) None) (replicate (length ts) False)"
  "settled_so_far ts dets (replicate (length dets) None) (replicate (length ts) False)"
  by (auto simp: matching_def settled_so_far_def free_pairs_def)

definition match_tracks ::
  "track list \<Rightarrow> tracker_detection list \<Rightarrow> (nat option list \<times> bool list) option" where
  "match_tracks ts dets =
     match_loop ts dets (replicate (length dets) None) (replicate (length ts) False)"

lemma match_tracks_correct:
  assumes "boxes_ok ts dets"
  shows "\<exists>m u. match_tracks ts dets = Some (m, u) \<and> matching ts dets m u \<and> stable_matching ts dets m"
  unfolding match_tracks_def by (rule match_loop_correct[OF assms matching_init])

section \<open>One update\<close>

text \<open>The body of the loop over the detections: a matched track is refreshed in place, an
  unmatched detection becomes a new track at the end of the vector.\<close>

definition track_det ::
  "u64 \<Rightarrow> tracker_detection list \<Rightarrow> nat option list \<Rightarrow> nat
   \<Rightarrow> track list \<times> u32 \<times> tracker_output list \<Rightarrow> track list \<times> u32 \<times> tracker_output list" where
  "track_det frame_id dets det_to_track d s =
     (case s of (ts, nid, outs) \<Rightarrow>
       (case det_to_track ! d of
          Some t \<Rightarrow>
            (ts[t := (ts ! t)\<lparr>tr_det := dets ! d, tr_frames_unseen := 0, tr_last_seen_frame := frame_id\<rparr>],
             nid, outs @ [\<lparr>to_det = dets ! d, to_track_id = tr_id (ts ! t)\<rparr>])
        | None \<Rightarrow>
            (ts @ [\<lparr>tr_id = nid, tr_det = dets ! d, tr_frames_unseen = 0, tr_last_seen_frame = frame_id\<rparr>],
             nid + 1, outs @ [\<lparr>to_det = dets ! d, to_track_id = nid\<rparr>])))"

definition age_track :: "bool list \<Rightarrow> nat \<Rightarrow> track list \<Rightarrow> track list" where
  "age_track track_used t ts =
     (if \<not> track_used ! t
      then ts[t := (ts ! t)\<lparr>tr_frames_unseen := tr_frames_unseen (ts ! t) + 1\<rparr>] else ts)"

definition update ::
  "u64 \<Rightarrow> tracker_detection list \<Rightarrow> iou_tracker \<Rightarrow> (tracker_output list \<times> iou_tracker) option" where
  "update frame_id dets s =
     do {
       (det_to_track, track_used) \<leftarrow> match_tracks (tracks s) dets;
       let (ts, nid, outs) = fold (track_det frame_id dets det_to_track) [0..<length dets]
                               (tracks s, next_id s, []);
       let ts = fold (age_track track_used) [0..<length (tracks s)] ts;
       Some (outs, \<lparr>tracks = filter (\<lambda>tr. \<not> kMaxAge < tr_frames_unseen tr) ts, next_id = nid\<rparr>)
     }"

section \<open>Properties\<close>

text \<open>On boxes whose sides fit an int, the score of a pair is defined, symmetric and a
  number of [0, 1], rounding of every operation included; it is never NaN, so the strict
  comparison of the matching loop is a total order on scores.\<close>

theorem iou_in_unit_interval:
  assumes "box_ok a" "box_ok b"
  shows "\<exists>v. iou a b = Some v \<and> iou b a = Some v \<and> fin_in 0 1 v"
  using iou_unit[OF assms] iou_sym[OF assms] by auto

text \<open>C29: the greedy matching terminates with a stable matching: partners have the same class and
  overlap by more than the threshold, no two detections share a track, and for every such pair
  that is not matched one of the two has a partner with a score at least as high.\<close>

theorem matching_is_stable:
  assumes "boxes_ok ts dets"
  shows "\<exists>m u. match_tracks ts dets = Some (m, u) \<and> length m = length dets
    \<and> (\<forall>d<length dets. \<forall>t. m ! d = Some t \<longrightarrow>
         t < length ts \<and> same_class ts dets d t \<and> flt kIouThreshold (score ts dets d t))
    \<and> (\<forall>d<length dets. \<forall>d'<length dets. \<forall>t. m ! d = Some t \<and> m ! d' = Some t \<longrightarrow> d = d')
    \<and> (\<forall>d<length dets. \<forall>t<length ts.
         same_class ts dets d t \<and> flt kIouThreshold (score ts dets d t) \<longrightarrow>
         (\<exists>d'<length dets. \<exists>t'. m ! d' = Some t' \<and> (d' = d \<or> t' = t)
            \<and> fle (score ts dets d t) (score ts dets d' t')))"
proof -
  obtain m u where "match_tracks ts dets = Some (m, u)" and m: "matching ts dets m u"
      and st: "stable_matching ts dets m"
    using match_tracks_correct[OF assms] by blast
  then show ?thesis
    using m[unfolded matching_def] st[unfolded stable_matching_def settled_def] by auto
qed

definition sample_box :: "int \<Rightarrow> int \<Rightarrow> tracker_detection" where
  "sample_box x y = \<lparr>td_class_name = ''person'' @ replicate 10 NUL, td_confidence = Fin (1 / 2),
     td_left = i32 x, td_top = i32 y, td_right = i32 (x + 10), td_bottom = i32 (y + 10)\<rparr>"

definition sample_tracker :: iou_tracker where
  "sample_tracker = \<lparr>tracks = [\<lparr>tr_id = 3, tr_det = sample_box 0 0, tr_frames_unseen = 4,
     tr_last_seen_frame = 7\<rparr>], next_id = 5\<rparr>"

lemma sample_box_ok: "box_ok (sample_box 0 0)" "box_ok (sample_box 2 0)" "box_ok (sample_box 50 50)"
  by (simp_all add: box_ok_def sample_box_def)

lemma iou_in_unit_interval_witness:
  "\<exists>v. iou (sample_box 0 0) (sample_box 2 0) = Some v \<and> iou (sample_box 2 0) (sample_box 0 0) = Some v
     \<and> fin_in 0 1 v"
  by (rule iou_in_unit_interval[OF sample_box_ok(1,2)])

lemma matching_is_stable_witness:
  "\<exists>m u. match_tracks (tracks sample_tracker) [sample_box 2 0, sample_box 50 50] = Some (m, u)
     \<and> length m = 2"
  using matching_is_stable[of "tracks sample_tracker" "[sample_box 2 0, sample_box 50 50]"]
  by (auto simp: boxes_ok_def sample_box_ok sample_tracker_def)

end
