(* ===== verification/Tracker_Ids.thy ===== *)
theory Tracker_Ids
  imports Iou_Tracker
begin

text \<open>
  What one \<open>update\<close> of the tracker does to the vector of tracks, index by index; from it the map
  from ids to tracks the vector implements, and over a run of frames what an id means.
\<close>

section \<open>The two loops, index by index\<close>

definition nones :: "nat option list \<Rightarrow> nat \<Rightarrow> nat" where
  "nones m k = length (filter (\<lambda>x. x = None) (take k m))"

lemma nones_Suc: "k < length m \<Longrightarrow> nones m (Suc k) = nones m k + (if m ! k = None then 1 else 0)"
  by (simp add: nones_def take_Suc_conv_app_nth)

lemma nones_le: "nones m k \<le> length m"
  unfolding nones_def by (metis length_filter_le length_take min.cobounded1 order_trans)

lemma nones_mono: "i \<le> j \<Longrightarrow> nones m i \<le> nones m j"
proof -
  assume "i \<le> j"
  then have "take j m = take i m @ take (j - i) (drop i m)" by (metis le_add_diff_inverse take_add)
  then show ?thesis by (simp add: nones_def)
qed

lemma nones_less: "i < j \<Longrightarrow> j \<le> length m \<Longrightarrow> m ! i = None \<Longrightarrow> nones m i < nones m j"
  using nones_mono[of "Suc i" j m] nones_Suc[of i m] by simp

text \<open>What the tracks, the ids and the outputs are after k detections.\<close>

definition after_dets ::
  "track list \<Rightarrow> u32 \<Rightarrow> u64 \<Rightarrow> tracker_detection list \<Rightarrow> nat option list \<Rightarrow> nat
   \<Rightarrow> track list \<times> u32 \<times> tracker_output list \<Rightarrow> bool" where
  "after_dets ts0 nid0 fid dets m k s \<longleftrightarrow> (case s of (ts, nid, outs) \<Rightarrow>
     nid = nid0 + of_nat (nones m k) \<and> length ts = length ts0 + nones m k \<and> length outs = k
     \<and> (\<forall>d<k. \<forall>t. m ! d = Some t \<longrightarrow>
          ts ! t = (ts0 ! t)\<lparr>tr_det := dets ! d, tr_frames_unseen := 0, tr_last_seen_frame := fid\<rparr>
          \<and> outs ! d = \<lparr>to_det = dets ! d, to_track_id = tr_id (ts0 ! t)\<rparr>)
     \<and> (\<forall>d<k. m ! d = None \<longrightarrow>
          ts ! (length ts0 + nones m d) = \<lparr>tr_id = nid0 + of_nat (nones m d), tr_det = dets ! d,
             tr_frames_unseen = 0, tr_last_seen_frame = fid\<rparr>
          \<and> outs ! d = \<lparr>to_det = dets ! d, to_track_id = nid0 + of_nat (nones m d)\<rparr>)
     \<and> (\<forall>t<length ts0. (\<forall>d<k. m ! d \<noteq> Some t) \<longrightarrow> ts ! t = ts0 ! t))"

lemma after_detsD:
  assumes "after_dets ts0 nid0 fid dets m k (ts, nid, outs)"
  shows "nid = nid0 + of_nat (nones m k)" "length ts = length ts0 + nones m k" "length outs = k"
    and "\<And>t. t < length ts0 \<Longrightarrow> \<forall>d<k. m ! d \<noteq> Some t \<Longrightarrow> ts ! t = ts0 ! t"
    and "\<And>d t. d < k \<Longrightarrow> m ! d = Some t \<Longrightarrow>
        ts ! t = (ts0 ! t)\<lparr>tr_det := dets ! d, tr_frames_unseen := 0, tr_last_seen_frame := fid\<rparr>
        \<and> outs ! d = \<lparr>to_det = dets ! d, to_track_id = tr_id (ts0 ! t)\<rparr>"
    and "\<And>d. d < k \<Longrightarrow> m ! d = None \<Longrightarrow>
        ts ! (length ts0 + nones m d) = \<lparr>tr_id = nid0 + of_nat (nones m d), tr_det = dets ! d,
             tr_frames_unseen = 0, tr_last_seen_frame = fid\<rparr>
          \<and> outs ! d = \<lparr>to_det = dets ! d, to_track_id = nid0 + of_nat (nones m d)\<rparr>"
  using assms by (simp_all add: after_dets_def)

text \<open>One more detection: a new track at the end, or a match.\<close>

lemma after_dets_new:
  assumes s: "after_dets ts0 nid0 fid dets m k (ts, nid, outs)" and k: "k < length m" "m ! k = None"
    and in0: "\<And>d t. d < k \<Longrightarrow> m ! d = Some t \<Longrightarrow> t < length ts0"
  shows "after_dets ts0 nid0 fid dets m (Suc k)
    (ts @ [\<lparr>tr_id = nid, tr_det = dets ! k, tr_frames_unseen = 0, tr_last_seen_frame = fid\<rparr>],
     nid + 1, outs @ [\<lparr>to_det = dets ! k, to_track_id = nid\<rparr>])"
  unfolding after_dets_def prod.case
proof (intro conjI allI impI)
  note A = after_detsD[OF s]
  let ?new = "\<lparr>tr_id = nid, tr_det = dets ! k, tr_frames_unseen = 0, tr_last_seen_frame = fid\<rparr>"
  let ?out = "\<lparr>to_det = dets ! k, to_track_id = nid\<rparr>"
  show "nid + 1 = nid0 + of_nat (nones m (Suc k))" "length (ts @ [?new]) = length ts0 + nones m (Suc k)"
    "length (outs @ [?out]) = Suc k" using A(1-3) k by (simp_all add: nones_Suc)
  fix d t assume d: "d < Suc k" "m ! d = Some t"
  then have "d < k" using k by (cases "d = k") auto
  then show "(ts @ [?new]) ! t = (ts0 ! t)\<lparr>tr_det := dets ! d, tr_frames_unseen := 0, tr_last_seen_frame := fid\<rparr>"
    "(outs @ [?out]) ! d = \<lparr>to_det = dets ! d, to_track_id = tr_id (ts0 ! t)\<rparr>"
    using A(5)[of d t] in0[of d t] d(2) A(2,3) by (simp_all add: nth_append)
next
  note A = after_detsD[OF s]
  fix d assume d: "d < Suc k" "m ! d = None"
  then show "(ts @ [\<lparr>tr_id = nid, tr_det = dets ! k, tr_frames_unseen = 0, tr_last_seen_frame = fid\<rparr>])
        ! (length ts0 + nones m d) = \<lparr>tr_id = nid0 + of_nat (nones m d), tr_det = dets ! d,
         tr_frames_unseen = 0, tr_last_seen_frame = fid\<rparr>"
    "(outs @ [\<lparr>to_det = dets ! k, to_track_id = nid\<rparr>]) ! d
      = \<lparr>to_det = dets ! d, to_track_id = nid0 + of_nat (nones m d)\<rparr>"
    using A(6)[of d] nones_less[of d k m] k A(1-3) by (cases "d = k"; simp add: nth_append)+
next
  fix t assume "t < length ts0" "\<forall>d<Suc k. m ! d \<noteq> Some t"
  then show "(ts @ [\<lparr>tr_id = nid, tr_det = dets ! k, tr_frames_unseen = 0, tr_last_seen_frame = fid\<rparr>]) ! t = ts0 ! t"
    using after_detsD(4)[OF s, of t] after_detsD(2)[OF s] by (simp add: nth_append)
qed

lemma after_dets_hit:
  assumes s: "after_dets ts0 nid0 fid dets m k (ts, nid, outs)" and k: "k < length m" "m ! k = Some t"
    and t: "t < length ts0" "\<And>d. d < k \<Longrightarrow> m ! d \<noteq> Some t"
  shows "after_dets ts0 nid0 fid dets m (Suc k)
    (ts[t := (ts0 ! t)\<lparr>tr_det := dets ! k, tr_frames_unseen := 0, tr_last_seen_frame := fid\<rparr>],
     nid, outs @ [\<lparr>to_det = dets ! k, to_track_id = tr_id (ts0 ! t)\<rparr>])"
  unfolding after_dets_def prod.case
proof (intro conjI allI impI)
  note A = after_detsD[OF s]
  let ?ts = "ts[t := (ts0 ! t)\<lparr>tr_det := dets ! k, tr_frames_unseen := 0, tr_last_seen_frame := fid\<rparr>]"
  let ?outs = "outs @ [\<lparr>to_det = dets ! k, to_track_id = tr_id (ts0 ! t)\<rparr>]"
  show "nid = nid0 + of_nat (nones m (Suc k))" "length ?ts = length ts0 + nones m (Suc k)" "length ?outs = Suc k"
    using A(1-3) k by (simp_all add: nones_Suc)
  fix d t' assume d: "d < Suc k" "m ! d = Some t'"
  show "?ts ! t' = (ts0 ! t')\<lparr>tr_det := dets ! d, tr_frames_unseen := 0, tr_last_seen_frame := fid\<rparr>"
    "?outs ! d = \<lparr>to_det = dets ! d, to_track_id = tr_id (ts0 ! t')\<rparr>"
    using A(5)[of d t'] t(2)[of d] d A(2,3) k t(1) by (cases "d = k"; force simp: nth_append)+
next
  note A = after_detsD[OF s]
  fix d assume d: "d < Suc k" "m ! d = None"
  then have "d < k" using k by (cases "d = k") auto
  then show "ts[t := (ts0 ! t)\<lparr>tr_det := dets ! k, tr_frames_unseen := 0, tr_last_seen_frame := fid\<rparr>]
        ! (length ts0 + nones m d) = \<lparr>tr_id = nid0 + of_nat (nones m d), tr_det = dets ! d,
         tr_frames_unseen = 0, tr_last_seen_frame = fid\<rparr>"
    "(outs @ [\<lparr>to_det = dets ! k, to_track_id = tr_id (ts0 ! t)\<rparr>]) ! d
      = \<lparr>to_det = dets ! d, to_track_id = nid0 + of_nat (nones m d)\<rparr>"
    using A(6)[of d] d t(1) A(2,3) by (simp_all add: nth_append)
next
  fix t' assume "t' < length ts0" "\<forall>d<Suc k. m ! d \<noteq> Some t'"
  then show "ts[t := (ts0 ! t)\<lparr>tr_det := dets ! k, tr_frames_unseen := 0, tr_last_seen_frame := fid\<rparr>] ! t' = ts0 ! t'"
    using after_detsD(4)[OF s, of t'] k by auto
qed

lemma track_dets_after:
  assumes "matching ts0 dets m u"
  shows "after_dets ts0 nid0 fid dets m (length dets)
    (fold (track_det fid dets m) [0..<length dets] (ts0, nid0, []))"
proof (rule fold_upt)
  show "after_dets ts0 nid0 fid dets m 0 (ts0, nid0, [])"
    by (simp add: after_dets_def nones_def)
next
  fix k s assume k: "k < length dets" and "after_dets ts0 nid0 fid dets m k s"
  then obtain ts nid outs where s: "s = (ts, nid, outs)" "after_dets ts0 nid0 fid dets m k (ts, nid, outs)"
    by (cases s) auto
  note M = matchingD[OF assms]
  show "after_dets ts0 nid0 fid dets m (Suc k) (track_det fid dets m k s)"
  proof (cases "m ! k")
    case None
    have "t < length ts0" if "d < k" "m ! d = Some t" for d t using M(1) M(3)[of d t] that k by simp
    then show ?thesis using after_dets_new[OF s(2) _ None] k M(1) None s(1) by (simp add: track_det_def)
  next
    case (Some t)
    have km: "k < length m" using k M(1) by simp
    have t: "t < length ts0" by (rule M(3)[OF km Some])
    have "m ! d \<noteq> Some t" if "d < k" for d
      using M(5)[of d k t] that km Some by auto
    note t = t this
    have "ts ! t = ts0 ! t" using after_detsD(4)[OF s(2)] t by simp
    then show ?thesis using after_dets_hit[OF s(2) km Some t] Some s(1)
      by (simp add: track_det_def)
  qed
qed

definition aged :: "track \<Rightarrow> track" where
  "aged tr = tr\<lparr>tr_frames_unseen := tr_frames_unseen tr + 1\<rparr>"

lemma age_tracks:
  assumes "n \<le> length ts"
  shows "length (fold (age_track u) [0..<n] ts) = length ts
    \<and> (\<forall>t<length ts. fold (age_track u) [0..<n] ts ! t =
        (if t < n \<and> \<not> u ! t then aged (ts ! t) else ts ! t))"
proof -
  let ?P = "\<lambda>k xs. length xs = length ts
    \<and> (\<forall>t<length ts. xs ! t = (if t < k \<and> \<not> u ! t then aged (ts ! t) else ts ! t))"
  show ?thesis
  proof (rule fold_upt[where P = ?P])
    fix k xs assume k: "k < n" and P: "?P k xs"
    have "age_track u k xs = (if u ! k then xs else xs[k := aged (xs ! k)])"
      by (simp add: age_track_def aged_def)
    moreover have "xs ! k = ts ! k" using P k assms by simp
    ultimately show "?P (Suc k) (age_track u k xs)"
      using P k assms by (auto simp: less_Suc_eq nth_list_update)
  qed simp
qed

definition refreshed :: "u64 \<Rightarrow> tracker_detection \<Rightarrow> track \<Rightarrow> track" where
  "refreshed fid d tr = tr\<lparr>tr_det := d, tr_frames_unseen := 0, tr_last_seen_frame := fid\<rparr>"

definition fresh_track :: "u64 \<Rightarrow> u32 \<Rightarrow> tracker_detection \<Rightarrow> track" where
  "fresh_track fid i d = \<lparr>tr_id = i, tr_det = d, tr_frames_unseen = 0, tr_last_seen_frame = fid\<rparr>"

text \<open>The tracks before the expired ones are erased, and the outputs, from the matching.\<close>

definition update_shape ::
  "u64 \<Rightarrow> tracker_detection list \<Rightarrow> iou_tracker \<Rightarrow> nat option list \<Rightarrow> bool list
   \<Rightarrow> tracker_output list \<Rightarrow> track list \<Rightarrow> bool" where
  "update_shape fid dets s m u outs ts \<longleftrightarrow>
     length outs = length dets \<and> length ts = length (tracks s) + nones m (length dets)
     \<and> (\<forall>d<length dets. \<forall>t. m ! d = Some t \<longrightarrow> ts ! t = refreshed fid (dets ! d) (tracks s ! t)
          \<and> outs ! d = \<lparr>to_det = dets ! d, to_track_id = tr_id (tracks s ! t)\<rparr>)
     \<and> (\<forall>d<length dets. m ! d = None \<longrightarrow>
          ts ! (length (tracks s) + nones m d) = fresh_track fid (next_id s + of_nat (nones m d)) (dets ! d)
          \<and> outs ! d = \<lparr>to_det = dets ! d, to_track_id = next_id s + of_nat (nones m d)\<rparr>)
     \<and> (\<forall>t<length (tracks s). \<not> u ! t \<longrightarrow> ts ! t = aged (tracks s ! t))"

lemma update_result:
  assumes "boxes_ok (tracks s) dets"
  obtains m u outs ts where "match_tracks (tracks s) dets = Some (m, u)" "matching (tracks s) dets m u"
    "stable_matching (tracks s) dets m" "update_shape fid dets s m u outs ts"
    "update fid dets s = Some (outs, \<lparr>tracks = filter (\<lambda>tr. \<not> kMaxAge < tr_frames_unseen tr) ts,
       next_id = next_id s + of_nat (nones m (length dets))\<rparr>)"
proof -
  obtain m u where m: "match_tracks (tracks s) dets = Some (m, u)" "matching (tracks s) dets m u"
      "stable_matching (tracks s) dets m"
    using match_tracks_correct[OF assms] by blast
  let ?T = "length (tracks s)"
  obtain ts1 nid outs where f: "fold (track_det fid dets m) [0..<length dets] (tracks s, next_id s, [])
      = (ts1, nid, outs)" by (cases "fold (track_det fid dets m) [0..<length dets] (tracks s, next_id s, [])")
  define ts where "ts = fold (age_track u) [0..<?T] ts1"
  have a: "after_dets (tracks s) (next_id s) fid dets m (length dets) (ts1, nid, outs)"
    using track_dets_after[OF m(2), of "next_id s" fid] f by simp
  have n: "nid = next_id s + of_nat (nones m (length dets))" "length ts1 = ?T + nones m (length dets)"
    using a by (simp_all add: after_dets_def)
  have ag: "length ts = length ts1" "\<And>t. t < length ts1 \<Longrightarrow>
      ts ! t = (if t < ?T \<and> \<not> u ! t then aged (ts1 ! t) else ts1 ! t)"
    using age_tracks[of ?T ts1 u] n(2) by (simp_all add: ts_def)
  have mm: "length m = length dets" "length u = ?T"
    "\<And>d t. d < length m \<Longrightarrow> m ! d = Some t \<Longrightarrow> t < ?T \<and> u ! t"
    using matchingD(1-4)[OF m(2)] by simp_all
  have "update_shape fid dets s m u outs ts"
    unfolding update_shape_def
  proof (intro conjI allI impI)
    fix d t assume d: "d < length dets" "m ! d = Some t"
    then have "t < ?T" "u ! t" using mm by auto
    then show "ts ! t = refreshed fid (dets ! d) (tracks s ! t)"
      "outs ! d = \<lparr>to_det = dets ! d, to_track_id = tr_id (tracks s ! t)\<rparr>"
      using a d ag(2)[of t] n(2) by (simp_all add: after_dets_def refreshed_def)
  next
    fix d assume d: "d < length dets" "m ! d = None"
    then have "nones m d < nones m (length dets)" using nones_less[of d "length dets" m] mm(1) by simp
    then show "ts ! (?T + nones m d) = fresh_track fid (next_id s + of_nat (nones m d)) (dets ! d)"
      "outs ! d = \<lparr>to_det = dets ! d, to_track_id = next_id s + of_nat (nones m d)\<rparr>"
      using a d ag(2)[of "?T + nones m d"] n(2) by (simp_all add: after_dets_def fresh_track_def)
  next
    fix t assume t: "t < ?T" "\<not> u ! t"
    then have "\<forall>d<length dets. m ! d \<noteq> Some t" using mm by auto
    then show "ts ! t = aged (tracks s ! t)"
      using a t ag(2)[of t] n(2) by (simp add: after_dets_def)
  qed (use a n(2) ag(1) in \<open>simp_all add: after_dets_def\<close>)
  moreover have "update fid dets s = Some (outs, \<lparr>tracks = filter (\<lambda>tr. \<not> kMaxAge < tr_frames_unseen tr) ts,
       next_id = next_id s + of_nat (nones m (length dets))\<rparr>)"
    using m(1) f n(1) by (simp add: update_def ts_def)
  ultimately show ?thesis using m that by blast
qed

section \<open>The tracker as a map from ids to tracks\<close>

definition live :: "track list \<Rightarrow> u32 \<rightharpoonup> tracker_detection \<times> int" where
  "live ts = map_of (map (\<lambda>tr. (tr_id tr, tr_det tr, tr_frames_unseen tr)) ts)"

text \<open>The specification of a frame: the ids reported hold their detection, the others have been
  missed once more, those missed more than 30 times are gone.\<close>

definition live_step ::
  "tracker_output list \<Rightarrow> (u32 \<rightharpoonup> tracker_detection \<times> int) \<Rightarrow> (u32 \<rightharpoonup> tracker_detection \<times> int)" where
  "live_step outs L = (\<lambda>i. case find (\<lambda>x. to_track_id x = i) outs of
       Some x \<Rightarrow> Some (to_det x, 0)
     | None \<Rightarrow> (case L i of Some (d, n) \<Rightarrow> if n + 1 \<le> 30 then Some (d, n + 1) else None | None \<Rightarrow> None))"

definition tracker_inv :: "iou_tracker \<Rightarrow> bool" where
  "tracker_inv s \<longleftrightarrow> distinct (map tr_id (tracks s)) \<and> 0 < next_id s
     \<and> (\<forall>tr \<in> set (tracks s). 0 < tr_id tr \<and> tr_id tr < next_id s
          \<and> 0 \<le> tr_frames_unseen tr \<and> tr_frames_unseen tr \<le> 30)"

lemma live_iff:
  "distinct (map tr_id ts) \<Longrightarrow>
   live ts i = Some x \<longleftrightarrow> (\<exists>tr \<in> set ts. tr_id tr = i \<and> x = (tr_det tr, tr_frames_unseen tr))"
  unfolding live_def by (subst map_of_eq_Some_iff) (auto simp: comp_def)

lemma nones_onto: "i < nones m k \<Longrightarrow> k \<le> length m \<Longrightarrow> \<exists>d<k. m ! d = None \<and> nones m d = i"
proof (induction k)
  case (Suc k)
  show ?case
  proof (cases "i < nones m k")
    case True
    then show ?thesis using Suc by (auto intro: less_SucI)
  next
    case False
    then have "m ! k = None" "i = nones m k" using Suc.prems by (auto simp: nones_Suc split: if_splits)
    then show ?thesis by blast
  qed
qed (simp add: nones_def)

lemma update_ids:
  assumes "matching (tracks s) dets m u" "update_shape fid dets s m u outs ts"
  shows "t < length (tracks s) \<Longrightarrow> tr_id (ts ! t) = tr_id (tracks s ! t)"
    and "i < nones m (length dets) \<Longrightarrow> tr_id (ts ! (length (tracks s) + i)) = next_id s + of_nat i"
proof -
  show "tr_id (ts ! t) = tr_id (tracks s ! t)" if t: "t < length (tracks s)"
  proof (cases "u ! t")
    case True
    then obtain d where "d < length dets" "m ! d = Some t"
      using matchingD(1,6)[OF assms(1)] t by metis
    then show ?thesis using assms(2) by (simp add: update_shape_def refreshed_def)
  qed (use assms(2) t in \<open>simp add: update_shape_def aged_def\<close>)
  assume "i < nones m (length dets)"
  then obtain d where "d < length dets" "m ! d = None" "nones m d = i"
    using nones_onto[of i m "length dets"] matchingD(1)[OF assms(1)] by auto
  then show "tr_id (ts ! (length (tracks s) + i)) = next_id s + of_nat i"
    using assms(2) by (auto simp: update_shape_def fresh_track_def)
qed

lemma unat_next:
  assumes "unat (a :: u32) + k < 2 ^ 32" "i \<le> k"
  shows "unat (a + of_nat i) = unat a + i"
  using assms by (simp add: unat_word_ariths unat_of_nat)

lemma offset_cases: "\<not> (j :: nat) < a \<Longrightarrow> j < a + n \<Longrightarrow> \<exists>j'. j = a + j' \<and> j' < n"
  by (rule exI[of _ "j - a"]) simp

lemma distinct_by_less:
  "(\<And>i j. i < j \<Longrightarrow> j < length xs \<Longrightarrow> f (xs ! i) \<noteq> f (xs ! j)) \<Longrightarrow> distinct (map f xs)"
  unfolding distinct_conv_nth length_map by (metis linorder_neq_iff less_trans nth_map)

lemma update_ids_order:
  assumes inv: "tracker_inv s" and m: "matching (tracks s) dets m u"
    and sh: "update_shape fid dets s m u outs ts" and b: "unat (next_id s) + length dets < 2 ^ 32"
  shows "t < length (tracks s) \<Longrightarrow> 0 < tr_id (ts ! t) \<and> tr_id (ts ! t) < next_id s"
    and "i < nones m (length dets) \<Longrightarrow> unat (tr_id (ts ! (length (tracks s) + i))) = unat (next_id s) + i"
    and "unat (next_id s + of_nat (nones m (length dets))) = unat (next_id s) + nones m (length dets)"
proof -
  have n: "nones m (length dets) \<le> length dets" using nones_le[of m "length dets"] matchingD(1)[OF m] by simp
  note U = unat_next[OF b]
  show "0 < tr_id (ts ! t) \<and> tr_id (ts ! t) < next_id s" if "t < length (tracks s)"
    using inv that update_ids(1)[OF m sh that] by (simp add: tracker_inv_def)
  show "unat (tr_id (ts ! (length (tracks s) + i))) = unat (next_id s) + i" if "i < nones m (length dets)"
    using update_ids(2)[OF m sh that] U[of i] that n by simp
  show "unat (next_id s + of_nat (nones m (length dets))) = unat (next_id s) + nones m (length dets)"
    using U n by simp
qed

lemma update_ids_distinct:
  assumes inv: "tracker_inv s" and m: "matching (tracks s) dets m u"
    and sh: "update_shape fid dets s m u outs ts" and b: "unat (next_id s) + length dets < 2 ^ 32"
  shows "distinct (map tr_id ts)"
proof (rule distinct_by_less)
  let ?T = "length (tracks s)"
  note ord = update_ids_order[OF inv m sh b]
  fix i j assume lt: "i < j" "j < length ts"
  show "tr_id (ts ! i) \<noteq> tr_id (ts ! j)"
  proof (cases "j < ?T")
    case True
    have "distinct (map tr_id (tracks s))" using inv by (simp add: tracker_inv_def)
    then have "map tr_id (tracks s) ! i \<noteq> map tr_id (tracks s) ! j"
      using lt True nth_eq_iff_index_eq[of "map tr_id (tracks s)" i j] by simp
    then show ?thesis using lt True update_ids(1)[OF m sh, of i] update_ids(1)[OF m sh, of j] by simp
  next
    case False
    obtain j' where j': "j = ?T + j'" "j' < nones m (length dets)"
      using offset_cases[OF False] lt(2) sh unfolding update_shape_def by metis
    show ?thesis
    proof (cases "i < ?T")
      case True
      then show ?thesis using ord(1)[OF True] ord(2)[OF j'(2)] j'(1) by (auto simp: word_less_nat_alt)
    next
      case False
      obtain i' where "i = ?T + i'" "i' < nones m (length dets)"
        using offset_cases[OF False, of "nones m (length dets)"] lt(1) j' by force
      then show ?thesis using ord(2)[of i'] ord(2)[OF j'(2)] j' lt by auto
    qed
  qed
qed

lemma update_ids_bounds:
  assumes inv: "tracker_inv s" and m: "matching (tracks s) dets m u"
    and sh: "update_shape fid dets s m u outs ts" and b: "unat (next_id s) + length dets < 2 ^ 32"
    and tr: "tr \<in> set ts"
  shows "0 < tr_id tr \<and> tr_id tr < next_id s + of_nat (nones m (length dets))"
proof -
  let ?T = "length (tracks s)" and ?n = "nones m (length dets)"
  note ord = update_ids_order[OF inv m sh b]
  have "length ts = ?T + ?n" using sh by (simp add: update_shape_def)
  then obtain j where j: "j < ?T + ?n" "tr = ts ! j" using tr by (metis in_set_conv_nth)
  have nz: "0 < unat (next_id s)" using inv by (simp add: tracker_inv_def word_less_nat_alt)
  show ?thesis
  proof (cases "j < ?T")
    case True
    then show ?thesis using ord(1)[OF True] j ord(3) by (auto simp: word_less_nat_alt)
  next
    case False
    obtain j' where "j = ?T + j'" "j' < ?n" using offset_cases[OF False j(1)] by metis
    then show ?thesis using ord(2)[of j'] nz j ord(3) by (simp add: word_less_nat_alt)
  qed
qed

text \<open>The tracks before erasing, seen through the outputs: an id reported holds the detection it
  is reported with, every other id is an old track, one frame older.\<close>

lemma update_tracks:
  assumes m: "matching (tracks s) dets m u" and sh: "update_shape fid dets s m u outs ts"
    and tr: "tr \<in> set ts"
  shows "(\<exists>x \<in> set outs. to_track_id x = tr_id tr \<and> to_det x = tr_det tr \<and> tr_frames_unseen tr = 0)
    \<or> (\<exists>old \<in> set (tracks s). tr = aged old)"
proof -
  let ?T = "length (tracks s)"
  have "length ts = ?T + nones m (length dets)" using sh by (simp add: update_shape_def)
  with tr obtain j where j: "j < ?T + nones m (length dets)" "tr = ts ! j" by (metis in_set_conv_nth)
  have hit: "\<exists>x \<in> set outs. to_track_id x = tr_id tr \<and> to_det x = tr_det tr \<and> tr_frames_unseen tr = 0"
    if "d < length dets" "to_track_id (outs ! d) = tr_id tr" "to_det (outs ! d) = tr_det tr"
      "tr_frames_unseen tr = 0" for d
    using that sh by (intro bexI[of _ "outs ! d"]) (auto simp: update_shape_def)
  show ?thesis
  proof (cases "j < ?T")
    case True
    show ?thesis
    proof (cases "u ! j")
      case u: True
      then obtain d where d: "d < length dets" "m ! d = Some j"
        using matchingD(1,6)[OF m] True by metis
      then have "tr = refreshed fid (dets ! d) (tracks s ! j)"
        "outs ! d = \<lparr>to_det = dets ! d, to_track_id = tr_id (tracks s ! j)\<rparr>"
        using sh j by (simp_all add: update_shape_def)
      then show ?thesis using hit[OF d(1)] by (simp add: refreshed_def)
    next
      case False
      then have "tr = aged (tracks s ! j)" using sh j True by (simp add: update_shape_def)
      then show ?thesis using True nth_mem by blast
    qed
  next
    case False
    obtain i where i: "j = ?T + i" "i < nones m (length dets)" using offset_cases[OF False j(1)] by metis
    obtain d where d: "d < length dets" "m ! d = None" "nones m d = i"
      using nones_onto[OF i(2)] matchingD(1)[OF m] by auto
    then have "tr = fresh_track fid (next_id s + of_nat i) (dets ! d)"
      "outs ! d = \<lparr>to_det = dets ! d, to_track_id = next_id s + of_nat i\<rparr>"
      using sh j i by (auto simp: update_shape_def)
    then show ?thesis using hit[OF d(1)] by (simp add: fresh_track_def)
  qed
qed

text \<open>Conversely every detection has its track, and every old track that is not reported is there,
  aged.\<close>

lemma update_tracks_ex:
  assumes m: "matching (tracks s) dets m u" and sh: "update_shape fid dets s m u outs ts"
  shows "d < length dets \<Longrightarrow> to_det (outs ! d) = dets ! d \<and> (\<exists>tr \<in> set ts. tr_id tr = to_track_id (outs ! d)
      \<and> tr_det tr = dets ! d \<and> tr_frames_unseen tr = 0)"
    and "old \<in> set (tracks s) \<Longrightarrow> aged old \<in> set ts \<or> (\<exists>x \<in> set outs. to_track_id x = tr_id old)"
proof -
  let ?T = "length (tracks s)"
  have len: "length ts = ?T + nones m (length dets)" "length outs = length dets"
    using sh by (simp_all add: update_shape_def)
  assume d: "d < length dets"
  show "to_det (outs ! d) = dets ! d \<and> (\<exists>tr \<in> set ts. tr_id tr = to_track_id (outs ! d)
      \<and> tr_det tr = dets ! d \<and> tr_frames_unseen tr = 0)"
  proof (cases "m ! d")
    case None
    have "nones m d < nones m (length dets)" using nones_less[OF d _ None] matchingD(1)[OF m] by simp
    then have "ts ! (?T + nones m d) \<in> set ts" using len by simp
    then show ?thesis using sh d None
      by (intro conjI bexI[of _ "ts ! (?T + nones m d)"]) (auto simp: update_shape_def fresh_track_def)
  next
    case (Some t)
    have "t < ?T" using matchingD(1,3)[OF m] d Some by auto
    then have "ts ! t \<in> set ts" using len by simp
    then show ?thesis using sh d Some
      by (intro conjI bexI[of _ "ts ! t"]) (auto simp: update_shape_def refreshed_def)
  qed
next
  let ?T = "length (tracks s)"
  have len: "length ts = ?T + nones m (length dets)" "length outs = length dets"
    using sh by (simp_all add: update_shape_def)
  assume "old \<in> set (tracks s)"
  then obtain t where t: "t < ?T" "old = tracks s ! t" by (metis in_set_conv_nth)
  show "aged old \<in> set ts \<or> (\<exists>x \<in> set outs. to_track_id x = tr_id old)"
  proof (cases "u ! t")
    case True
    then obtain d where d: "d < length dets" "m ! d = Some t"
      using matchingD(1,6)[OF m] t by metis
    then have "outs ! d \<in> set outs" using len by simp
    moreover have "to_track_id (outs ! d) = tr_id old"
      using sh t d by (simp add: update_shape_def)
    ultimately show ?thesis by blast
  next
    case False
    then have "ts ! t = aged old" using sh t by (simp add: update_shape_def)
    moreover have "t < length ts" using len t by simp
    ultimately show ?thesis using nth_mem by metis
  qed
qed

text \<open>An output continues a track: its id, the class, and an overlap above the threshold.\<close>

definition continues :: "track \<Rightarrow> tracker_output \<Rightarrow> bool" where
  "continues tr x \<longleftrightarrow> tr_id tr = to_track_id x
     \<and> strneq (td_class_name (to_det x)) (td_class_name (tr_det tr)) 16
     \<and> (\<exists>v. iou (to_det x) (tr_det tr) = Some v \<and> flt kIouThreshold v)"

lemma update_outs_distinct:
  assumes inv: "tracker_inv s" and m: "matching (tracks s) dets m u"
    and sh: "update_shape fid dets s m u outs ts" and b: "unat (next_id s) + length dets < 2 ^ 32"
  shows "distinct (map to_track_id outs)"
proof (rule distinct_by_less)
  let ?T = "length (tracks s)"
  have len: "length ts = ?T + nones m (length dets)" "length outs = length dets" "length m = length dets"
    using sh matchingD(1)[OF m] by (simp_all add: update_shape_def)
  define pos where "pos d = (case m ! d of Some t \<Rightarrow> t | None \<Rightarrow> ?T + nones m d)" for d
  have pos: "pos d < length ts \<and> tr_id (ts ! pos d) = to_track_id (outs ! d)" if d: "d < length dets" for d
  proof (cases "m ! d")
    case None
    then show ?thesis using nones_less[OF d _ None] sh d len
      by (simp add: pos_def update_shape_def fresh_track_def)
  next
    case (Some t)
    then show ?thesis using matchingD(3)[OF m, of d t] sh d len
      by (simp add: pos_def update_shape_def refreshed_def)
  qed
  fix d d' assume dd: "d < d'" "d' < length outs"
  have "pos d \<noteq> pos d'"
    using matchingD(3)[OF m, of d] matchingD(3)[OF m, of d'] matchingD(5)[OF m, of d d'] dd len
      nones_less[of d d' m]
    by (fastforce simp: pos_def split: option.splits)
  then have "tr_id (ts ! pos d) \<noteq> tr_id (ts ! pos d')"
    using nth_eq_iff_index_eq[OF update_ids_distinct[OF inv m sh b], of "pos d" "pos d'"]
      pos[of d] pos[of d'] dd len by simp
  then show "to_track_id (outs ! d) \<noteq> to_track_id (outs ! d')" using pos[of d] pos[of d'] dd len by simp
qed

lemma update_outs_origin:
  assumes inv: "tracker_inv s" and ok: "boxes_ok (tracks s) dets" and m: "matching (tracks s) dets m u"
    and sh: "update_shape fid dets s m u outs ts" and b: "unat (next_id s) + length dets < 2 ^ 32"
    and x: "x \<in> set outs"
  shows "(\<exists>tr \<in> set (tracks s). continues tr x)
      \<or> next_id s \<le> to_track_id x \<and> to_track_id x < next_id s + of_nat (nones m (length dets))"
proof -
  have len: "length outs = length dets" "length m = length dets"
    using sh matchingD(1)[OF m] by (simp_all add: update_shape_def)
  obtain d where d: "d < length dets" "x = outs ! d" using x len by (metis in_set_conv_nth)
  show ?thesis
  proof (cases "m ! d")
    case None
    have "nones m d < nones m (length dets)" using nones_less[OF d(1) _ None] len by simp
    moreover have "to_track_id x = next_id s + of_nat (nones m d)"
      using sh d None by (simp add: update_shape_def)
    moreover have "nones m (length dets) \<le> length dets" using nones_le[of m "length dets"] len by simp
    ultimately show ?thesis
      using unat_next[OF b, of "nones m d"] unat_next[OF b, of "nones m (length dets)"]
      by (simp add: word_less_nat_alt word_le_nat_alt)
  next
    case (Some t)
    then have t: "t < length (tracks s)" "x = \<lparr>to_det = dets ! d, to_track_id = tr_id (tracks s ! t)\<rparr>"
      using matchingD(3)[OF m, of d t] sh d len by (simp_all add: update_shape_def)
    have "same_class (tracks s) dets d t" "flt kIouThreshold (score (tracks s) dets d t)"
      using m d(1) Some len by (simp_all add: matching_def)
    then have "continues (tracks s ! t) x"
      using t(2) iou_score(1)[OF ok d(1) t(1)] by (simp add: continues_def same_class_def)
    then show ?thesis using t(1) nth_mem by blast
  qed
qed

text \<open>All a caller sees of one update.\<close>

definition update_post ::
  "tracker_detection list \<Rightarrow> iou_tracker \<Rightarrow> tracker_output list \<Rightarrow> iou_tracker \<Rightarrow> bool" where
  "update_post dets s outs s' \<longleftrightarrow> map to_det outs = dets \<and> distinct (map to_track_id outs)
     \<and> (\<forall>x \<in> set outs. (\<exists>tr \<in> set (tracks s). continues tr x)
          \<or> next_id s \<le> to_track_id x \<and> to_track_id x < next_id s')
     \<and> tracker_inv s' \<and> boxes_ok (tracks s') []
     \<and> (\<exists>n\<le>length dets. unat (next_id s') = unat (next_id s) + n)
     \<and> (\<forall>x \<in> set outs. \<exists>tr \<in> set (tracks s'). tr_id tr = to_track_id x \<and> tr_det tr = to_det x
          \<and> tr_frames_unseen tr = 0)
     \<and> (\<forall>tr \<in> set (tracks s').
          (\<exists>x \<in> set outs. to_track_id x = tr_id tr \<and> to_det x = tr_det tr \<and> tr_frames_unseen tr = 0)
          \<or> (\<exists>old \<in> set (tracks s). tr = aged old \<and> tr_id old \<notin> to_track_id ` set outs))
     \<and> (\<forall>old \<in> set (tracks s). tr_frames_unseen old < 30 \<longrightarrow>
          aged old \<in> set (tracks s') \<or> tr_id old \<in> to_track_id ` set outs)"

text \<open>A track before erasing: reported in this frame, or an old one that was not.\<close>

lemma update_origin:
  assumes m: "matching (tracks s) dets m u" and sh: "update_shape fid dets s m u outs ts"
    and dist: "distinct (map tr_id ts)" and tr: "tr \<in> set ts"
  shows "(\<exists>x \<in> set outs. to_track_id x = tr_id tr \<and> to_det x = tr_det tr \<and> tr_frames_unseen tr = 0)
      \<or> (\<exists>old \<in> set (tracks s). tr = aged old \<and> tr_id old \<notin> to_track_id ` set outs)"
proof (cases "\<exists>x \<in> set outs. to_track_id x = tr_id tr")
  case True
  have len: "length outs = length dets" using sh by (simp add: update_shape_def)
  obtain d where d: "d < length dets" "to_track_id (outs ! d) = tr_id tr"
    using True len by (metis in_set_conv_nth)
  obtain tr' where tr': "tr' \<in> set ts" "tr_id tr' = tr_id tr" "tr_det tr' = dets ! d" "tr_frames_unseen tr' = 0"
    using update_tracks_ex(1)[OF m sh d(1)] d(2) by auto
  then have "tr' = tr" using tr dist by (metis distinct_map inj_onD)
  then show ?thesis using tr' update_tracks_ex(1)[OF m sh d(1)] d len nth_mem by metis
next
  case False
  then obtain old where old: "old \<in> set (tracks s)" "tr = aged old" using update_tracks[OF m sh tr] by blast
  then have "tr_id old \<notin> to_track_id ` set outs" using False by (auto simp: aged_def)
  with old show ?thesis by blast
qed

lemma origin_box:
  assumes "(\<exists>x \<in> set outs. to_track_id x = tr_id tr \<and> to_det x = tr_det tr \<and> tr_frames_unseen tr = 0)
      \<or> (\<exists>old \<in> set (tracks s). tr = aged old \<and> tr_id old \<notin> to_track_id ` set outs)"
    and "boxes_ok (tracks s) dets" "map to_det outs = dets"
  shows "box_ok (tr_det tr)"
proof -
  consider x where "x \<in> set outs" "tr_det tr = to_det x" | old where "old \<in> set (tracks s)" "tr = aged old"
    using assms(1) by metis
  then show ?thesis using assms(2,3) by cases (auto simp: boxes_ok_def list_all_iff aged_def)
qed

lemma update_sound:
  assumes inv: "tracker_inv s" and ok: "boxes_ok (tracks s) dets"
    and b: "unat (next_id s) + length dets < 2 ^ 32"
  shows "\<exists>outs s'. update fid dets s = Some (outs, s') \<and> update_post dets s outs s'"
proof (rule update_result[OF ok])
  fix m u outs ts
  assume m: "matching (tracks s) dets m u" and sh: "update_shape fid dets s m u outs ts"
    and up: "update fid dets s = Some (outs, \<lparr>tracks = filter (\<lambda>tr. \<not> kMaxAge < tr_frames_unseen tr) ts,
       next_id = next_id s + of_nat (nones m (length dets))\<rparr>)" (is "_ = Some (_, ?s')")
  note ids = update_ids_distinct[OF inv m sh b] update_ids_bounds[OF inv m sh b]
    and outs = update_outs_distinct[OF inv m sh b] update_outs_origin[OF inv ok m sh b]
  note ex = update_tracks_ex[OF m sh] and origin = update_origin[OF m sh ids(1)]
  have n: "nones m (length dets) \<le> length dets" using nones_le[of m "length dets"] matchingD(1)[OF m] by simp
  have next_id: "unat (next_id ?s') = unat (next_id s) + nones m (length dets)" using unat_next[OF b n] by simp
  have len: "length outs = length dets" using sh by (simp add: update_shape_def)
  then have det: "map to_det outs = dets" using ex(1) by (simp add: list_eq_iff_nth_eq)
  have kept: "tr \<in> set (tracks ?s') \<longleftrightarrow> tr \<in> set ts \<and> tr_frames_unseen tr \<le> 30" for tr
    by (auto simp: kMaxAge_def)
  have origin': "(\<exists>x \<in> set outs. to_track_id x = tr_id tr \<and> to_det x = tr_det tr \<and> tr_frames_unseen tr = 0)
      \<or> (\<exists>old \<in> set (tracks s). tr = aged old \<and> tr_id old \<notin> to_track_id ` set outs)"
    if "tr \<in> set (tracks ?s')" for tr
    by (rule origin) (use that in simp)
  have box: "boxes_ok (tracks ?s') []"
    using origin_box[OF origin ok det] by (auto simp: boxes_ok_def list_all_iff)
  have nz: "0 < unat (next_id s)" using inv by (simp add: tracker_inv_def word_less_nat_alt)
  have unseen: "0 \<le> tr_frames_unseen tr" if "tr \<in> set ts" for tr
    using origin[OF that] inv by (auto simp: tracker_inv_def aged_def)
  have inv': "tracker_inv ?s'"
    using ids nz next_id unseen
    by (auto simp: tracker_inv_def kept distinct_map_filter word_less_nat_alt kMaxAge_def)
  have new: "\<exists>tr \<in> set (tracks ?s'). tr_id tr = to_track_id x \<and> tr_det tr = to_det x \<and> tr_frames_unseen tr = 0"
    if x: "x \<in> set outs" for x
  proof -
    obtain d where d: "d < length dets" "x = outs ! d" using x len by (metis in_set_conv_nth)
    obtain tr where "tr \<in> set ts" "tr_id tr = to_track_id x" "tr_det tr = to_det x" "tr_frames_unseen tr = 0"
      using ex(1)[OF d(1)] d(2) by auto
    then show ?thesis by (intro bexI[of _ tr]) (simp_all add: kMaxAge_def)
  qed
  have old: "aged x \<in> set (tracks ?s') \<or> tr_id x \<in> to_track_id ` set outs"
    if "x \<in> set (tracks s)" "tr_frames_unseen x < 30" for x
    using ex(2)[OF that(1)] that(2) unfolding kept by (force simp: aged_def image_iff)
  have "update_post dets s outs ?s'"
    unfolding update_post_def using det outs inv' box next_id n origin' new old
    by (intro conjI) (blast | simp)+
  with up show ?thesis by blast
qed

text \<open>An id that is not reported: live afterwards exactly if it was before and is not too old.\<close>

lemma live_not_reported:
  assumes inv: "tracker_inv s" and post: "update_post dets s outs s'" and no: "i \<notin> to_track_id ` set outs"
  shows "live (tracks s') i = Some (x, k) \<longleftrightarrow> live (tracks s) i = Some (x, k - 1) \<and> k \<le> 30"
proof -
  have d: "distinct (map tr_id (tracks s))" "distinct (map tr_id (tracks s'))"
    using inv post by (simp_all add: update_post_def tracker_inv_def)
  show ?thesis
  proof
    assume "live (tracks s') i = Some (x, k)"
    then obtain tr where tr: "tr \<in> set (tracks s')" "tr_id tr = i" "x = tr_det tr" "k = tr_frames_unseen tr"
      unfolding live_iff[OF d(2)] by blast
    then obtain old where old: "old \<in> set (tracks s)" "tr = aged old"
      using post no unfolding update_post_def by (metis image_eqI)
    moreover have "k \<le> 30" using tr post by (auto simp: update_post_def tracker_inv_def)
    ultimately show "live (tracks s) i = Some (x, k - 1) \<and> k \<le> 30"
      using tr by (auto simp: live_iff[OF d(1)] aged_def)
  next
    assume L: "live (tracks s) i = Some (x, k - 1) \<and> k \<le> 30"
    then obtain old where old: "old \<in> set (tracks s)" "tr_id old = i" "x = tr_det old" "k - 1 = tr_frames_unseen old"
      unfolding live_iff[OF d(1)] by blast
    then have "aged old \<in> set (tracks s')" using post no L by (auto simp: update_post_def)
    then show "live (tracks s') i = Some (x, k)"
      unfolding live_iff[OF d(2)] using old by (intro bexI[of _ "aged old"]) (simp_all add: aged_def)
  qed
qed

lemma live_refines:
  assumes inv: "tracker_inv s" and post: "update_post dets s outs s'"
  shows "live (tracks s') = live_step outs (live (tracks s))"
proof
  fix i
  show "live (tracks s') i = live_step outs (live (tracks s)) i"
  proof (cases "find (\<lambda>x. to_track_id x = i) outs")
    case (Some x)
    have d: "distinct (map tr_id (tracks s'))" using post by (simp add: update_post_def tracker_inv_def)
    have x: "x \<in> set outs" "to_track_id x = i" using Some by (auto simp: find_Some_iff)
    then obtain tr where "tr \<in> set (tracks s')" "tr_id tr = i" "tr_det tr = to_det x" "tr_frames_unseen tr = 0"
      using post by (auto simp: update_post_def)
    then have "live (tracks s') i = Some (to_det x, 0)" by (auto simp: live_iff[OF d])
    then show ?thesis using Some by (simp add: live_step_def)
  next
    case None
    then have "i \<notin> to_track_id ` set outs" by (auto simp: find_None_iff)
    note L = live_not_reported[OF inv post this]
    show ?thesis
    proof (cases "live (tracks s) i")
      case N: None
      then have "live (tracks s') i = None" using L by (cases "live (tracks s') i") auto
      then show ?thesis using N None by (simp add: live_step_def)
    next
      case S: (Some p)
      obtain x n where p: "p = (x, n)" by (cases p)
      have "live (tracks s') i = (if n + 1 \<le> 30 then Some (x, n + 1) else None)"
      proof (cases "live (tracks s') i")
        case (Some q)
        then show ?thesis using L[of "fst q" "snd q"] S p by (cases q) auto
      qed (use L[of x "n + 1"] S p in simp)
      then show ?thesis using S p None by (simp add: live_step_def)
    qed
  qed
qed

section \<open>Runs of the tracker\<close>

fun tracker_run ::
  "(u64 \<times> tracker_detection list) list \<Rightarrow> iou_tracker \<Rightarrow> (tracker_output list list \<times> iou_tracker) option"
where
  "tracker_run [] s = Some ([], s)"
| "tracker_run ((fid, dets) # fs) s =
     do {
       (outs, s1) \<leftarrow> update fid dets s;
       (outss, s2) \<leftarrow> tracker_run fs s1;
       Some (outs # outss, s2)
     }"

text \<open>An output given the frames before it, the newest first: its id was never reported before, or
  it continues the detection last reported with the id, at most 31 frames ago.\<close>

definition ids :: "tracker_output list \<Rightarrow> u32 set" where
  "ids outs = to_track_id ` set outs"

definition same_object :: "tracker_output \<Rightarrow> tracker_output \<Rightarrow> bool" where
  "same_object y x \<longleftrightarrow> to_track_id y = to_track_id x
     \<and> strneq (td_class_name (to_det x)) (td_class_name (to_det y)) 16
     \<and> (\<exists>v. iou (to_det x) (to_det y) = Some v \<and> flt kIouThreshold v)"

definition identified :: "tracker_output list list \<Rightarrow> tracker_output \<Rightarrow> bool" where
  "identified h x \<longleftrightarrow> (\<forall>k<length h. to_track_id x \<notin> ids (h ! k))
     \<or> (\<exists>k<length h. k \<le> 30 \<and> (\<exists>y \<in> set (h ! k). same_object y x)
          \<and> (\<forall>i<k. to_track_id x \<notin> ids (h ! i)))"

definition history :: "tracker_output list list \<Rightarrow> iou_tracker \<Rightarrow> bool" where
  "history h s \<longleftrightarrow> (\<forall>outs \<in> set h. \<forall>i \<in> ids outs. i < next_id s)
     \<and> (\<forall>tr \<in> set (tracks s). \<exists>k<length h. tr_frames_unseen tr = int k
          \<and> (\<exists>y \<in> set (h ! k). to_track_id y = tr_id tr \<and> to_det y = tr_det tr)
          \<and> (\<forall>i<k. tr_id tr \<notin> ids (h ! i)))"

lemma history_identified:
  assumes inv: "tracker_inv s" and h: "history h s" and post: "update_post dets s outs s'"
    and x: "x \<in> set outs"
  shows "identified h x"
proof -
  have "(\<exists>tr \<in> set (tracks s). continues tr x) \<or> next_id s \<le> to_track_id x"
    using post x by (auto simp: update_post_def)
  then show ?thesis
  proof
    assume "\<exists>tr \<in> set (tracks s). continues tr x"
    then obtain tr where tr: "tr \<in> set (tracks s)" "continues tr x" by blast
    obtain k y where k: "k < length h" "tr_frames_unseen tr = int k" "\<forall>i<k. tr_id tr \<notin> ids (h ! i)"
        and y: "y \<in> set (h ! k)" "to_track_id y = tr_id tr" "to_det y = tr_det tr"
      using h tr(1) unfolding history_def by blast
    have "tr_frames_unseen tr \<le> 30" using inv tr(1) by (simp add: tracker_inv_def)
    then have "k \<le> 30" using k(2) by simp
    moreover have "same_object y x" using y tr(2) by (auto simp: continues_def same_object_def)
    moreover have "\<forall>i<k. to_track_id x \<notin> ids (h ! i)" using k(3) tr(2) by (simp add: continues_def)
    ultimately show ?thesis using k(1) y(1) unfolding identified_def by blast
  next
    assume "next_id s \<le> to_track_id x"
    then have "\<forall>k<length h. to_track_id x \<notin> ids (h ! k)"
      using h unfolding history_def by (metis linorder_not_le nth_mem)
    then show ?thesis by (simp add: identified_def)
  qed
qed

lemma history_step:
  assumes h: "history h s" and post: "update_post dets s outs s'"
  shows "history (outs # h) s'"
  unfolding history_def
proof (intro conjI ballI)
  have le: "next_id s \<le> next_id s'" using post by (auto simp: update_post_def word_le_nat_alt)
  fix o' i assume o': "o' \<in> set (outs # h)" and i: "i \<in> ids o'"
  show "i < next_id s'"
  proof (cases "o' = outs")
    case True
    then obtain x where "x \<in> set outs" "i = to_track_id x" using i by (auto simp: ids_def)
    then obtain tr where "tr \<in> set (tracks s')" "tr_id tr = i" using post by (auto simp: update_post_def)
    then show ?thesis using post by (auto simp: update_post_def tracker_inv_def)
  next
    case False
    then have "i < next_id s" using o' i h by (auto simp: history_def)
    then show ?thesis using le by (rule less_le_trans)
  qed
next
  fix tr assume "tr \<in> set (tracks s')"
  then consider x where "x \<in> set outs" "to_track_id x = tr_id tr" "to_det x = tr_det tr" "tr_frames_unseen tr = 0"
    | old where "old \<in> set (tracks s)" "tr = aged old" "tr_id old \<notin> ids outs"
    using post unfolding update_post_def ids_def by metis
  then show "\<exists>k<length (outs # h). tr_frames_unseen tr = int k
          \<and> (\<exists>y \<in> set ((outs # h) ! k). to_track_id y = tr_id tr \<and> to_det y = tr_det tr)
          \<and> (\<forall>i<k. tr_id tr \<notin> ids ((outs # h) ! i))"
  proof cases
    case 1
    then show ?thesis by (intro exI[of _ 0]) auto
  next
    case 2
    obtain k where k: "k < length h" "tr_frames_unseen old = int k" "\<forall>i<k. tr_id old \<notin> ids (h ! i)"
        "\<exists>y \<in> set (h ! k). to_track_id y = tr_id old \<and> to_det y = tr_det old"
      using h 2(1) unfolding history_def by blast
    have "tr_id tr \<notin> ids ((outs # h) ! i)" if "i < Suc k" for i
      using that k(3) 2 by (cases i) (auto simp: aged_def)
    then show ?thesis using k 2 by (intro exI[of _ "Suc k"]) (auto simp: aged_def)
  qed
qed

lemma boxes_ok_split: "boxes_ok ts dets \<longleftrightarrow> boxes_ok ts [] \<and> list_all box_ok dets"
  by (auto simp: boxes_ok_def)

lemma rev_take_Cons: "rev (take (Suc j) (x # xs)) = rev (take j xs) @ [x]"
  by simp

definition total_dets :: "(u64 \<times> tracker_detection list) list \<Rightarrow> nat" where
  "total_dets fs = sum_list (map (length \<circ> snd) fs)"

lemma tracker_run_identified:
  assumes "tracker_inv s" "boxes_ok (tracks s) []" "history h s"
    and "list_all (list_all box_ok \<circ> snd) fs" "unat (next_id s) + total_dets fs < 2 ^ 32"
  shows "\<exists>outss s'. tracker_run fs s = Some (outss, s') \<and> length outss = length fs
    \<and> (\<forall>j<length fs. map to_det (outss ! j) = snd (fs ! j) \<and> distinct (map to_track_id (outss ! j))
        \<and> (\<forall>x \<in> set (outss ! j). identified (rev (take j outss) @ h) x))"
  using assms
proof (induction fs arbitrary: s h)
  case (Cons f fs)
  obtain fid dets where f: "f = (fid, dets)" by (cases f)
  have ok: "boxes_ok (tracks s) dets" using Cons.prems(2,4) f by (subst boxes_ok_split) simp
  have b: "unat (next_id s) + length dets < 2 ^ 32" using Cons.prems(5) f by (simp add: total_dets_def)
  obtain outs s1 where up: "update fid dets s = Some (outs, s1)" and post: "update_post dets s outs s1"
    using update_sound[OF Cons.prems(1) ok b] by blast
  have p: "tracker_inv s1" "boxes_ok (tracks s1) []" "map to_det outs = dets" "distinct (map to_track_id outs)"
    using post by (simp_all add: update_post_def)
  have b1: "unat (next_id s1) + total_dets fs < 2 ^ 32"
    using post Cons.prems(5) f by (auto simp: update_post_def total_dets_def)
  obtain outss s' where run: "tracker_run fs s1 = Some (outss, s')" "length outss = length fs"
    and rest: "\<And>j. j < length fs \<Longrightarrow> map to_det (outss ! j) = snd (fs ! j)
        \<and> distinct (map to_track_id (outss ! j))
        \<and> (\<forall>x \<in> set (outss ! j). identified (rev (take j outss) @ outs # h) x)"
    using Cons.IH[OF p(1,2) history_step[OF Cons.prems(3) post] _ b1] Cons.prems(4) by auto
  have first: "\<forall>x \<in> set outs. identified h x"
    using history_identified[OF Cons.prems(1,3) post] by blast
  show ?case
  proof (intro exI conjI allI impI)
    show "tracker_run (f # fs) s = Some (outs # outss, s')" using up run f by simp
    show "length (outs # outss) = length (f # fs)" using run by simp
    fix j assume j: "j < length (f # fs)"
    show "map to_det ((outs # outss) ! j) = snd ((f # fs) ! j)"
      "distinct (map to_track_id ((outs # outss) ! j))"
      using j rest p f by (cases j; simp)+
    show "\<forall>x \<in> set ((outs # outss) ! j). identified (rev (take j (outs # outss)) @ h) x"
      using j rest first by (cases j) simp_all
  qed
qed simp

section \<open>Properties\<close>

text \<open>C18: seen as a map from ids to tracks, an update is the specified step: the ids reported hold
  their detection and were not missed, every other id has been missed one frame more and is gone
  once missed more than 30 times. The detections are reported once each, in order, under distinct
  ids, and an id that was not live is new.\<close>

theorem tracker_refines:
  assumes "tracker_inv s" "boxes_ok (tracks s) dets" "unat (next_id s) + length dets < 2 ^ 32"
  shows "\<exists>outs s'. update fid dets s = Some (outs, s')
    \<and> live (tracks s') = live_step outs (live (tracks s))
    \<and> map to_det outs = dets \<and> distinct (map to_track_id outs)
    \<and> (\<forall>x \<in> set outs. to_track_id x \<in> dom (live (tracks s))
         \<or> next_id s \<le> to_track_id x \<and> to_track_id x < next_id s')
    \<and> tracker_inv s' \<and> boxes_ok (tracks s') []"
proof -
  obtain outs s' where up: "update fid dets s = Some (outs, s')" and post: "update_post dets s outs s'"
    using update_sound[OF assms] by blast
  have "distinct (map tr_id (tracks s))" using assms(1) by (simp add: tracker_inv_def)
  then have "to_track_id x \<in> dom (live (tracks s))" if "tr \<in> set (tracks s)" "continues tr x" for tr x
    using that by (auto simp: live_iff dom_def continues_def)
  then have origin: "\<forall>x \<in> set outs. to_track_id x \<in> dom (live (tracks s))
         \<or> next_id s \<le> to_track_id x \<and> to_track_id x < next_id s'"
    using post unfolding update_post_def by blast
  show ?thesis
    using up origin live_refines[OF assms(1) post] post
    by (intro exI[of _ outs] exI[of _ s']) (simp add: update_post_def)
qed

text \<open>C20: over any run of frames from a new tracker with fewer than 2^32 - 1 detections, every
  detection is reported once, in order; the ids of a frame are distinct; and an id is either
  reported for the first time or continues the last detection reported under it, which has the
  same class, overlaps by more than the threshold and is at most 31 frames old.\<close>

theorem track_ids_identify:
  assumes "list_all (list_all box_ok \<circ> snd) fs" "total_dets fs < 2 ^ 32 - 1"
  shows "\<exists>outss s. tracker_run fs make_tracker = Some (outss, s) \<and> length outss = length fs
    \<and> (\<forall>j<length fs. map to_det (outss ! j) = snd (fs ! j) \<and> distinct (map to_track_id (outss ! j))
        \<and> (\<forall>x \<in> set (outss ! j). identified (rev (take j outss)) x))"
proof -
  have "tracker_inv make_tracker" "boxes_ok (tracks make_tracker) []" "history [] make_tracker"
    by (simp_all add: make_tracker_def tracker_inv_def boxes_ok_def history_def)
  from tracker_run_identified[OF this assms(1)] show ?thesis
    using assms(2) by (simp add: make_tracker_def)
qed

lemma tracker_refines_witness:
  "\<exists>outs s'. update 8 [sample_box 2 0] sample_tracker = Some (outs, s')
     \<and> live (tracks s') = live_step outs (live (tracks sample_tracker)) \<and> map to_det outs = [sample_box 2 0]"
proof -
  have a: "tracker_inv sample_tracker" by (simp add: tracker_inv_def sample_tracker_def)
  have b: "boxes_ok (tracks sample_tracker) [sample_box 2 0]"
    by (simp add: boxes_ok_def sample_box_ok sample_tracker_def)
  have c: "unat (next_id sample_tracker) + length [sample_box 2 0] < 2 ^ 32"
    by (simp add: sample_tracker_def)
  show ?thesis using tracker_refines[OF a b c, of 8] by metis
qed

lemma track_ids_identify_witness:
  "\<exists>outss s. tracker_run [(1, [sample_box 0 0]), (2, [sample_box 2 0, sample_box 50 50])] make_tracker
     = Some (outss, s) \<and> length outss = 2"
  using track_ids_identify[of "[(1, [sample_box 0 0]), (2, [sample_box 2 0, sample_box 50 50])]"]
  by (auto simp: sample_box_ok total_dets_def)

end
