(* ===== verification/Bytetrack_Service.thy ===== *)
theory Bytetrack_Service
  imports Service Tracker_Ids
begin

text \<open>
  \<open>tracker/src/bytetrack_service.cc\<close>: from the data plane to the tracks plane. The service only
  knows the interface of \<open>bytetrack_adapter.h\<close>, a locale here; what it sends is proved once for
  every tracker that keeps the contract, and the IOU tracker of the repository does.
\<close>

section \<open>Records\<close>

definition zero_det :: tracker_detection where
  "zero_det = \<lparr>td_class_name = replicate 16 NUL, td_confidence = Fin 0, td_left = 0, td_top = 0,
     td_right = 0, td_bottom = 0\<rparr>"

text \<open>The copy of a wire record into the vector of detections.\<close>

definition det_of_wire :: "wire_detection \<Rightarrow> tracker_detection" where
  "det_of_wire r = \<lparr>td_class_name = wd_class_name r, td_confidence = wd_confidence r,
     td_left = wd_left r, td_top = wd_top r, td_right = wd_right r, td_bottom = wd_bottom r\<rparr>"

text \<open>The vector has \<open>hdr.count\<close> detections, zero but for those a record was read for.\<close>

definition frame_dets :: "wire_frame_header \<Rightarrow> wire_detection list \<Rightarrow> tracker_detection list" where
  "frame_dets hdr rs = map det_of_wire rs @ replicate (unat (wh_count hdr) - length rs) zero_det"

text \<open>\<open>send_tracks\<close>: the record of an output, in a zeroed \<open>WireTrackRecord\<close>.\<close>

definition wire_of_output :: "tracker_output \<Rightarrow> wire_track" where
  "wire_of_output x = \<lparr>wt_class_name = strncpy (td_class_name (to_det x)) 15 @ [NUL],
     wt_confidence = td_confidence (to_det x), wt_left = td_left (to_det x), wt_top = td_top (to_det x),
     wt_right = td_right (to_det x), wt_bottom = td_bottom (to_det x), wt_track_id = to_track_id x\<rparr>"

section \<open>The service\<close>

text \<open>Any tracker: \<open>IByteTracker::update\<close> on a state of its own.\<close>

type_synonym 's tracker_update =
  "u64 \<Rightarrow> tracker_detection list \<Rightarrow> 's \<Rightarrow> (tracker_output list \<times> 's) option"

definition bytetrack_handle :: "'s tracker_update \<Rightarrow> (wire_detection, wire_track, 's) handler" where
  "bytetrack_handle upd hdr rs tracker =
     do {
       (outs, tracker) \<leftarrow> upd (wh_frame_id hdr) (frame_dets hdr rs) tracker;
       Some (map wire_of_output outs, tracker)
     }"

definition bytetrack :: "'s tracker_update \<Rightarrow> (wire_detection, wire_track, 's) service" where
  "bytetrack upd = \<lparr>sv_dec = dec_detection, sv_in_size = sizeof_WireDetectionRecord,
     sv_enc = enc_track, sv_out_size = sizeof_WireTrackRecord, sv_handle = bytetrack_handle upd\<rparr>"

text \<open>One iteration of the frame loop, and \<open>main\<close>.\<close>

definition bytetrack_turn ::
  "'s tracker_update \<Rightarrow> 's \<Rightarrow> consumer \<Rightarrow> delivery list \<Rightarrow> 's turn option" where
  "bytetrack_turn upd = service_turn (bytetrack upd)"

definition bytetrack_loop ::
  "'s tracker_update \<Rightarrow> sink list list \<Rightarrow> 's \<Rightarrow> consumer \<Rightarrow> delivery list
   \<Rightarrow> ('s \<times> consumer \<times> input_end option) option" where
  "bytetrack_loop upd = service_loop (bytetrack upd)"

definition bytetrack_main ::
  "bool \<Rightarrow> (sink list list \<times> delivery list) attempt list \<Rightarrow> sink list \<Rightarrow> (iou_tracker \<times> consumer) option"
where
  "bytetrack_main out_ok as ks =
     (if \<not> out_ok then Some (make_tracker, \<lparr>co_conn = None, co_backlog = ks, co_closed = []\<rparr>)
      else service_main (bytetrack update) as make_tracker
        \<lparr>co_conn = None, co_backlog = ks, co_closed = []\<rparr>)"

section \<open>What a frame becomes\<close>

text \<open>A frame of wire records and the frame of tracks sent for it.\<close>

definition tracked ::
  "wire_frame_header \<times> wire_detection list \<Rightarrow> wire_frame_header \<times> wire_track list \<Rightarrow> bool" where
  "tracked f g \<longleftrightarrow> fst g = fst f \<and> distinct (map wt_track_id (snd g))
     \<and> map (\<lambda>t. (wt_confidence t, wt_left t, wt_top t, wt_right t, wt_bottom t)) (snd g)
        = map (\<lambda>d. (wd_confidence d, wd_left d, wd_top d, wd_right d, wd_bottom d)) (snd f)
     \<and> map (cstr \<circ> wt_class_name) (snd g) = map (take 15 \<circ> cstr \<circ> wd_class_name) (snd f)"

lemma tracked_length: "tracked f g \<Longrightarrow> length (snd g) = length (snd f)"
  unfolding tracked_def by (metis length_map)

fun total_records :: "(wire_frame_header \<times> 'r list) list \<Rightarrow> nat" where
  "total_records [] = 0"
| "total_records ((h, rs) # fs) = length rs + total_records fs"

text \<open>A frame as the detector sends it.\<close>

definition frame_ok :: "wire_frame_header \<times> wire_detection list \<Rightarrow> bool" where
  "frame_ok f \<longleftrightarrow> (case f of (h, rs) \<Rightarrow> wf_header h \<and> unat (wh_count h) = length rs
     \<and> list_all wf_detection rs \<and> list_all (box_ok \<circ> det_of_wire) rs)"

section \<open>The tracker contract\<close>

text \<open>
  What the service relies on: on boxes whose sides fit an int, and while the tracker has ids left
  (\<open>inv n\<close>: for n more detections), an update is defined and reports each detection once, in
  order, under distinct ids.
\<close>

locale object_tracker =
  fixes upd :: "'s tracker_update" and inv :: "nat \<Rightarrow> 's \<Rightarrow> bool"
  assumes upd_ok: "inv (length dets + n) st \<Longrightarrow> list_all box_ok dets \<Longrightarrow>
    \<exists>outs st'. upd fid dets st = Some (outs, st') \<and> inv n st' \<and> map to_det outs = dets
      \<and> distinct (map to_track_id outs)"
begin

lemma tracked_wire:
  assumes outs: "map to_det outs = map det_of_wire rs" "distinct (map to_track_id outs)"
  shows "tracked (h, rs) (h, map wire_of_output outs)"
proof -
  have len: "length outs = length rs" using arg_cong[OF outs(1), of length] by simp
  have nth: "to_det (outs ! i) = det_of_wire (rs ! i)" if "i < length rs" for i
    using arg_cong[OF outs(1), of "\<lambda>l. l ! i"] that len by simp
  have "cstr (s @ [NUL]) = cstr s" for s :: string by (induction s) (simp_all add: cstr_def)
  then have "cstr (strncpy s 15 @ [NUL]) = take 15 (cstr s)" for s :: string
    by (simp add: cstr_strncpy)
  then show ?thesis
    using len nth outs(2)
    by (simp add: tracked_def list_eq_iff_nth_eq wire_of_output_def det_of_wire_def comp_def)
qed

lemma wf_wire_of_output:
  "wf_detection r \<Longrightarrow> to_det x = det_of_wire r \<Longrightarrow> wf_track (wire_of_output x)"
  by (simp add: wire_of_output_def wf_track_def wf_detection_def det_of_wire_def)

lemma handle_run_tracked:
  "inv (total_records fs) st \<Longrightarrow> list_all frame_ok fs \<Longrightarrow>
   \<exists>os st'. handle_run (bytetrack_handle upd) fs st = Some (os, st') \<and> list_all2 tracked fs os
     \<and> (\<forall>(h, rs) \<in> set os. wf_header h \<and> unat (wh_count h) = length rs \<and> (\<forall>r \<in> set rs. wf_track r))"
proof (induction fs arbitrary: st)
  case (Cons f fs)
  obtain h rs where f: "f = (h, rs)" by (cases f)
  have ok: "wf_header h" "unat (wh_count h) = length rs" "list_all wf_detection rs"
      "list_all box_ok (map det_of_wire rs)"
    using Cons.prems(2) by (simp_all add: f frame_ok_def list_all_iff)
  have dets: "frame_dets h rs = map det_of_wire rs" using ok(2) by (simp add: frame_dets_def)
  obtain outs st1 where up: "upd (wh_frame_id h) (map det_of_wire rs) st = Some (outs, st1)"
      and st1: "inv (total_records fs) st1"
      and outs: "map to_det outs = map det_of_wire rs" "distinct (map to_track_id outs)"
    using upd_ok[of "map det_of_wire rs" "total_records fs" st "wh_frame_id h"]
      Cons.prems(1) ok(4) by (auto simp: f)
  obtain os st' where run: "handle_run (bytetrack_handle upd) fs st1 = Some (os, st')" "list_all2 tracked fs os"
      "\<forall>(h, rs) \<in> set os. wf_header h \<and> unat (wh_count h) = length rs \<and> (\<forall>r \<in> set rs. wf_track r)"
    using Cons.IH[OF st1] Cons.prems(2) by auto
  have len: "length outs = length rs" using arg_cong[OF outs(1), of length] by simp
  have "(of_nat (length outs) :: u16) = wh_count h" using len ok(2)[symmetric] by simp
  then have "h\<lparr>wh_count := of_nat (length outs)\<rparr> = h" by simp
  moreover have "wf_track t" if "t \<in> wire_of_output ` set outs" for t
  proof -
    obtain i where i: "i < length outs" "t = wire_of_output (outs ! i)"
      using \<open>t \<in> wire_of_output ` set outs\<close> by (auto simp: in_set_conv_nth)
    have "to_det (outs ! i) = det_of_wire (rs ! i)"
      using arg_cong[OF outs(1), of "\<lambda>l. l ! i"] i len by simp
    then show ?thesis using wf_wire_of_output[of "rs ! i"] ok(3) i len by (simp add: list_all_length)
  qed
  moreover have "bytetrack_handle upd h rs st = Some (map wire_of_output outs, st1)"
    using up by (simp add: bytetrack_handle_def dets)
  ultimately have "handle_run (bytetrack_handle upd) (f # fs) st = Some ((h, map wire_of_output outs) # os, st')"
    and "\<forall>(h, rs) \<in> set ((h, map wire_of_output outs) # os).
      wf_header h \<and> unat (wh_count h) = length rs \<and> (\<forall>r \<in> set rs. wf_track r)"
    using run(1,3) ok(1,2) len by (simp_all add: f)
  moreover have "list_all2 tracked (f # fs) ((h, map wire_of_output outs) # os)"
    using run(2) tracked_wire[OF outs, of h] by (simp add: f)
  ultimately show ?case by blast
qed simp

end

interpretation iou: object_tracker update
  "\<lambda>n s. tracker_inv s \<and> boxes_ok (tracks s) [] \<and> unat (next_id s) + n < 2 ^ 32"
proof
  fix dets n s fid
  assume s: "tracker_inv s \<and> boxes_ok (tracks s) [] \<and> unat (next_id s) + (length dets + n) < 2 ^ 32"
    and b: "list_all box_ok dets"
  have ok: "boxes_ok (tracks s) dets" using s b by (subst boxes_ok_split) simp
  have lt: "unat (next_id s) + length dets < 2 ^ 32" using s by simp
  obtain outs s' where up: "update fid dets s = Some (outs, s')" and post: "update_post dets s outs s'"
    using update_sound[OF conjunct1[OF s] ok lt] by blast
  then show "\<exists>outs s'. update fid dets s = Some (outs, s')
      \<and> (tracker_inv s' \<and> boxes_ok (tracks s') [] \<and> unat (next_id s') + n < 2 ^ 32)
      \<and> map to_det outs = dets \<and> distinct (map to_track_id outs)"
    using s by (auto simp: update_post_def)
qed

section \<open>Properties\<close>

lemma length_stream_tracked:
  assumes "list_all2 tracked fs os"
    and "\<forall>(h, rs) \<in> set os. wf_header h \<and> unat (wh_count h) = length rs \<and> (\<forall>r \<in> set rs. wf_track r)"
  shows "length (stream_of enc_track sizeof_WireTrackRecord os) = 28 * length fs + 40 * total_records fs"
  using assms
proof (induction rule: list_all2_induct)
  case (Cons f fs g os)
  obtain h rs h' ts where fg: "f = (h, rs)" "g = (h', ts)" by (cases f, cases g)
  have "length ts = length rs"
    using tracked_length[OF Cons.hyps(1)] by (simp add: fg)
  moreover have "length (concat (map enc_track ts)) = sizeof_WireTrackRecord * length ts"
    using Cons.prems fg by (intro trk.length_enc_all) auto
  moreover have "length (enc_header h') = sizeof_WireFrameHeader"
    using Cons.prems fg by (intro hdr.length_enc_rec) auto
  ultimately show ?case
    using Cons by (simp add: fg frame_bytes_def codec_simps sizeof_WireTrackRecord_def sizeof_WireFrameHeader_def)
qed simp

text \<open>C9: end to end on the tracks plane: while one consumer is connected, the service receives each
  frame the detector sent and the consumer's receive loop decodes, frame by frame, the same
  header, boxes, confidences and class names, each with an id of its own, however the two streams
  are chunked.\<close>

theorem detections_to_tracks:
  assumes fs: "list_all frame_ok fs" "\<forall>f \<in> set fs. length (snd f) \<le> kMaxDetections"
      "total_records fs < 2 ^ 32 - 1"
    and s: "avail s = stream_of enc_detection sizeof_WireDetectionRecord fs" "length fs < length kss"
    and k: "co_conn c = Some k" "sent k = []" "takes (28 * length fs + 40 * total_records fs) k"
  shows "\<exists>st c' k' os. bytetrack_loop update kss make_tracker c s = Some (st, c', Some Input_closed)
    \<and> co_conn c' = Some k' \<and> list_all2 tracked fs os
    \<and> (\<forall>s'. avail s' = sent k' \<longrightarrow> tracks_receiveLoop s' = (os, Closed))"
proof -
  have "tracker_inv make_tracker \<and> boxes_ok (tracks make_tracker) []
      \<and> unat (next_id make_tracker) + total_records fs < 2 ^ 32"
    using fs(3) by (simp add: make_tracker_def tracker_inv_def boxes_ok_def)
  then obtain os st where run: "handle_run (bytetrack_handle update) fs make_tracker = Some (os, st)"
      and os: "list_all2 tracked fs os"
      "\<forall>(h, rs) \<in> set os. wf_header h \<and> unat (wh_count h) = length rs \<and> (\<forall>r \<in> set rs. wf_track r)"
    using iou.handle_run_tracked[OF _ fs(1), of make_tracker] by blast
  have v: "sv_dec (bytetrack update) = dec_detection" "sv_in_size (bytetrack update) = sizeof_WireDetectionRecord"
      "sv_handle (bytetrack update) = bytetrack_handle update" "sv_enc (bytetrack update) = enc_track"
      "sv_out_size (bytetrack update) = sizeof_WireTrackRecord" "sizeof_WireDetectionRecord \<le> 200"
    by (simp_all add: bytetrack_def sizeof_WireDetectionRecord_def)
  have wf: "\<forall>(h, rs) \<in> set fs. wf_header h \<and> unat (wh_count h) = length rs \<and> (\<forall>r\<in>set rs. wf_detection r)"
    using fs(1) by (auto simp: list_all_iff frame_ok_def)
  have tk: "takes (length (stream_of (sv_enc (bytetrack update)) (sv_out_size (bytetrack update)) os)) k"
    using k(3) by (simp only: v length_stream_tracked[OF os])
  have run': "handle_run (sv_handle (bytetrack update)) fs make_tracker = Some (os, st)"
    using run by (simp add: v)
  obtain c' k' where loop: "bytetrack_loop update kss make_tracker c s = Some (st, c', Some Input_closed)"
      "co_conn c' = Some k'" "sent k' = stream_of enc_track sizeof_WireTrackRecord os"
    using det.service_loop_frames[OF v(1,2,6) wf run' s(1) k(1) tk s(2)] k(2)
    by (auto simp: bytetrack_loop_def v)
  have "length (snd g) \<le> kMaxDetections" if g: "g \<in> set os" for g
  proof -
    obtain f where "f \<in> set fs" "tracked f g" using os(1) g by (metis in_set_conv_nth list_all2_conv_all_nth)
    then show ?thesis using fs(2) tracked_length by metis
  qed
  then have "\<forall>(h, rs) \<in> set os. wf_header h \<and> unat (wh_count h) = length rs \<and> length rs \<le> kMaxDetections
      \<and> (\<forall>r \<in> set rs. wf_track r)" using os(2) by fastforce
  then have "\<forall>s'. avail s' = sent k' \<longrightarrow> tracks_receiveLoop s' = (os, Closed)"
    using trk.recv_loop_frames[of os] loop(3)
    by (simp add: tracks_receiveLoop_def stream_of_def sizeof_WireTrackRecord_def)
  then show ?thesis using loop os(1) by blast
qed

text \<open>A stream cut inside the records of a frame still updates the tracker and publishes a frame
  of the full count: the records that were not read are boxes of zeros, each reported under an id.
  The \<open>hdr.count = 0\<close> of the error branch has no effect.\<close>

theorem short_read_publishes_zeros:
  assumes h: "wf_header h" "length rs < unat (wh_count h)" "list_all wf_detection rs"
      "list_all (box_ok \<circ> det_of_wire) rs"
    and s: "avail s = enc_u32 (body_size sizeof_WireDetectionRecord (unat (wh_count h))) @ enc_header h
        @ concat (map enc_detection rs) @ part" "length part < sizeof_WireDetectionRecord"
    and st: "tracker_inv st" "boxes_ok (tracks st) []" "unat (next_id st) + unat (wh_count h) < 2 ^ 32"
  shows "\<exists>outs st' s'. bytetrack_turn update st c s = Some (Next st'
        (publish_step enc_track sizeof_WireTrackRecord h (map wire_of_output outs) c) s')
    \<and> map to_det outs = map det_of_wire rs @ replicate (unat (wh_count h) - length rs) zero_det
    \<and> distinct (map to_track_id outs)"
proof -
  let ?n = "unat (wh_count h)" and ?dets = "frame_dets h rs"
  have hl: "length (enc_header h) = sizeof_WireFrameHeader" using h(1) by (rule hdr.length_enc_rec)
  obtain s1 where r1: "readExact 4 s = (Some (enc_u32 (body_size sizeof_WireDetectionRecord ?n)), s1)"
    and a1: "avail s1 = enc_header h @ concat (map enc_detection rs) @ part"
    by (rule readExact_Some[of 4 s]) (auto simp: s(1))
  obtain s2 where r2: "readExact sizeof_WireFrameHeader s1 = (Some (enc_header h), s2)"
    and a2: "avail s2 = concat (map enc_detection rs) @ part"
    by (rule readExact_Some[of sizeof_WireFrameHeader s1]) (auto simp: a1 hl)
  have "?n < 2 ^ LENGTH(16)" by (rule unsigned_less)
  then have bs: "unat (body_size sizeof_WireDetectionRecord ?n) = sizeof_WireFrameHeader + ?n * sizeof_WireDetectionRecord"
    by (intro unat_body_size(1)) (simp_all add: sizeof_WireDetectionRecord_def)
  have uc: "(ucast (wh_count h) :: u32) = of_nat ?n" by simp
  have rh: "read_header sizeof_WireDetectionRecord s = (Inr h, s2)"
    using bs hdr.dec_enc_rec[OF h(1)]
    by (simp add: read_header_def r1 r2 Let_def codec_simps body_size_def uc del: of_nat_unat)
  obtain s' where rr: "read_records dec_detection sizeof_WireDetectionRecord ?n s2 = (rs, s')"
    using det.read_records_short[OF _ h(2) a2 s(2)] h(3) by (auto simp: list_all_iff)
  have dets: "?dets = map det_of_wire rs @ replicate (?n - length rs) zero_det"
    by (simp add: frame_dets_def)
  have "list_all box_ok ?dets"
    using h(4) by (auto simp: dets list_all_iff zero_det_def box_ok_def)
  moreover have "length ?dets = ?n" using h(2) by (simp add: dets)
  ultimately obtain outs st' where up: "update (wh_frame_id h) ?dets st = Some (outs, st')"
      "map to_det outs = ?dets" "distinct (map to_track_id outs)"
    using iou.upd_ok[of st ?dets 0 "wh_frame_id h"] st by auto
  then have "bytetrack_turn update st c s = Some (Next st'
      (publish_step enc_track sizeof_WireTrackRecord h (map wire_of_output outs) c) s')"
    using rh rr by (simp add: bytetrack_turn_def bytetrack_def service_turn_def bytetrack_handle_def)
  then show ?thesis using up dets by auto
qed

definition sample_frame :: "wire_frame_header \<times> wire_detection list" where
  "sample_frame = (\<lparr>wh_frame_id = 7, wh_timestamp_us = 9, wh_count = 1, wh_reserved = replicate 6 0\<rparr>,
     [\<lparr>wd_class_name = ''person'' @ replicate 10 NUL, wd_confidence = Fin 0, wd_left = 1, wd_top = 2,
       wd_right = 11, wd_bottom = 12\<rparr>])"

lemma frame_ok_sample: "frame_ok sample_frame"
  by (simp add: sample_frame_def frame_ok_def wf_header_def wf_detection_def det_of_wire_def box_ok_def)

lemma detections_to_tracks_witness:
  "\<exists>st c' k' os. bytetrack_loop update [[], []] make_tracker
      \<lparr>co_conn = Some \<lparr>sent = [], accepts = replicate 68 64\<rparr>, co_backlog = [], co_closed = []\<rparr>
      [Data (stream_of enc_detection sizeof_WireDetectionRecord [sample_frame])]
        = Some (st, c', Some Input_closed)
    \<and> co_conn c' = Some k' \<and> list_all2 tracked [sample_frame] os"
proof -
  have n: "total_records [sample_frame] = 1" "length (snd sample_frame) = 1"
    by (simp_all add: sample_frame_def)
  have tk: "takes (28 * length [sample_frame] + 40 * total_records [sample_frame])
      \<lparr>sent = [], accepts = replicate 68 64\<rparr>"
    by (simp only: n) (simp add: takes_def)
  show ?thesis
    using detections_to_tracks[of "[sample_frame]"
        "[Data (stream_of enc_detection sizeof_WireDetectionRecord [sample_frame])]" "[[], []]"
        "\<lparr>co_conn = Some \<lparr>sent = [], accepts = replicate 68 64\<rparr>, co_backlog = [], co_closed = []\<rparr>"
        "\<lparr>sent = [], accepts = replicate 68 64\<rparr>", OF _ _ _ avail_one _ _ _ tk] n
    by (auto simp: frame_ok_sample kMaxDetections_def)
qed

lemma short_read_publishes_zeros_witness:
  "\<exists>outs st' s'. bytetrack_turn update make_tracker \<lparr>co_conn = None, co_backlog = [], co_closed = []\<rparr>
      [Data (enc_u32 (body_size sizeof_WireDetectionRecord 1) @ enc_header (fst sample_frame))]
      = Some (Next st' (publish_step enc_track sizeof_WireTrackRecord (fst sample_frame)
          (map wire_of_output outs) \<lparr>co_conn = None, co_backlog = [], co_closed = []\<rparr>) s')
    \<and> map to_det outs = [zero_det]"
proof -
  have u: "unat (wh_count (fst sample_frame)) = 1" by (simp add: sample_frame_def)
  have a: "avail [Data (enc_u32 (body_size sizeof_WireDetectionRecord 1) @ enc_header (fst sample_frame))]
      = enc_u32 (body_size sizeof_WireDetectionRecord (unat (wh_count (fst sample_frame))))
        @ enc_header (fst sample_frame) @ concat (map enc_detection []) @ []"
    by (simp add: u)
  have h: "wf_header (fst sample_frame)" by (simp add: sample_frame_def wf_header_def)
  have st: "tracker_inv make_tracker" "boxes_ok (tracks make_tracker) []"
      "unat (next_id make_tracker) + unat (wh_count (fst sample_frame)) < 2 ^ 32"
    by (simp_all add: make_tracker_def tracker_inv_def boxes_ok_def u)
  have lt: "length ([] :: wire_detection list) < unat (wh_count (fst sample_frame))"
      "length ([] :: bytes) < sizeof_WireDetectionRecord"
    by (simp_all add: u sizeof_WireDetectionRecord_def)
  have rs: "list_all wf_detection []" "list_all (box_ok \<circ> det_of_wire) []" by simp_all
  show ?thesis
    using short_read_publishes_zeros[OF h lt(1) rs a lt(2) st,
        where c = "\<lparr>co_conn = None, co_backlog = [], co_closed = []\<rparr>"]
    by (elim exE conjE) (intro exI conjI, assumption, simp add: u)
qed

end
