(* ===== verification/Float_Sqrt.thy ===== *)
theory Float_Sqrt
  imports Float_Bounds
begin

text \<open>
  \<open>std::sqrt\<close>: IEEE-754 requires the correctly rounded root. The root of the value scaled by
  \<open>4 ^ k\<close> is taken in the integers with k large enough for two bits beyond the significand; half
  a unit is added when it is not exact, which keeps the rounding on the right side.
\<close>

fun isqrt :: "nat \<Rightarrow> nat" where
  "isqrt n = (if n = 0 then 0
     else let r = 2 * isqrt (n div 4) in if (r + 1)\<^sup>2 \<le> n then r + 1 else r)"

declare isqrt.simps [simp del]

lemma isqrt_bounds: "(isqrt n)\<^sup>2 \<le> n \<and> n < (isqrt n + 1)\<^sup>2"
proof (induction n rule: isqrt.induct)
  case (1 n)
  show ?case
  proof (cases "n = 0")
    case False
    define q where "q = isqrt (n div 4)"
    have q: "q\<^sup>2 \<le> n div 4" "n div 4 < (q + 1)\<^sup>2" using 1[OF False] by (simp_all add: q_def)
    have "(2 * q)\<^sup>2 \<le> n" using q(1) by (simp add: power_mult_distrib)
    moreover have "n < (2 * q + 2)\<^sup>2"
    proof -
      have "n div 4 + 1 \<le> (q + 1)\<^sup>2" using q(2) by simp
      then have "4 * (n div 4 + 1) \<le> 4 * (q + 1)\<^sup>2" by simp
      moreover have "n < 4 * (n div 4 + 1)" by simp
      moreover have "(2 * q + 2)\<^sup>2 = 4 * (q + 1)\<^sup>2" by (simp add: power2_eq_square algebra_simps)
      ultimately show ?thesis by linarith
    qed
    ultimately show ?thesis
      using False by (subst (1 2) isqrt.simps) (simp add: Let_def flip: q_def)
  qed (simp add: isqrt.simps)
qed

definition sqrt_scale :: "prec \<Rightarrow> rat \<Rightarrow> nat" where
  "sqrt_scale p v = nat (int (mbits p) + 3 - ilog2 v div 2)"

definition root_approx :: "nat \<Rightarrow> rat \<Rightarrow> rat" where
  "root_approx k v =
     (let r = isqrt (nat \<lfloor>v * 4 ^ k\<rfloor>)
      in (of_nat r + (if of_nat (r\<^sup>2) = v * 4 ^ k then 0 else 1 / 2)) / 2 ^ k)"

fun fsqrt :: "prec \<Rightarrow> fp \<Rightarrow> fp" where
  "fsqrt p NaN = NaN"
| "fsqrt p NZero = NZero"
| "fsqrt p (Inf s) = (if s then NaN else Inf False)"
| "fsqrt p (Fin v) = (if v < 0 then NaN else if v = 0 then Fin 0
     else fround p False (root_approx (sqrt_scale p v) v))"

lemma root_approx_bounds:
  assumes v: "0 \<le> v" "v \<le> of_nat b ^ 2"
  shows "0 \<le> root_approx k v" "root_approx k v \<le> of_nat b"
proof -
  define s where "s = nat \<lfloor>v * 4 ^ k\<rfloor>"
  define r where "r = isqrt s"
  have s: "of_nat s \<le> v * 4 ^ k"
    using v(1) by (simp add: s_def of_nat_nat)
  have rs: "r\<^sup>2 \<le> s" using isqrt_bounds[of s] by (simp add: r_def)
  have "rat_of_nat (r\<^sup>2) \<le> of_nat s" using rs by (simp only: of_nat_le_iff)
  then have rv: "rat_of_nat (r\<^sup>2) \<le> v * 4 ^ k" using s by linarith
  have pow: "(4::rat) ^ k = (2 ^ k)\<^sup>2" by (simp add: power_mult [symmetric] mult.commute[of k] power2_eq_square flip: power_mult_distrib)
  have vb: "v * 4 ^ k \<le> of_nat ((b * 2 ^ k)\<^sup>2)"
    using v(2) by (simp add: pow power_mult_distrib mult_right_mono)
  have le: "r \<le> b * 2 ^ k"
  proof -
    have "rat_of_nat (r\<^sup>2) \<le> of_nat ((b * 2 ^ k)\<^sup>2)" using rv vb by linarith
    then have "r\<^sup>2 \<le> (b * 2 ^ k)\<^sup>2" by (simp only: of_nat_le_iff)
    then show ?thesis by (rule power2_le_imp_le) simp
  qed
  let ?h = "if of_nat (r\<^sup>2) = v * 4 ^ k then 0 else 1 / 2 :: rat"
  have eq: "root_approx k v = (of_nat r + ?h) / 2 ^ k"
    by (simp add: root_approx_def Let_def r_def s_def)
  show "0 \<le> root_approx k v" by (simp add: eq)
  have "rat_of_nat r + ?h \<le> of_nat (b * 2 ^ k)"
  proof (cases "of_nat (r\<^sup>2) = v * 4 ^ k")
    case True
    have "rat_of_nat r \<le> of_nat (b * 2 ^ k)" using le by (simp only: of_nat_le_iff)
    with True show ?thesis by simp
  next
    case False
    then have "r \<noteq> b * 2 ^ k" using rv vb by auto
    then have "r + 1 \<le> b * 2 ^ k" using le by simp
    then have "rat_of_nat (r + 1) \<le> of_nat (b * 2 ^ k)" by (simp only: of_nat_le_iff)
    then show ?thesis using False by simp
  qed
  then show "root_approx k v \<le> of_nat b" by (simp add: eq pos_divide_le_eq)
qed

lemma fin_in_fsqrt:
  assumes x: "fin_in 0 (of_nat b ^ 2) x" and b: "bound p (of_nat b)"
  shows "fin_in 0 (of_nat b) (fsqrt p x)"
proof (cases x)
  case (Fin v)
  then have v: "0 \<le> v" "v \<le> of_nat b ^ 2" using x by (simp_all add: fin_in_def)
  have "fin_in 0 (of_nat b) (fround p False (root_approx (sqrt_scale p v) v))"
    by (rule fround_bounds(1)[OF root_approx_bounds[OF v] bound_simps(1) b])
  then show ?thesis using Fin v by (auto simp: fin_in_def)
qed (use x in \<open>simp_all add: fin_in_def\<close>)

text \<open>On squares the root is exact.\<close>

lemma isqrt_square: "isqrt (n\<^sup>2) = n"
proof -
  have "(isqrt (n\<^sup>2))\<^sup>2 \<le> n\<^sup>2" "n\<^sup>2 < (isqrt (n\<^sup>2) + 1)\<^sup>2" using isqrt_bounds[of "n\<^sup>2"] by auto
  then have "isqrt (n\<^sup>2) \<le> n" "n < isqrt (n\<^sup>2) + 1"
    using power2_le_imp_le power_less_imp_less_base by blast+
  then show ?thesis by simp
qed

lemma fsqrt_square:
  assumes "0 < n" "n \<le> 2 ^ mbits p"
  shows "fsqrt p (Fin (of_nat n ^ 2)) = Fin (of_nat n)"
proof -
  let ?v = "of_nat n ^ 2 :: rat" and ?k = "sqrt_scale p (of_nat n ^ 2)"
  have sq: "?v * 4 ^ ?k = of_nat ((n * 2 ^ ?k)\<^sup>2)"
    by (simp add: power_mult_distrib power_mult [symmetric] mult.commute[of _ 2])
      (simp add: power_mult)
  have "root_approx ?k ?v = of_nat n"
    by (simp only: root_approx_def sq floor_of_nat nat_int isqrt_square Let_def) simp
  moreover have "fround p False (of_int (int n)) = Fin (of_int (int n))"
    using assms(2) by (intro fround_int) simp
  ultimately show ?thesis using assms(1) by simp
qed

end
