(* ===== verification/Track_State.thy ===== *)
theory Track_State
  imports Float_Sqrt Wire_Protocol "HOL-Library.Monad_Syntax"
begin

text \<open>
  \<open>temporal/src/track_state.cc\<close>: the features of one tracked target, updated from each observation
  in single precision. \<open>std::atan2\<close>, whose result depends on the C library, is a parameter; the
  root is the one IEEE-754 requires. Differences of coordinates that overflow \<open>int\<close> are undefined
  behaviour.

  The lemmas bound every feature for any sequence of observations and missed frames, and relate the
  region-of-interest events to the membership they report.
\<close>

section \<open>Data\<close>

record observation =
  ob_timestamp_us :: u64
  ob_cx :: i32
  ob_cy :: i32
  ob_left :: i32
  ob_top :: i32
  ob_right :: i32
  ob_bottom :: i32

record roi =
  roi_left :: i32
  roi_top :: i32
  roi_right :: i32
  roi_bottom :: i32
  roi_enabled :: bool

definition roi_contains :: "roi \<Rightarrow> i32 \<Rightarrow> i32 \<Rightarrow> bool" where
  "roi_contains r x y \<longleftrightarrow> roi_enabled r \<and> sint (roi_left r) \<le> sint x \<and> sint x < sint (roi_right r)
     \<and> sint (roi_top r) \<le> sint y \<and> sint y < sint (roi_bottom r)"

definition kHistoryMax :: nat where "kHistoryMax = 16"
definition kEmaAlpha :: fp where "kEmaAlpha = Fin (1 / 2)"
definition kLoiterRadius :: int where "kLoiterRadius = 25"
definition kTentativeFrames :: u32 where "kTentativeFrames = 3"

record track_state =
  ts_track_id :: u32
  ts_class_name :: string \<comment> \<open>\<open>char[16]\<close>\<close>
  ts_first_seen_us :: u64
  ts_last_seen_us :: u64
  ts_frames_seen :: u32
  ts_frames_since_first :: u32
  ts_frames_missed :: u32
  ts_last :: observation
  ts_history :: "observation list"
  ts_vx :: fp
  ts_vy :: fp
  ts_prev_speed :: fp
  ts_accel :: fp
  ts_loiter_score :: fp
  ts_in_roi :: bool
  ts_prev_in_roi :: bool
  ts_roi_entered :: bool
  ts_roi_exited :: bool

definition zero_obs :: observation where
  "zero_obs = \<lparr>ob_timestamp_us = 0, ob_cx = 0, ob_cy = 0, ob_left = 0, ob_top = 0, ob_right = 0, ob_bottom = 0\<rparr>"

definition ts_new :: "u32 \<Rightarrow> string \<Rightarrow> u64 \<Rightarrow> track_state" where
  "ts_new track_id class_name first_seen_us =
     \<lparr>ts_track_id = track_id, ts_class_name = strncpy class_name 15 @ [NUL],
      ts_first_seen_us = first_seen_us, ts_last_seen_us = 0, ts_frames_seen = 0,
      ts_frames_since_first = 0, ts_frames_missed = 0, ts_last = zero_obs, ts_history = [],
      ts_vx = Fin 0, ts_vy = Fin 0, ts_prev_speed = Fin 0, ts_accel = Fin 0, ts_loiter_score = Fin 0,
      ts_in_roi = False, ts_prev_in_roi = False, ts_roi_entered = False, ts_roi_exited = False\<rparr>"

section \<open>Accessors\<close>

definition duration_ms :: "track_state \<Rightarrow> u32" where
  "duration_ms s = (if ts_last_seen_us s \<le> ts_first_seen_us s then 0
     else ucast ((ts_last_seen_us s - ts_first_seen_us s) div 1000))"

definition visibility :: "track_state \<Rightarrow> fp" where
  "visibility s = (if ts_frames_since_first s = 0 then Fin 0
     else fdiv F32 (fof_int F32 (uint (ts_frames_seen s))) (fof_int F32 (uint (ts_frames_since_first s))))"

definition speed :: "track_state \<Rightarrow> fp" where
  "speed s = fsqrt F32 (fadd F32 (fmul F32 (ts_vx s) (ts_vx s)) (fmul F32 (ts_vy s) (ts_vy s)))"

definition f1em3 :: fp where "f1em3 = fround F32 False (1 / 1000)"

text \<open>\<open>3.14159265358979323846f\<close>, the single nearest to pi.\<close>

definition pi_f :: fp where "pi_f = fround F32 False (314159265358979323846 / 10 ^ 20)"

definition heading_deg :: "(fp \<Rightarrow> fp \<Rightarrow> fp) \<Rightarrow> track_state \<Rightarrow> fp" where
  "heading_deg atan2f s =
     (if flt (fabs (ts_vx s)) f1em3 \<and> flt (fabs (ts_vy s)) f1em3 then Fin 0
      else fdiv F32 (fmul F32 (atan2f (ts_vy s) (ts_vx s)) (Fin 180)) pi_f)"

definition status :: "track_state \<Rightarrow> u8" where
  "status s = (if 0 < ts_frames_missed s then 2
     else if ts_frames_seen s < kTentativeFrames then 0 else 1)"

section \<open>Missed frames\<close>

definition mark_missed :: "track_state \<Rightarrow> track_state" where
  "mark_missed s = s\<lparr>ts_frames_missed := ts_frames_missed s + 1,
     ts_frames_since_first := ts_frames_since_first s + 1,
     ts_roi_entered := False, ts_roi_exited := False\<rparr>"

section \<open>Observations\<close>

text \<open>The stages of \<open>TrackState::update\<close>, in its order. \<open>first\<close> is the flag computed on entry, \<open>dt\<close>
  the time since the last observation in seconds: an unsigned 64-bit difference, converted.\<close>

definition f1em6 :: fp where "f1em6 = fround F32 False (1 / 1000000)"
definition f1em4 :: fp where "f1em4 = fround F32 False (1 / 10000)"

definition ts_dt :: "observation \<Rightarrow> observation \<Rightarrow> fp" where
  "ts_dt obs prev = fmul F32 (fof_int F32 (uint (ob_timestamp_us obs - ob_timestamp_us prev))) f1em6"

definition ts_bookkeeping :: "observation \<Rightarrow> track_state \<Rightarrow> track_state" where
  "ts_bookkeeping obs s = s\<lparr>ts_frames_seen := ts_frames_seen s + 1,
     ts_frames_since_first := ts_frames_since_first s + 1, ts_frames_missed := 0,
     ts_last_seen_us := ob_timestamp_us obs\<rparr>"

definition ema :: "fp \<Rightarrow> fp \<Rightarrow> fp" where
  "ema instant v = fadd F32 (fmul F32 kEmaAlpha instant) (fmul F32 (fsub F32 (Fin 1) kEmaAlpha) v)"

definition ts_velocity :: "bool \<Rightarrow> observation \<Rightarrow> track_state \<Rightarrow> track_state option" where
  "ts_velocity first obs s =
     (let dt = ts_dt obs (ts_last s)
      in if \<not> first \<and> flt f1em4 dt
         then do {
           dx \<leftarrow> isub (sint (ob_cx obs)) (sint (ob_cx (ts_last s)));
           dy \<leftarrow> isub (sint (ob_cy obs)) (sint (ob_cy (ts_last s)));
           Some (s\<lparr>ts_vx := ema (fdiv F32 (fof_int F32 dx) dt) (ts_vx s),
                   ts_vy := ema (fdiv F32 (fof_int F32 dy) dt) (ts_vy s)\<rparr>)
         }
         else Some s)"

definition ts_acceleration :: "bool \<Rightarrow> observation \<Rightarrow> track_state \<Rightarrow> track_state" where
  "ts_acceleration first obs s =
     (let cur_speed = speed s; dt = ts_dt obs (ts_last s);
          s = (if \<not> first \<and> ob_timestamp_us (ts_last s) < ts_last_seen_us s
               then s\<lparr>ts_accel := if flt f1em4 dt
                      then fdiv F32 (fsub F32 cur_speed (ts_prev_speed s)) dt else Fin 0\<rparr>
               else s)
      in s\<lparr>ts_prev_speed := cur_speed\<rparr>)"

definition ts_append :: "observation \<Rightarrow> track_state \<Rightarrow> track_state" where
  "ts_append obs s =
     (let h = ts_history s @ [obs]
      in s\<lparr>ts_last := obs, ts_history := if kHistoryMax < length h then tl h else h\<rparr>)"

text \<open>The bounding box of the centroids, as the loop over the ring computes it.\<close>

definition centroid_box :: "observation list \<Rightarrow> int \<times> int \<times> int \<times> int" where
  "centroid_box hs =
     fold (\<lambda>h (xmin, xmax, ymin, ymax).
         (min xmin (sint (ob_cx h)), max xmax (sint (ob_cx h)), min ymin (sint (ob_cy h)), max ymax (sint (ob_cy h))))
       hs (sint (ob_cx (hd hs)), sint (ob_cx (hd hs)), sint (ob_cy (hd hs)), sint (ob_cy (hd hs)))"

definition ts_loiter :: "track_state \<Rightarrow> track_state option" where
  "ts_loiter s =
     (if 4 \<le> length (ts_history s)
      then (case centroid_box (ts_history s) of (xmin, xmax, ymin, ymax) \<Rightarrow>
        do {
          dx \<leftarrow> isub xmax xmin;
          dy \<leftarrow> isub ymax ymin;
          let spread = fof_int F32 (max dx dy);
          let ratio = fdiv F32 spread (fof_int F32 kLoiterRadius);
          Some (s\<lparr>ts_loiter_score := std_fmax (Fin 0) (std_fmin (Fin 1) (fsub F32 (Fin 1) ratio))\<rparr>)
        })
      else Some (s\<lparr>ts_loiter_score := Fin 0\<rparr>))"

definition ts_roi :: "observation \<Rightarrow> roi \<Rightarrow> track_state \<Rightarrow> track_state" where
  "ts_roi obs r s =
     (let prev = ts_in_roi s; now = roi_contains r (ob_cx obs) (ob_cy obs)
      in s\<lparr>ts_prev_in_roi := prev, ts_in_roi := now, ts_roi_entered := now \<and> \<not> prev,
           ts_roi_exited := \<not> now \<and> prev\<rparr>)"

definition ts_update :: "observation \<Rightarrow> roi \<Rightarrow> track_state \<Rightarrow> track_state option" where
  "ts_update obs r s =
     do {
       let first = (ts_frames_seen s = 0);
       s \<leftarrow> ts_velocity first obs (ts_bookkeeping obs s);
       s \<leftarrow> ts_loiter (ts_append obs (ts_acceleration first obs s));
       Some (ts_roi obs r s)
     }"

section \<open>Bounds\<close>

text \<open>Centroids whose differences fit an int: those of image coordinates do.\<close>

definition centroid_ok :: "observation \<Rightarrow> bool" where
  "centroid_ok obs \<longleftrightarrow> \<bar>sint (ob_cx obs)\<bar> < 2 ^ 30 \<and> \<bar>sint (ob_cy obs)\<bar> < 2 ^ 30"

lemma isub_ok: "\<bar>a\<bar> < 2 ^ 30 \<Longrightarrow> \<bar>b\<bar> < 2 ^ 30 \<Longrightarrow> isub a b = Some (a - b) \<and> \<bar>a - b\<bar> \<le> 2 ^ 31"
  by (auto simp: isub_def)

lemma fin_in_fdiv_sym:
  assumes x: "fin_in (- a) a x" and y: "fin_in c d y" "0 < c" and b: "bound p (a / c)"
  shows "fin_in (- (a / c)) (a / c) (fdiv p x y)"
proof -
  note X = fin_inD[OF x] and Y = fin_inD[OF y(1)]
  have a: "0 \<le> a" using X by linarith
  have pos: "0 < fval y" using Y y(2) by linarith
  have abs: "\<bar>fval x / fval y\<bar> \<le> a / c"
  proof -
    have "\<bar>fval x\<bar> / fval y \<le> a / c" using X Y y(2) a by (intro frac_le) auto
    then show ?thesis using pos by simp
  qed
  then have "- (a / c) \<le> fval x / fval y" "fval x / fval y \<le> a / c" by linarith+
  from fround_bounds(1)[OF this] b X(1) Y(1) pos show ?thesis by (simp add: fdiv_fin)
qed

lemma fin_in_fmul_sym:
  assumes x: "fin_in (- a) a x" and y: "fin_in (- c) c y" and b: "bound p (a * c)"
  shows "fin_in (- (a * c)) (a * c) (fmul p x y)"
proof -
  note X = fin_inD[OF x] and Y = fin_inD[OF y]
  have "\<bar>fval x * fval y\<bar> \<le> a * c"
    unfolding abs_mult using X Y by (intro mult_mono) auto
  then have "- (a * c) \<le> fval x * fval y" "fval x * fval y \<le> a * c" by linarith+
  from fround_bounds(1)[OF this] b X(1) Y(1) show ?thesis by (simp add: fmul_fin)
qed

lemma fin_in_square:
  assumes x: "fin_in (- a) a x" and b: "bound p (a * a)"
  shows "fin_in 0 (a * a) (fmul p x x)"
proof -
  note X = fin_inD[OF x]
  have "\<bar>fval x\<bar> * \<bar>fval x\<bar> \<le> a * a" using X by (intro mult_mono) auto
  then have "0 \<le> fval x * fval x" "fval x * fval x \<le> a * a" by simp_all
  from fround_bounds(1)[OF this] b X(1) show ?thesis by (simp add: fmul_fin)
qed

lemma bound_half_powers: "k \<le> 60 \<Longrightarrow> bound p (1 / 2 ^ k)"
proof -
  assume k: "k \<le> 60"
  have "frep p (of_int 1 * 2 powi (- int k))" using k by (intro frepI) (cases p; simp)+
  moreover have "(2::rat) powi (- int k) = 1 / 2 ^ k"
    by (simp add: power_int_minus powi_nat inverse_eq_divide)
  moreover have "(1::rat) / 2 ^ k \<le> 2 ^ 100"
  proof -
    have "(1::rat) / 2 ^ k \<le> 1" by simp
    also have "\<dots> \<le> 2 ^ 100" by simp
    finally show ?thesis .
  qed
  ultimately show ?thesis by (simp add: bound_def del: power_numeral)
qed

text \<open>Velocities are at most \<open>vmax\<close>: coordinates differ by at most 2^31 over more than 2^-14 s.\<close>

abbreviation vmax :: rat where "vmax \<equiv> 2 ^ 45"

lemma fof_int_range:
  "0 \<le> n \<Longrightarrow> n \<le> 2 ^ k \<Longrightarrow> k \<le> 100 \<Longrightarrow> fin_in 0 (2 ^ k) (fof_int p n)"
  "\<bar>n\<bar> \<le> 2 ^ k \<Longrightarrow> k \<le> 100 \<Longrightarrow> fin_in (- (2 ^ k)) (2 ^ k) (fof_int p n)"
proof -
  have le: "rat_of_int n \<le> 2 ^ k" if "n \<le> 2 ^ k"
  proof -
    have "rat_of_int n \<le> rat_of_int (2 ^ k)" using that by (simp only: of_int_le_iff)
    then show ?thesis by simp
  qed
  have ge: "- (2 ^ k) \<le> rat_of_int n" if "- (2 ^ k) \<le> n"
  proof -
    have "rat_of_int (- (2 ^ k)) \<le> rat_of_int n" using that by (simp only: of_int_le_iff)
    then show ?thesis by simp
  qed
  show "0 \<le> n \<Longrightarrow> n \<le> 2 ^ k \<Longrightarrow> k \<le> 100 \<Longrightarrow> fin_in 0 (2 ^ k) (fof_int p n)"
    using le bound_power2[of k p] by (intro fin_in_fof_int) simp_all
  show "\<bar>n\<bar> \<le> 2 ^ k \<Longrightarrow> k \<le> 100 \<Longrightarrow> fin_in (- (2 ^ k)) (2 ^ k) (fof_int p n)"
    using le ge bound_power2[of k p] by (intro fin_in_fof_int) (simp_all add: abs_le_iff)
qed

lemma dt_bounds:
  assumes "flt f1em4 (ts_dt obs prev)"
  shows "fin_in (1 / 2 ^ 14) (2 ^ 64) (ts_dt obs prev)"
proof -
  have c4: "fin_in (1 / 2 ^ 14) 1 f1em4"
    unfolding f1em4_def by (rule fround_bounds(1)) (use bound_half_powers[of 14] in simp_all)
  have c6: "fin_in 0 1 f1em6"
    unfolding f1em6_def by (rule fround_bounds(1)) simp_all
  let ?d = "ob_timestamp_us obs - ob_timestamp_us prev"
  have "0 \<le> uint ?d" "uint ?d < 2 ^ LENGTH(64)" by (rule unsigned_greater_eq, rule unsigned_less)
  then have "fin_in 0 (2 ^ 64) (fof_int F32 (uint ?d))" by (intro fof_int_range(1)) simp_all
  from fin_in_fmul[OF this c6, of F32] have "fin_in 0 (2 ^ 64) (ts_dt obs prev)"
    using bound_power2[of 64 F32] by (simp add: ts_dt_def)
  then have d: "is_fin (ts_dt obs prev)" "fval (ts_dt obs prev) \<le> 2 ^ 64" by (simp_all add: fin_inD)
  then have "fval f1em4 < fval (ts_dt obs prev)" using assms c4 by (simp add: flt_fin fin_inD)
  then show ?thesis using d c4 by (simp add: fin_in_def)
qed

lemma instant_bounds:
  assumes "\<bar>n\<bar> \<le> 2 ^ 31" "fin_in (1 / 2 ^ 14) (2 ^ 64) dt"
  shows "fin_in (- vmax) vmax (fdiv F32 (fof_int F32 n) dt)"
proof -
  have "fin_in (- (2 ^ 31)) (2 ^ 31) (fof_int F32 n)" using assms(1) by (intro fof_int_range(2)) simp_all
  from fin_in_fdiv_sym[OF this assms(2), of F32] bound_power2[of 45 F32] show ?thesis by simp
qed

lemma ema_bounds:
  assumes "fin_in (- vmax) vmax x" "fin_in (- vmax) vmax v"
  shows "fin_in (- vmax) vmax (ema x v)"
proof -
  have b: "bound F32 (1 / 2)" "bound F32 (2 ^ 44)" "bound F32 (2 ^ 45)"
    using bound_half_powers[of 1 F32] bound_power2[of 44 F32] bound_power2[of 45 F32] by simp_all
  have h: "fin_in (- (1 / 2)) (1 / 2) kEmaAlpha" by (simp add: kEmaAlpha_def fin_in_def)
  have "fin_in (1 - 1 / 2) (1 - 1 / 2) (fsub F32 (Fin 1) kEmaAlpha)"
    using b(1) by (intro fin_in_fsub) (simp_all add: kEmaAlpha_def fin_in_def)
  then have g: "fin_in (- (1 / 2)) (1 / 2) (fsub F32 (Fin 1) kEmaAlpha)"
    by (rule fin_in_weaken) simp_all
  have "fin_in (- (1 / 2 * vmax)) (1 / 2 * vmax) (fmul F32 kEmaAlpha x)"
    using b(2) by (intro fin_in_fmul_sym[OF h assms(1)]) simp
  moreover have "fin_in (- (1 / 2 * vmax)) (1 / 2 * vmax) (fmul F32 (fsub F32 (Fin 1) kEmaAlpha) v)"
    using b(2) by (intro fin_in_fmul_sym[OF g assms(2)]) simp
  ultimately have "fin_in (- (1 / 2 * vmax) + - (1 / 2 * vmax)) (1 / 2 * vmax + 1 / 2 * vmax) (ema x v)"
    unfolding ema_def using b(3) by (intro fin_in_fadd) simp_all
  then show ?thesis by simp
qed

lemma speed_bounds:
  assumes "fin_in (- vmax) vmax (ts_vx s)" "fin_in (- vmax) vmax (ts_vy s)"
  shows "fin_in 0 (2 ^ 46) (speed s)"
proof -
  have b: "bound F32 (2 ^ 90)" "bound F32 (2 ^ 91)" "bound F32 (2 ^ 46)"
    using bound_power2[of 90 F32] bound_power2[of 91 F32] bound_power2[of 46 F32] by simp_all
  have "fin_in 0 (vmax * vmax) (fmul F32 (ts_vx s) (ts_vx s))"
    using b(1) by (intro fin_in_square assms(1)) simp
  moreover have "fin_in 0 (vmax * vmax) (fmul F32 (ts_vy s) (ts_vy s))"
    using b(1) by (intro fin_in_square assms(2)) simp
  ultimately have "fin_in (0 + 0) (vmax * vmax + vmax * vmax)
      (fadd F32 (fmul F32 (ts_vx s) (ts_vx s)) (fmul F32 (ts_vy s) (ts_vy s)))"
    using b(2) by (intro fin_in_fadd) simp_all
  then have "fin_in 0 (of_nat (2 ^ 46) ^ 2)
      (fadd F32 (fmul F32 (ts_vx s) (ts_vx s)) (fmul F32 (ts_vy s) (ts_vy s)))"
    by (rule fin_in_weaken) simp_all
  then have "fin_in 0 (of_nat (2 ^ 46)) (speed s)"
    unfolding speed_def using b(3) by (intro fin_in_fsqrt) simp_all
  then show ?thesis by simp
qed

lemma accel_bounds:
  assumes "fin_in 0 (2 ^ 46) x" "fin_in 0 (2 ^ 46) y" "fin_in (1 / 2 ^ 14) (2 ^ 64) dt"
  shows "fin_in (- (2 ^ 60)) (2 ^ 60) (fdiv F32 (fsub F32 x y) dt)"
proof -
  have b: "bound F32 (2 ^ 46)" "bound F32 (2 ^ 60)"
    using bound_power2[of 46 F32] bound_power2[of 60 F32] by simp_all
  have "fin_in (0 - 2 ^ 46) (2 ^ 46 - 0) (fsub F32 x y)"
    using b(1) assms by (intro fin_in_fsub) simp_all
  then have "fin_in (- (2 ^ 46)) (2 ^ 46) (fsub F32 x y)" by simp
  from fin_in_fdiv_sym[OF this assms(3), of F32] b(2) show ?thesis by simp
qed

lemma clamp_unit:
  assumes "is_fin x"
  shows "fin_in 0 1 (std_fmax (Fin 0) (std_fmin (Fin 1) x))"
  using assms by (auto simp: std_fmax_def std_fmin_def fin_in_def flt_fin)

lemma loiter_score_bounds:
  assumes "0 \<le> n" "n \<le> 2 ^ 31"
  shows "fin_in 0 1 (std_fmax (Fin 0) (std_fmin (Fin 1)
    (fsub F32 (Fin 1) (fdiv F32 (fof_int F32 n) (fof_int F32 kLoiterRadius)))))"
proof (rule clamp_unit)
  let ?r = "fdiv F32 (fof_int F32 n) (fof_int F32 kLoiterRadius)"
  have "fin_in (- (2 ^ 31)) (2 ^ 31) (fof_int F32 n)" using assms by (intro fof_int_range(2)) simp_all
  moreover have "fin_in 1 25 (fof_int F32 kLoiterRadius)"
    by (rule fin_in_fof_int) (simp_all add: kLoiterRadius_def)
  ultimately have "fin_in (- (2 ^ 31 / 1)) (2 ^ 31 / 1) ?r"
    using bound_power2[of 31 F32] by (intro fin_in_fdiv_sym) simp_all
  then have r: "fin_in (1 - 2 ^ 32) (2 ^ 32) ?r" by (rule fin_in_weaken) simp_all
  have "fin_in 0 1 (Fin 1)" by (simp add: fin_in_def)
  from fin_in_fsub[OF this r, of F32] have "fin_in (0 - 2 ^ 32) (1 - (1 - 2 ^ 32)) (fsub F32 (Fin 1) ?r)"
    using bound_power2[of 32 F32] by simp
  then show "is_fin (fsub F32 (Fin 1) ?r)" by (rule fin_inD)
qed

section \<open>Any sequence of observations and missed frames\<close>

lemma centroid_box_MinMax:
  assumes "hs \<noteq> []"
  shows "centroid_box hs = (Min ((sint \<circ> ob_cx) ` set hs), Max ((sint \<circ> ob_cx) ` set hs),
    Min ((sint \<circ> ob_cy) ` set hs), Max ((sint \<circ> ob_cy) ` set hs))"
proof -
  have split: "fold (\<lambda>h (a, b, c, d). (min a (f h), max b (f h), min c (g h), max d (g h))) hs (a, b, c, d)
      = (fold min (map f hs) a, fold max (map f hs) b, fold min (map g hs) c, fold max (map g hs) d)"
    for f g :: "observation \<Rightarrow> int" and hs a b c d
    by (induction hs arbitrary: a b c d) (simp_all add: min.commute max.commute)
  obtain h t where hs: "hs = h # t" using assms by (cases hs) auto
  have set: "f ` set hs = set (f h # map f hs)" for f :: "observation \<Rightarrow> int" by (simp add: hs)
  show ?thesis
    unfolding centroid_box_def split set Min.set_eq_fold Max.set_eq_fold by (simp add: hs comp_def)
qed

definition ts_good :: "track_state \<Rightarrow> bool" where
  "ts_good s \<longleftrightarrow> fin_in (- vmax) vmax (ts_vx s) \<and> fin_in (- vmax) vmax (ts_vy s)
     \<and> fin_in 0 (2 ^ 46) (ts_prev_speed s) \<and> fin_in (- (2 ^ 60)) (2 ^ 60) (ts_accel s)
     \<and> fin_in 0 1 (ts_loiter_score s) \<and> centroid_ok (ts_last s)
     \<and> list_all centroid_ok (ts_history s) \<and> length (ts_history s) \<le> kHistoryMax"

lemma ts_new_good: "ts_good (ts_new i cls t)"
  by (simp add: ts_good_def ts_new_def fin_in_def centroid_ok_def zero_obs_def)

lemma ts_velocity_good:
  assumes "ts_good s" "centroid_ok obs"
  obtains s' where "ts_velocity first obs s = Some s'" "ts_good s'" "ts_last s' = ts_last s"
    "ts_in_roi s' = ts_in_roi s" "ts_frames_seen s' = ts_frames_seen s"
    "ts_frames_since_first s' = ts_frames_since_first s" "ts_frames_missed s' = ts_frames_missed s"
    "ts_track_id s' = ts_track_id s" "ts_class_name s' = ts_class_name s"
proof (cases "\<not> first \<and> flt f1em4 (ts_dt obs (ts_last s))")
  case True
  note dt = dt_bounds[OF conjunct2[OF True]]
  have l: "centroid_ok (ts_last s)" using assms(1) by (simp add: ts_good_def)
  have dx: "isub (sint (ob_cx obs)) (sint (ob_cx (ts_last s))) = Some (sint (ob_cx obs) - sint (ob_cx (ts_last s)))"
      "\<bar>sint (ob_cx obs) - sint (ob_cx (ts_last s))\<bar> \<le> 2 ^ 31"
    and dy: "isub (sint (ob_cy obs)) (sint (ob_cy (ts_last s))) = Some (sint (ob_cy obs) - sint (ob_cy (ts_last s)))"
      "\<bar>sint (ob_cy obs) - sint (ob_cy (ts_last s))\<bar> \<le> 2 ^ 31"
    using isub_ok assms(2) l unfolding centroid_ok_def by blast+
  have g: "fin_in (- vmax) vmax (ts_vx s)" "fin_in (- vmax) vmax (ts_vy s)"
    using assms(1) by (simp_all add: ts_good_def)
  show thesis
    by (rule that[of "s\<lparr>ts_vx := ema (fdiv F32 (fof_int F32 (sint (ob_cx obs) - sint (ob_cx (ts_last s))))
          (ts_dt obs (ts_last s))) (ts_vx s),
        ts_vy := ema (fdiv F32 (fof_int F32 (sint (ob_cy obs) - sint (ob_cy (ts_last s))))
          (ts_dt obs (ts_last s))) (ts_vy s)\<rparr>"])
      (use True dx(1) dy(1) ema_bounds[OF instant_bounds[OF dx(2) dt] g(1)]
        ema_bounds[OF instant_bounds[OF dy(2) dt] g(2)] assms(1) in
        \<open>simp_all add: ts_velocity_def ts_good_def Let_def\<close>)
next
  case False
  show thesis by (rule that[of s]) (use False assms in \<open>auto simp: ts_velocity_def Let_def\<close>)
qed

lemma ts_acceleration_good:
  assumes "ts_good s"
  shows "ts_good (ts_acceleration first obs s)"
proof -
  have sp: "fin_in 0 (2 ^ 46) (speed s)" using assms by (intro speed_bounds) (simp_all add: ts_good_def)
  have pv: "fin_in 0 (2 ^ 46) (ts_prev_speed s)" using assms by (simp add: ts_good_def)
  have acc: "flt f1em4 (ts_dt obs (ts_last s)) \<Longrightarrow>
      fin_in (- (2 ^ 60)) (2 ^ 60) (fdiv F32 (fsub F32 (speed s) (ts_prev_speed s)) (ts_dt obs (ts_last s)))"
    by (rule accel_bounds[OF sp pv dt_bounds])
  have z: "fin_in (- (2 ^ 60)) (2 ^ 60) (Fin 0)" by (simp add: fin_in_def)
  show ?thesis
    using assms sp acc z by (simp add: ts_acceleration_def ts_good_def Let_def)
qed

lemma ts_append_good:
  assumes "ts_good s" "centroid_ok obs"
  shows "ts_good (ts_append obs s)" "ts_history (ts_append obs s) \<noteq> []"
proof -
  have "list_all centroid_ok (tl h)" if "list_all centroid_ok h" for h
    using that by (cases h) simp_all
  then show "ts_good (ts_append obs s)"
    using assms by (simp add: ts_append_def ts_good_def Let_def)
  show "ts_history (ts_append obs s) \<noteq> []"
    by (cases "ts_history s") (simp_all add: ts_append_def Let_def kHistoryMax_def)
qed

lemma ts_loiter_good:
  assumes "ts_good s"
  obtains x where "ts_loiter s = Some (s\<lparr>ts_loiter_score := x\<rparr>)" "fin_in 0 1 x"
proof (cases "4 \<le> length (ts_history s)")
  case True
  let ?X = "(sint \<circ> ob_cx) ` set (ts_history s)" and ?Y = "(sint \<circ> ob_cy) ` set (ts_history s)"
  have ne: "ts_history s \<noteq> []" using True by auto
  have rng: "\<forall>x \<in> ?X. \<bar>x\<bar> < 2 ^ 30" "\<forall>y \<in> ?Y. \<bar>y\<bar> < 2 ^ 30"
    using assms by (auto simp: ts_good_def list_all_iff centroid_ok_def)
  have mm: "Min ?X \<in> ?X" "Max ?X \<in> ?X" "Min ?Y \<in> ?Y" "Max ?Y \<in> ?Y"
    using ne by (auto intro!: Min_in Max_in simp del: image_comp)
  have le: "Min ?X \<le> Max ?X" using mm(1) by (intro Max_ge) auto
  have x: "isub (Max ?X) (Min ?X) = Some (Max ?X - Min ?X)" "\<bar>Max ?X - Min ?X\<bar> \<le> 2 ^ 31"
    and y: "isub (Max ?Y) (Min ?Y) = Some (Max ?Y - Min ?Y)" "\<bar>Max ?Y - Min ?Y\<bar> \<le> 2 ^ 31"
    using isub_ok rng mm by blast+
  define n where "n = max (Max ?X - Min ?X) (Max ?Y - Min ?Y)"
  have n: "0 \<le> n" "n \<le> 2 ^ 31" using le x(2) y(2) by (auto simp: n_def)
  show thesis
    by (rule that[OF _ loiter_score_bounds[OF n]])
      (simp only: ts_loiter_def True if_True centroid_box_MinMax[OF ne] prod.case x(1) y(1)
        bind.bind_lunit Let_def n_def)
next
  case False
  show thesis by (rule that[of "Fin 0"]) (use False in \<open>simp_all add: ts_loiter_def fin_in_def\<close>)
qed

text \<open>One update keeps the bounds, counts the frame, and sets the region flags.\<close>

lemma ts_update_good:
  assumes "ts_good s" "centroid_ok obs"
  obtains s' where "ts_update obs r s = Some s'" "ts_good s'"
    "ts_frames_seen s' = ts_frames_seen s + 1" "ts_frames_since_first s' = ts_frames_since_first s + 1"
    "ts_frames_missed s' = 0" "ts_track_id s' = ts_track_id s" "ts_class_name s' = ts_class_name s"
    "ts_last s' = obs" "ts_in_roi s' = roi_contains r (ob_cx obs) (ob_cy obs)"
    "ts_roi_entered s' = (roi_contains r (ob_cx obs) (ob_cy obs) \<and> \<not> ts_in_roi s)"
    "ts_roi_exited s' = (\<not> roi_contains r (ob_cx obs) (ob_cy obs) \<and> ts_in_roi s)"
proof -
  let ?first = "ts_frames_seen s = 0"
  have b: "ts_good (ts_bookkeeping obs s)" using assms(1) by (simp add: ts_good_def ts_bookkeeping_def)
  obtain s1 where s1: "ts_velocity ?first obs (ts_bookkeeping obs s) = Some s1" "ts_good s1"
    "ts_last s1 = ts_last (ts_bookkeeping obs s)"
    "ts_in_roi s1 = ts_in_roi (ts_bookkeeping obs s)" "ts_frames_seen s1 = ts_frames_seen (ts_bookkeeping obs s)"
    "ts_frames_since_first s1 = ts_frames_since_first (ts_bookkeeping obs s)"
    "ts_frames_missed s1 = ts_frames_missed (ts_bookkeeping obs s)"
    "ts_track_id s1 = ts_track_id (ts_bookkeeping obs s)" "ts_class_name s1 = ts_class_name (ts_bookkeeping obs s)"
    by (rule ts_velocity_good[OF b assms(2), of ?first])
  define s2 where "s2 = ts_append obs (ts_acceleration ?first obs s1)"
  have g2: "ts_good s2" unfolding s2_def
    by (intro ts_append_good(1) ts_acceleration_good s1(2) assms(2))
  obtain x where x: "ts_loiter s2 = Some (s2\<lparr>ts_loiter_score := x\<rparr>)" "fin_in 0 1 x"
    by (rule ts_loiter_good[OF g2])
  have s2: "ts_frames_seen s2 = ts_frames_seen s + 1" "ts_frames_since_first s2 = ts_frames_since_first s + 1"
    "ts_frames_missed s2 = 0" "ts_track_id s2 = ts_track_id s" "ts_class_name s2 = ts_class_name s"
    "ts_last s2 = obs" "ts_in_roi s2 = ts_in_roi s"
    using s1(3-9) by (simp_all add: s2_def ts_append_def ts_acceleration_def ts_bookkeeping_def Let_def)
  show thesis
    by (rule that[of "ts_roi obs r (s2\<lparr>ts_loiter_score := x\<rparr>)"])
      (use s1(1) x g2 s2 in \<open>simp_all add: ts_update_def Let_def s2_def[symmetric] ts_roi_def ts_good_def\<close>)
qed

datatype ts_event = Observed observation | Unseen

fun ts_step :: "roi \<Rightarrow> ts_event \<Rightarrow> track_state \<Rightarrow> track_state option" where
  "ts_step r (Observed obs) s = ts_update obs r s"
| "ts_step r Unseen s = Some (mark_missed s)"

fun ts_trace :: "roi \<Rightarrow> ts_event list \<Rightarrow> track_state \<Rightarrow> track_state list option" where
  "ts_trace r [] s = Some []"
| "ts_trace r (e # es) s = do { s \<leftarrow> ts_step r e s; ss \<leftarrow> ts_trace r es s; Some (s # ss) }"

fun event_ok :: "ts_event \<Rightarrow> bool" where
  "event_ok (Observed obs) = centroid_ok obs"
| "event_ok Unseen = True"

lemma ts_trace_good:
  "ts_good s \<Longrightarrow> list_all event_ok es \<Longrightarrow> ts_frames_seen s \<le> ts_frames_since_first s \<Longrightarrow>
   unat (ts_frames_since_first s) + length es < 2 ^ 32 \<Longrightarrow>
   \<exists>ss. ts_trace r es s = Some ss \<and> length ss = length es
     \<and> (\<forall>s' \<in> set ss. ts_good s' \<and> ts_frames_seen s' \<le> ts_frames_since_first s')"
proof (induction es arbitrary: s)
  case (Cons e es)
  have inc: "unat (ts_frames_since_first s + 1) = unat (ts_frames_since_first s) + 1"
    using Cons.prems(4) by (simp add: unat_word_ariths)
  have seen: "unat (ts_frames_seen s) \<le> unat (ts_frames_since_first s)"
    using Cons.prems(3) by (simp add: word_le_nat_alt)
  then have inc': "unat (ts_frames_seen s + 1) = unat (ts_frames_seen s) + 1"
    using Cons.prems(4) by (simp add: unat_word_ariths)
  obtain s1 where s1: "ts_step r e s = Some s1" "ts_good s1"
      "ts_frames_since_first s1 = ts_frames_since_first s + 1" "ts_frames_seen s1 \<le> ts_frames_since_first s1"
  proof (cases e)
    case (Observed obs)
    then have ok: "centroid_ok obs" using Cons.prems(2) by simp
    obtain s' where "ts_update obs r s = Some s'" "ts_good s'" "ts_frames_seen s' = ts_frames_seen s + 1"
        "ts_frames_since_first s' = ts_frames_since_first s + 1"
      by (rule ts_update_good[OF Cons.prems(1) ok, of r])
    then show thesis
      by (intro that[of s']) (use Observed inc inc' seen in \<open>simp_all add: word_le_nat_alt\<close>)
  next
    case Unseen
    show thesis
      by (rule that[of "mark_missed s"])
        (use Unseen Cons.prems(1) inc seen in \<open>simp_all add: mark_missed_def ts_good_def word_le_nat_alt\<close>)
  qed
  have "unat (ts_frames_since_first s1) + length es < 2 ^ 32" using Cons.prems(4) s1(3) inc by simp
  then show ?case using Cons.IH[OF s1(2) _ s1(4)] Cons.prems(2) s1 by auto
qed simp

lemma visibility_bounds:
  assumes "ts_frames_seen s \<le> ts_frames_since_first s"
  shows "fin_in 0 1 (visibility s)"
proof (cases "ts_frames_since_first s = 0")
  case True
  then show ?thesis by (simp add: visibility_def fin_in_def)
next
  case False
  let ?a = "uint (ts_frames_seen s)" and ?b = "uint (ts_frames_since_first s)"
  have ab: "0 \<le> ?a" "?a \<le> ?b" using assms by (simp_all add: word_le_def)
  have b: "1 \<le> ?b" using False by (simp add: uint_0_iff int_one_le_iff_zero_less order_less_le)
  have "?b < 2 ^ LENGTH(32)" by (rule unsigned_less)
  then have lt: "?b \<le> 2 ^ 32" by simp
  have fb: "fin_in 1 (2 ^ 32) (fof_int F32 ?b)" "fval (fof_int F32 ?b) = rnd F32 (of_int ?b)"
    and fa: "fin_in 0 (2 ^ 32) (fof_int F32 ?a)" "fval (fof_int F32 ?a) = rnd F32 (of_int ?a)"
  proof -
    have "1 \<le> rat_of_int ?b" using b by (simp only: of_int_1_le_iff)
    moreover have "rat_of_int ?b \<le> 2 ^ 32"
    proof -
      have "rat_of_int ?b \<le> rat_of_int (2 ^ 32)" using lt by (simp only: of_int_le_iff)
      then show ?thesis by simp
    qed
    ultimately show "fin_in 1 (2 ^ 32) (fof_int F32 ?b)" "fval (fof_int F32 ?b) = rnd F32 (of_int ?b)"
      unfolding fof_int_def using fround_bounds[OF _ _ bound_simps(2) bound_power2, of _ 32 F32 False] by simp_all
    have "0 \<le> rat_of_int ?a" using ab by (simp only: of_int_0_le_iff)
    moreover have "rat_of_int ?a \<le> 2 ^ 32"
    proof -
      have "rat_of_int ?a \<le> rat_of_int (2 ^ 32)" using ab lt by (simp only: of_int_le_iff)
      then show ?thesis by simp
    qed
    ultimately show "fin_in 0 (2 ^ 32) (fof_int F32 ?a)" "fval (fof_int F32 ?a) = rnd F32 (of_int ?a)"
      unfolding fof_int_def using fround_bounds[OF _ _ bound_simps(1) bound_power2, of _ 32 F32 False] by simp_all
  qed
  have "rat_of_int ?a \<le> rat_of_int ?b" using ab(2) by (simp only: of_int_le_iff)
  then have le: "fval (fof_int F32 ?a) \<le> fval (fof_int F32 ?b)" by (simp only: fa(2) fb(2) rnd_mono)
  note A = fin_inD[OF fa(1)] and B = fin_inD[OF fb(1)]
  have "0 \<le> fval (fof_int F32 ?a) / fval (fof_int F32 ?b)" "fval (fof_int F32 ?a) / fval (fof_int F32 ?b) \<le> 1"
    using A B le by simp_all
  from fround_bounds(1)[OF this] show ?thesis
    using False A B by (simp add: visibility_def fdiv_fin)
qed

text \<open>Evaluation of one rounding, given the binade.\<close>

lemma rnd_eval:
  assumes "2 powi e \<le> v" "v < 2 powi (e + 1)" "emin p \<le> e - int (mbits p) + 1"
  shows "rnd p v = of_int (rne (v / 2 powi (e - int (mbits p) + 1))) * 2 powi (e - int (mbits p) + 1)"
proof -
  have v: "0 < v" using assms(1) powi_pos[of e] by linarith
  have "ilog2 v = e" by (rule ilog2_unique[OF assms(1,2)])
  then show ?thesis using v assms(3) by (simp add: rnd_def ulpexp_def Let_def max_def)
qed

lemma rne_near:
  assumes "\<bar>v - of_int n\<bar> < 1 / 2"
  shows "rne v = n"
proof (cases "of_int n \<le> v")
  case True
  then have "\<lfloor>v\<rfloor> = n" using assms by (intro floor_unique) linarith+
  then show ?thesis using True assms by (simp add: rne_def Let_def)
next
  case False
  then have "\<lfloor>v\<rfloor> = n - 1" using assms by (intro floor_unique) linarith+
  then show ?thesis using False assms by (simp add: rne_def Let_def)
qed

lemma pi_f_value: "pi_f = Fin (13176795 / 4194304)"
proof -
  let ?v = "314159265358979323846 / 10 ^ 20 :: rat"
  have "rnd F32 ?v = of_int (rne (?v / 2 powi (1 - int (mbits F32) + 1))) * 2 powi (1 - int (mbits F32) + 1)"
    by (rule rnd_eval) simp_all
  also have "\<dots> = of_int (rne (?v * 4194304)) / 4194304" by (simp add: power_int_minus field_simps)
  also have "rne (?v * 4194304) = 13176795" by (rule rne_near) (simp add: abs_if)
  finally have r: "rnd F32 ?v = 13176795 / 4194304" by simp
  have "fin_in 3 4 (fround F32 False ?v)" "fval (fround F32 False ?v) = rnd F32 ?v"
    using fround_bounds[of 3 ?v 4 F32 False] by simp_all
  then show ?thesis unfolding pi_f_def using r by (cases "fround F32 False ?v") (simp_all add: fin_in_def)
qed

lemma rnd_180:
  "rnd F32 (13176795 / 4194304 * 180) = 2371823104 / 4194304"
  "rnd F32 (2371823104 / 4194304 / (13176795 / 4194304)) = 180"
proof -
  let ?v = "13176795 / 4194304 * 180 :: rat"
  have "rnd F32 ?v = of_int (rne (?v / 2 powi (9 - int (mbits F32) + 1))) * 2 powi (9 - int (mbits F32) + 1)"
    by (rule rnd_eval) simp_all
  also have "\<dots> = of_int (rne (?v * 16384)) / 16384" by (simp add: power_int_minus field_simps)
  also have "rne (?v * 16384) = 9264934" by (rule rne_near) (simp add: abs_if)
  finally show "rnd F32 (13176795 / 4194304 * 180) = 2371823104 / 4194304" by simp
  let ?w = "2371823104 / 4194304 / (13176795 / 4194304) :: rat"
  have "rnd F32 ?w = of_int (rne (?w / 2 powi (7 - int (mbits F32) + 1))) * 2 powi (7 - int (mbits F32) + 1)"
    by (rule rnd_eval) simp_all
  also have "\<dots> = of_int (rne (?w * 65536)) / 65536" by (simp add: power_int_minus field_simps)
  also have "rne (?w * 65536) = 11796480" by (rule rne_near) (simp add: abs_if)
  finally show "rnd F32 ?w = 180" by simp
qed

lemma degrees_bounds:
  assumes p: "0 < p" and q: "rnd F32 (p * 180) = q" "rnd F32 (q / p) = 180" and a: "- p \<le> a" "a \<le> p"
  shows "- 180 \<le> rnd F32 (rnd F32 (a * 180) / p)" "rnd F32 (rnd F32 (a * 180) / p) \<le> 180"
proof -
  have "rnd F32 (a * 180) \<le> rnd F32 (p * 180)" using a by (intro rnd_mono) simp
  then have "rnd F32 (a * 180) / p \<le> q / p" using q(1) p by (intro divide_right_mono) simp_all
  then show "rnd F32 (rnd F32 (a * 180) / p) \<le> 180" using rnd_mono q(2) by metis
  have "rnd F32 (- (p * 180)) \<le> rnd F32 (a * 180)" using a by (intro rnd_mono) simp
  then have "- q \<le> rnd F32 (a * 180)" using q(1) by (simp only: rnd_minus)
  then have "- q / p \<le> rnd F32 (a * 180) / p" using p by (intro divide_right_mono) simp_all
  then have "rnd F32 (- (q / p)) \<le> rnd F32 (rnd F32 (a * 180) / p)"
    by (intro rnd_mono) (simp only: minus_divide_left)
  then show "- 180 \<le> rnd F32 (rnd F32 (a * 180) / p)" using q(2) by (simp only: rnd_minus)
qed

lemma heading_bounds:
  assumes "fin_in (- fval pi_f) (fval pi_f) (atan2f (ts_vy s) (ts_vx s))"
  shows "fin_in (- 180) 180 (heading_deg atan2f s)"
proof -
  let ?a = "atan2f (ts_vy s) (ts_vx s)"
  define p :: rat where "p = 13176795 / 4194304"
  have pf: "pi_f = Fin p" by (simp add: pi_f_value p_def)
  have p: "1 \<le> p" "p \<le> 4" by (simp_all add: p_def)
  have a: "is_fin ?a" "- p \<le> fval ?a" "fval ?a \<le> p" using assms by (simp_all add: fin_in_def pf)
  note D = degrees_bounds[OF _ rnd_180[folded p_def] a(2,3)]
  have "- 1000 \<le> fval ?a * 180" "fval ?a * 180 \<le> 1000" using a p by simp_all
  note M = fround_bounds[OF this, of F32, simplified]
  have m: "is_fin (fmul F32 ?a (Fin 180))" "fval (fmul F32 ?a (Fin 180)) = rnd F32 (fval ?a * 180)"
      "fin_in (- 1000) 1000 (fmul F32 ?a (Fin 180))"
    using M a(1) by (simp_all add: fmul_fin)
  have y: "fin_in 1 4 (Fin p)" using p by (simp add: fin_in_def)
  have "fin_in (- (1000 / 1)) (1000 / 1) (fdiv F32 (fmul F32 ?a (Fin 180)) (Fin p))"
    by (rule fin_in_fdiv_sym[OF m(3) y]) simp_all
  then have f: "is_fin (fdiv F32 (fmul F32 ?a (Fin 180)) (Fin p))" by (rule fin_inD)
  have "\<bar>fval (fmul F32 ?a (Fin 180)) / p\<bar> \<le> 1000 / 1"
    unfolding abs_divide using fin_inD[OF m(3)] p by (intro frac_le) auto
  then have "- 1000 \<le> fval (fmul F32 ?a (Fin 180)) / p" "fval (fmul F32 ?a (Fin 180)) / p \<le> 1000"
    by linarith+
  from fround_bounds(2)[OF this, of F32] have "fval (fdiv F32 (fmul F32 ?a (Fin 180)) (Fin p))
      = rnd F32 (rnd F32 (fval ?a * 180) / p)"
    using m(1,2) p by (simp add: fdiv_fin)
  then have "fin_in (- 180) 180 (fdiv F32 (fmul F32 ?a (Fin 180)) pi_f)"
    using f D p by (simp add: fin_in_def pf)
  then show ?thesis by (simp add: heading_deg_def fin_in_def)
qed

section \<open>Properties\<close>

text \<open>C21: from a new track, over any sequence of fewer than 2^32 observations (with centroids that
  fit 31 bits) and missed frames, no step is undefined, the ring holds at most 16 observations and
  every published feature stays in its range: visibility and loiter score in [0, 1], velocities,
  speed and acceleration finite, and the heading in [-180, 180] degrees when \<open>atan2\<close> returns
  angles of [-pi, pi] in single precision.\<close>

theorem track_features_bounded:
  assumes "list_all event_ok es" "length es < 2 ^ 32"
    and atan2: "\<And>y x. is_fin y \<Longrightarrow> is_fin x \<Longrightarrow> fin_in (- fval pi_f) (fval pi_f) (atan2f y x)"
  shows "\<exists>ss. ts_trace r es (ts_new i cls t) = Some ss \<and> length ss = length es
    \<and> (\<forall>s \<in> set ss. fin_in 0 1 (visibility s) \<and> fin_in 0 1 (ts_loiter_score s)
        \<and> fin_in (- (2 ^ 45)) (2 ^ 45) (ts_vx s) \<and> fin_in (- (2 ^ 45)) (2 ^ 45) (ts_vy s)
        \<and> fin_in 0 (2 ^ 46) (speed s) \<and> fin_in (- (2 ^ 60)) (2 ^ 60) (ts_accel s)
        \<and> fin_in (- 180) 180 (heading_deg atan2f s) \<and> length (ts_history s) \<le> 16)"
proof -
  obtain ss where ss: "ts_trace r es (ts_new i cls t) = Some ss" "length ss = length es"
      "\<forall>s \<in> set ss. ts_good s \<and> ts_frames_seen s \<le> ts_frames_since_first s"
    using ts_trace_good[OF ts_new_good assms(1), of i cls t r] assms(2) by (auto simp: ts_new_def)
  show ?thesis
  proof (intro exI[of _ ss] conjI ballI ss(1,2))
    fix s assume "s \<in> set ss"
    then have g: "ts_good s" "ts_frames_seen s \<le> ts_frames_since_first s" using ss(3) by auto
    show "fin_in 0 1 (visibility s)" using g(2) by (rule visibility_bounds)
    show vx: "fin_in (- (2 ^ 45)) (2 ^ 45) (ts_vx s)" and vy: "fin_in (- (2 ^ 45)) (2 ^ 45) (ts_vy s)"
      and "fin_in (- (2 ^ 60)) (2 ^ 60) (ts_accel s)" "fin_in 0 1 (ts_loiter_score s)"
      "length (ts_history s) \<le> 16"
      using g(1) by (simp_all add: ts_good_def kHistoryMax_def)
    show "fin_in 0 (2 ^ 46) (speed s)" using vx vy by (rule speed_bounds)
    show "fin_in (- 180) 180 (heading_deg atan2f s)"
      using vx vy by (intro heading_bounds atan2) (simp_all add: fin_inD)
  qed
qed

text \<open>C31: the region events of a track balance: over any sequence of observations and missed frames
  that is defined, the entries reported less the exits reported are the change of the membership
  reported, and no frame reports both.\<close>

theorem roi_events_balance:
  "ts_trace r es s = Some ss \<Longrightarrow>
   int (length (filter ts_roi_entered ss)) - int (length (filter ts_roi_exited ss))
     = of_bool (ts_in_roi (last (s # ss))) - of_bool (ts_in_roi s)
   \<and> (\<forall>s' \<in> set ss. \<not> (ts_roi_entered s' \<and> ts_roi_exited s'))"
proof (induction es arbitrary: s ss)
  case (Cons e es)
  obtain s1 ss1 where s1: "ts_step r e s = Some s1" and ss1: "ts_trace r es s1 = Some ss1" "ss = s1 # ss1"
    using Cons.prems by (auto split: Option.bind_splits)
  have "of_bool (ts_roi_entered s1) - of_bool (ts_roi_exited s1)
      = (of_bool (ts_in_roi s1) - of_bool (ts_in_roi s) :: int) \<and> \<not> (ts_roi_entered s1 \<and> ts_roi_exited s1)"
  proof (cases e)
    case (Observed obs)
    obtain s0 s2 x where s0: "ts_velocity (ts_frames_seen s = 0) obs (ts_bookkeeping obs s) = Some s0"
      and s2: "s2 = ts_append obs (ts_acceleration (ts_frames_seen s = 0) obs s0)"
      and x: "ts_loiter s2 = Some x" "s1 = ts_roi obs r x"
      using s1 Observed by (auto simp: ts_update_def Let_def split: Option.bind_splits)
    have "ts_in_roi s0 = ts_in_roi s"
      using s0 by (auto simp: ts_velocity_def ts_bookkeeping_def Let_def split: if_splits Option.bind_splits)
    then have "ts_in_roi s2 = ts_in_roi s"
      by (simp add: s2 ts_append_def ts_acceleration_def Let_def)
    then have "ts_in_roi x = ts_in_roi s"
      using x(1) by (auto simp: ts_loiter_def Let_def split: if_splits Option.bind_splits prod.splits)
    then show ?thesis using x(2) by (auto simp: ts_roi_def Let_def)
  next
    case Unseen
    then show ?thesis using s1 by (auto simp: mark_missed_def)
  qed
  then show ?case using Cons.IH[OF ss1(1)] ss1(2)
    by (cases "ts_roi_exited s1"; cases "ts_roi_entered s1") (auto split: if_splits)
qed simp

definition sample_obs :: "nat \<Rightarrow> observation" where
  "sample_obs k = zero_obs\<lparr>ob_timestamp_us := of_nat (40000 * k), ob_cx := of_nat (100 * k)\<rparr>"

lemma track_features_bounded_witness:
  "\<exists>ss. ts_trace \<lparr>roi_left = 50, roi_top = 0, roi_right = 150, roi_bottom = 10, roi_enabled = True\<rparr>
      [Observed (sample_obs 0), Observed (sample_obs 1), Unseen, Observed (sample_obs 3)]
      (ts_new 1 ''person'' 0) = Some ss \<and> length ss = 4
    \<and> (\<forall>s \<in> set ss. fin_in (- 180) 180 (heading_deg (\<lambda>_ _. Fin 0) s))"
proof -
  have ok: "list_all event_ok [Observed (sample_obs 0), Observed (sample_obs 1), Unseen, Observed (sample_obs 3)]"
    by (simp add: sample_obs_def zero_obs_def centroid_ok_def)
  have len: "length [Observed (sample_obs 0), Observed (sample_obs 1), Unseen, Observed (sample_obs 3)] < 2 ^ 32"
    by simp
  have at: "\<And>y x. is_fin y \<Longrightarrow> is_fin x \<Longrightarrow> fin_in (- fval pi_f) (fval pi_f) (Fin 0)"
    by (simp add: pi_f_value fin_in_def)
  show ?thesis
    by (rule exE[OF track_features_bounded[where atan2f = "\<lambda>_ _. Fin 0" and i = 1 and cls = "''person''"
          and t = 0 and r = "\<lparr>roi_left = 50, roi_top = 0, roi_right = 150, roi_bottom = 10, roi_enabled = True\<rparr>",
          OF ok len at]])
      (assumption | elim conjE | intro exI conjI | simp)+
qed

lemma roi_events_balance_witness:
  "\<exists>ss. ts_trace \<lparr>roi_left = 0, roi_top = 0, roi_right = 150, roi_bottom = 10, roi_enabled = True\<rparr>
      [Observed zero_obs, Unseen] (ts_new 1 ''person'' 0) = Some ss
    \<and> int (length (filter ts_roi_entered ss)) - int (length (filter ts_roi_exited ss)) = 1"
proof -
  let ?r = "\<lparr>roi_left = 0, roi_top = 0, roi_right = 150, roi_bottom = 10, roi_enabled = True\<rparr>"
  obtain s1 where s1: "ts_update zero_obs ?r (ts_new 1 ''person'' 0) = Some s1"
    "ts_in_roi s1 = roi_contains ?r (ob_cx zero_obs) (ob_cy zero_obs)"
    by (rule ts_update_good[OF ts_new_good, of zero_obs ?r 1 "''person''" 0]) (simp add: centroid_ok_def zero_obs_def)
  then have tr: "ts_trace ?r [Observed zero_obs, Unseen] (ts_new 1 ''person'' 0) = Some [s1, mark_missed s1]"
    by simp
  have "ts_in_roi (last [ts_new 1 ''person'' 0, s1, mark_missed s1])" "\<not> ts_in_roi (ts_new 1 ''person'' 0)"
    using s1(2) by (simp_all add: mark_missed_def roi_contains_def zero_obs_def ts_new_def)
  then show ?thesis using tr roi_events_balance[OF tr] by simp
qed

end
