(* ===== verification/Track_Manager.thy ===== *)
theory Track_Manager
  imports Track_State "HOL-Library.AList" "HOL-Library.Signed_Division"
begin

text \<open>
  \<open>temporal/src/track_manager.cc\<close>: the set of live tracks and the orchestration of one frame. The
  two unordered maps are association lists; their order stands for the unspecified iteration order,
  and the theorems do not depend on it. The lemmas show that a frame implements the specified step
  on the map from ids to track states.
\<close>

section \<open>The manager\<close>

definition kMaxFramesLost :: u32 where "kMaxFramesLost = 30"

record track_manager =
  tm_roi :: roi
  tm_tracks :: "(u32 \<times> track_state) list"
  tm_seen :: "(u32 \<times> bool) list"

definition tm_new :: "roi \<Rightarrow> track_manager" where
  "tm_new r = \<lparr>tm_roi = r, tm_tracks = [], tm_seen = []\<rparr>"

definition begin_frame :: "track_manager \<Rightarrow> track_manager" where
  "begin_frame m = m\<lparr>tm_seen := map (\<lambda>kv. (fst kv, False)) (tm_tracks m)\<rparr>"

text \<open>The centre of an interval: \<open>int\<close> addition, division rounding towards zero.\<close>

definition midpoint :: "i32 \<Rightarrow> i32 \<Rightarrow> i32 option" where
  "midpoint a b = do { s \<leftarrow> iadd (sint a) (sint b); Some (i32 (s sdiv 2)) }"

definition obs_of :: "wire_track \<Rightarrow> u64 \<Rightarrow> observation option" where
  "obs_of rec t = do {
     cx \<leftarrow> midpoint (wt_left rec) (wt_right rec);
     cy \<leftarrow> midpoint (wt_top rec) (wt_bottom rec);
     Some \<lparr>ob_timestamp_us = t, ob_cx = cx, ob_cy = cy, ob_left = wt_left rec, ob_top = wt_top rec,
           ob_right = wt_right rec, ob_bottom = wt_bottom rec\<rparr>
   }"

definition observe :: "u64 \<Rightarrow> wire_track \<Rightarrow> track_manager \<Rightarrow> track_manager option" where
  "observe timestamp_us rec m =
     (if wt_track_id rec = 0 then Some m
      else do {
        obs \<leftarrow> obs_of rec timestamp_us;
        let it = (case map_of (tm_tracks m) (wt_track_id rec) of
            Some s \<Rightarrow> s
          | None \<Rightarrow> ts_new (wt_track_id rec) (wt_class_name rec) timestamp_us);
        it \<leftarrow> ts_update obs (tm_roi m) it;
        Some (m\<lparr>tm_tracks := AList.update (wt_track_id rec) it (tm_tracks m),
                tm_seen := AList.update (wt_track_id rec) True (tm_seen m)\<rparr>)
      })"

text \<open>The body of the loop of \<open>end_frame\<close>: \<open>None\<close> erases the entry.\<close>

definition end_track :: "(u32 \<times> bool) list \<Rightarrow> u32 \<times> track_state \<Rightarrow> (u32 \<times> track_state) option" where
  "end_track seen kv =
     (if map_of seen (fst kv) = Some True then Some kv
      else let s = mark_missed (snd kv)
           in if kMaxFramesLost < ts_frames_missed s then None else Some (fst kv, s))"

definition end_frame :: "track_manager \<Rightarrow> track_state list \<times> track_manager" where
  "end_frame m =
     (let kvs = List.map_filter (end_track (tm_seen m)) (tm_tracks m)
      in (map snd kvs, m\<lparr>tm_tracks := kvs\<rparr>))"

text \<open>A frame, as the service drives it.\<close>

definition tm_frame ::
  "wire_track list \<Rightarrow> u64 \<Rightarrow> track_manager \<Rightarrow> (track_state list \<times> track_manager) option" where
  "tm_frame recs timestamp_us m =
     do { m \<leftarrow> foldo (observe timestamp_us) recs (begin_frame m); Some (end_frame m) }"

section \<open>The specified step\<close>

text \<open>On the map from ids to states: a reported track, new or live, is updated with its observation;
  the others are marked missed, and dropped once missed in more than 30 frames.\<close>

definition frame_spec ::
  "roi \<Rightarrow> wire_track list \<Rightarrow> u64 \<Rightarrow> (u32 \<rightharpoonup> track_state) \<Rightarrow> (u32 \<rightharpoonup> track_state)" where
  "frame_spec r recs t M i =
     (case find (\<lambda>rec. wt_track_id rec = i \<and> i \<noteq> 0) recs of
        Some rec \<Rightarrow> Option.bind (obs_of rec t) (\<lambda>obs.
          ts_update obs r (case M i of Some s \<Rightarrow> s | None \<Rightarrow> ts_new i (wt_class_name rec) t))
      | None \<Rightarrow> (case M i of
          None \<Rightarrow> None
        | Some s \<Rightarrow> if 30 < ts_frames_missed (mark_missed s) then None else Some (mark_missed s)))"

definition rec_ok :: "wire_track \<Rightarrow> bool" where
  "rec_ok rec \<longleftrightarrow> (\<forall>v \<in> {wt_left rec, wt_top rec, wt_right rec, wt_bottom rec}. \<bar>sint v\<bar> < 2 ^ 30)"

definition tm_inv :: "track_manager \<Rightarrow> bool" where
  "tm_inv m \<longleftrightarrow> distinct (map fst (tm_tracks m))
     \<and> (\<forall>(k, s) \<in> set (tm_tracks m). k \<noteq> 0 \<and> ts_track_id s = k \<and> ts_good s \<and> ts_frames_missed s \<le> 30)"

lemma midpoint_ok:
  assumes "\<bar>sint a\<bar> < 2 ^ 30" "\<bar>sint b\<bar> < 2 ^ 30"
  obtains c where "midpoint a b = Some c" "\<bar>sint c\<bar> < 2 ^ 30"
proof -
  let ?s = "sint a + sint b"
  have s: "\<bar>?s\<bar> < 2 ^ 31" using assms by simp
  have d: "\<bar>?s sdiv 2\<bar> < 2 ^ 30"
    using s by (auto simp: signed_divide_int_def sgn_if abs_if split: if_splits)
  then have "sint (i32 (?s sdiv 2)) = ?s sdiv 2" by (intro sint_i32_of_int) auto
  then show thesis using s d by (intro that[of "i32 (?s sdiv 2)"]) (auto simp: midpoint_def iadd_def)
qed

lemma obs_of_ok:
  assumes "rec_ok rec"
  obtains obs where "obs_of rec t = Some obs" "centroid_ok obs"
proof -
  obtain cx where cx: "midpoint (wt_left rec) (wt_right rec) = Some cx" "\<bar>sint cx\<bar> < 2 ^ 30"
    using assms by (auto simp: rec_ok_def intro: midpoint_ok)
  obtain cy where cy: "midpoint (wt_top rec) (wt_bottom rec) = Some cy" "\<bar>sint cy\<bar> < 2 ^ 30"
    using assms by (auto simp: rec_ok_def intro: midpoint_ok)
  show thesis
    by (rule that[of "\<lparr>ob_timestamp_us = t, ob_cx = cx, ob_cy = cy, ob_left = wt_left rec,
        ob_top = wt_top rec, ob_right = wt_right rec, ob_bottom = wt_bottom rec\<rparr>"])
      (use cx cy in \<open>simp_all add: obs_of_def centroid_ok_def\<close>)
qed

lemma ts_track_id_new: "ts_track_id (ts_new i cls t) = i"
  by (simp add: ts_new_def)

text \<open>One record: the state of its id is updated, nothing else.\<close>

definition observed :: "track_manager \<Rightarrow> wire_track \<Rightarrow> u64 \<Rightarrow> track_state option" where
  "observed m rec t = Option.bind (obs_of rec t) (\<lambda>obs. ts_update obs (tm_roi m)
     (case map_of (tm_tracks m) (wt_track_id rec) of Some s \<Rightarrow> s
      | None \<Rightarrow> ts_new (wt_track_id rec) (wt_class_name rec) t))"

lemma observe_step:
  assumes inv: "tm_inv m" and ok: "rec_ok rec" and nz: "wt_track_id rec \<noteq> 0"
  obtains m' s where "observe t rec m = Some m'" "observed m rec t = Some s" "tm_inv m'"
    "tm_roi m' = tm_roi m" "map_of (tm_tracks m') = (map_of (tm_tracks m))(wt_track_id rec \<mapsto> s)"
    "map_of (tm_seen m') = (map_of (tm_seen m))(wt_track_id rec \<mapsto> True)" "ts_frames_missed s = 0"
proof -
  let ?i = "wt_track_id rec"
  define it where "it = (case map_of (tm_tracks m) ?i of Some s \<Rightarrow> s
      | None \<Rightarrow> ts_new ?i (wt_class_name rec) t)"
  have it: "ts_good it" "ts_track_id it = ?i"
    using inv by (auto simp: it_def ts_new_good tm_inv_def ts_track_id_new split: option.splits
        dest!: map_of_SomeD)
  obtain obs where obs: "obs_of rec t = Some obs" "centroid_ok obs" by (rule obs_of_ok[OF ok])
  obtain s where s: "ts_update obs (tm_roi m) it = Some s" "ts_good s" "ts_frames_missed s = 0"
      "ts_track_id s = ts_track_id it"
    by (rule ts_update_good[OF it(1) obs(2)])
  define m' where "m' = m\<lparr>tm_tracks := AList.update ?i s (tm_tracks m), tm_seen := AList.update ?i True (tm_seen m)\<rparr>"
  have "tm_inv m'"
    unfolding tm_inv_def
  proof (intro conjI ballI, goal_cases)
    case 1
    show ?case using inv by (simp add: m'_def tm_inv_def distinct_update)
  next
    case (2 kv)
    have d: "distinct (map fst (tm_tracks m'))" using inv by (simp add: m'_def tm_inv_def distinct_update)
    obtain k x where kv: "kv = (k, x)" by (cases kv)
    then have "map_of (tm_tracks m') k = Some x" using 2 d by simp
    moreover have "map_of (tm_tracks m') = (map_of (tm_tracks m))(?i \<mapsto> s)"
      by (simp add: m'_def update_conv')
    ultimately have "((map_of (tm_tracks m))(?i \<mapsto> s)) k = Some x" by simp
    then have "k = ?i \<and> x = s \<or> map_of (tm_tracks m) k = Some x" by (auto split: if_splits)
    then show ?case
      using s it nz inv by (auto simp: kv tm_inv_def dest!: map_of_SomeD)
  qed
  then show thesis
    by (intro that[of m' s])
      (use nz obs s in \<open>simp_all add: observe_def observed_def m'_def it_def[symmetric] update_conv'\<close>)
qed

definition reported :: "wire_track list \<Rightarrow> u32 \<Rightarrow> wire_track option" where
  "reported recs i = find (\<lambda>rec. wt_track_id rec = i \<and> i \<noteq> 0) recs"

lemma reported_simps [simp]:
  "reported [] i = None"
  "reported (rec # recs) i = (if wt_track_id rec = i \<and> i \<noteq> 0 then Some rec else reported recs i)"
  by (simp_all add: reported_def)

lemma reported_None: "i \<notin> set (map wt_track_id recs) \<Longrightarrow> reported recs i = None"
  by (induction recs) auto

lemma reported_None_iff: "i \<noteq> 0 \<Longrightarrow> reported recs i = None \<longleftrightarrow> i \<notin> wt_track_id ` set recs"
  unfolding reported_def find_None_iff image_iff by metis

text \<open>The ids of a frame are distinct, up to the id 0, which is ignored.\<close>

definition ids_ok :: "wire_track list \<Rightarrow> bool" where
  "ids_ok recs \<longleftrightarrow> distinct (filter (\<lambda>i. i \<noteq> 0) (map wt_track_id recs))"

lemma observe_all:
  "tm_inv m \<Longrightarrow> list_all rec_ok recs \<Longrightarrow> ids_ok recs \<Longrightarrow>
   \<exists>m'. foldo (observe t) recs m = Some m' \<and> tm_inv m' \<and> tm_roi m' = tm_roi m
     \<and> (\<forall>i. map_of (tm_tracks m') i = (case reported recs i of Some rec \<Rightarrow> observed m rec t
            | None \<Rightarrow> map_of (tm_tracks m) i))
     \<and> (\<forall>i. map_of (tm_seen m') i = (if reported recs i \<noteq> None then Some True else map_of (tm_seen m) i))
     \<and> (\<forall>i s. reported recs i \<noteq> None \<longrightarrow> map_of (tm_tracks m') i = Some s \<longrightarrow> ts_frames_missed s = 0)
     \<and> (\<forall>i. reported recs i \<noteq> None \<longrightarrow> map_of (tm_tracks m') i \<noteq> None)"
proof (induction recs arbitrary: m)
  case (Cons rec recs)
  show ?case
  proof (cases "wt_track_id rec = 0")
    case True
    then have "observe t rec m = Some m" by (simp add: observe_def)
    moreover have "reported (rec # recs) i = reported recs i" for i using True by simp
    ultimately show ?thesis using Cons True by (simp add: ids_ok_def)
  next
    case False
    let ?i = "wt_track_id rec"
    have ok: "rec_ok rec" using Cons.prems(2) by simp
    obtain m1 s where m1: "observe t rec m = Some m1" "observed m rec t = Some s" "tm_inv m1"
      "tm_roi m1 = tm_roi m" "map_of (tm_tracks m1) = (map_of (tm_tracks m))(?i \<mapsto> s)"
      "map_of (tm_seen m1) = (map_of (tm_seen m))(?i \<mapsto> True)" "ts_frames_missed s = 0"
      by (rule observe_step[OF Cons.prems(1) ok False])
    have ids: "ids_ok recs" "?i \<notin> set (map wt_track_id recs)"
      using Cons.prems(3) False by (auto simp: ids_ok_def)
    have none: "reported recs ?i = None" by (rule reported_None[OF ids(2)])
    have same: "observed m1 rec' t = observed m rec' t" if "reported recs i = Some rec'" for i rec'
    proof -
      have "rec' \<in> set recs" using that by (auto simp: reported_def find_Some_iff)
      then have "wt_track_id rec' \<in> set (map wt_track_id recs)" by simp
      then have "wt_track_id rec' \<noteq> ?i" using ids(2) by metis
      then show ?thesis by (simp add: observed_def m1(4,5))
    qed
    obtain m' where m': "foldo (observe t) recs m1 = Some m'" "tm_inv m'" "tm_roi m' = tm_roi m1"
      "\<And>i. map_of (tm_tracks m') i = (case reported recs i of Some rec \<Rightarrow> observed m1 rec t
            | None \<Rightarrow> map_of (tm_tracks m1) i)"
      "\<And>i. map_of (tm_seen m') i = (if reported recs i \<noteq> None then Some True else map_of (tm_seen m1) i)"
      "\<And>i s. reported recs i \<noteq> None \<Longrightarrow> map_of (tm_tracks m') i = Some s \<Longrightarrow> ts_frames_missed s = 0"
      "\<And>i. reported recs i \<noteq> None \<Longrightarrow> map_of (tm_tracks m') i \<noteq> None"
      using Cons.IH[OF m1(3) _ ids(1)] Cons.prems(2) by auto
    have "map_of (tm_tracks m') i = (case reported (rec # recs) i of Some rec \<Rightarrow> observed m rec t
            | None \<Rightarrow> map_of (tm_tracks m) i)" for i
      using m'(4)[of i] none False m1(2,5) same[of i] by (cases "i = ?i") (auto split: option.splits)
    moreover have "map_of (tm_seen m') i
        = (if reported (rec # recs) i \<noteq> None then Some True else map_of (tm_seen m) i)" for i
      using m'(5)[of i] none False m1(6) by (cases "i = ?i") auto
    moreover have "ts_frames_missed x = 0" if "reported (rec # recs) i \<noteq> None" "map_of (tm_tracks m') i = Some x" for i x
      using that m'(6)[of i x] m'(4)[of i] none False m1(5,7) by (cases "i = ?i") auto
    moreover have "map_of (tm_tracks m') i \<noteq> None" if "reported (rec # recs) i \<noteq> None" for i
      using that m'(7)[of i] m'(4)[of i] none False m1(5) by (cases "i = ?i") auto
    ultimately show ?thesis
      using m1(1,4) m'(1-3) by (intro exI[of _ m']) simp
  qed
qed simp

lemma map_of_map_filter:
  assumes "distinct (map fst kvs)" "\<And>kv kv'. f kv = Some kv' \<Longrightarrow> fst kv' = fst kv"
  shows "map_of (List.map_filter f kvs) i = Option.bind (map_of kvs i) (\<lambda>s. map_option snd (f (i, s)))"
    and "distinct (map fst (List.map_filter f kvs))"
    and "set (map fst (List.map_filter f kvs)) \<subseteq> set (map fst kvs)"
  using assms(1)
proof (induction kvs)
  case (Cons kv kvs)
  obtain k x where kv: "kv = (k, x)" by (cases kv)
  note IH = Cons.IH
  {
    case 1
    have "map_of kvs k = None" using 1 by (simp add: kv map_of_eq_None_iff)
    then show ?case using IH(1) 1 assms(2)[of "(k, x)"]
      by (cases "f (k, x)") (auto simp: kv List.map_filter_simps)
  next
    case 2
    then show ?case using IH(2,3) assms(2)[of "(k, x)"]
      by (cases "f (k, x)") (auto simp: kv List.map_filter_simps)
  next
    case 3
    then show ?case using IH(3) assms(2)[of "(k, x)"]
      by (cases "f (k, x)") (auto simp: kv List.map_filter_simps)
  }
qed (simp_all add: List.map_filter_simps)

lemma end_track_fst: "end_track seen kv = Some kv' \<Longrightarrow> fst kv' = fst kv"
  by (auto simp: end_track_def Let_def split: if_splits)

lemma u32_inc_le:
  assumes "(w :: u32) \<le> 30"
  shows "unat (w + 1) = unat w + 1"
proof -
  have "unat w \<le> 30" using assms by (simp add: word_le_nat_alt)
  then show ?thesis by (simp add: unat_word_ariths)
qed

text \<open>The end of a frame: those seen stay as they are, the others have missed it, and some are gone.\<close>

lemma end_lookup:
  assumes "distinct (map fst kvs)"
  shows "map_of (List.map_filter (end_track seen) kvs) i = (case map_of kvs i of
      None \<Rightarrow> None
    | Some s \<Rightarrow> if map_of seen i = Some True then Some s
        else if 30 < ts_frames_missed (mark_missed s) then None else Some (mark_missed s))"
  by (subst map_of_map_filter(1)[OF assms end_track_fst])
    (auto simp: end_track_def kMaxFramesLost_def Let_def split: option.split)

lemma missed_not_zero:
  assumes "ts_frames_missed s \<le> 30"
  shows "ts_frames_missed (mark_missed s) \<noteq> 0"
proof -
  have "unat (ts_frames_missed s + 1) = unat (ts_frames_missed s) + 1" by (rule u32_inc_le[OF assms])
  then have "ts_frames_missed s + 1 \<noteq> 0" by (metis Suc_eq_plus1 nat.distinct(1) unat_0)
  then show ?thesis by (simp add: mark_missed_def)
qed

lemma tm_inv_lookup:
  "tm_inv m \<longleftrightarrow> distinct (map fst (tm_tracks m)) \<and> (\<forall>k s. map_of (tm_tracks m) k = Some s \<longrightarrow>
     k \<noteq> 0 \<and> ts_track_id s = k \<and> ts_good s \<and> ts_frames_missed s \<le> 30)"
  unfolding tm_inv_def by (rule conj_cong) auto

lemma end_inv:
  assumes "tm_inv m"
  shows "tm_inv (m\<lparr>tm_tracks := List.map_filter (end_track seen) (tm_tracks m)\<rparr>)"
proof -
  have d: "distinct (map fst (tm_tracks m))" using assms by (simp add: tm_inv_def)
  have "k \<noteq> 0 \<and> ts_track_id s = k \<and> ts_good s \<and> ts_frames_missed s \<le> 30"
    if "map_of (List.map_filter (end_track seen) (tm_tracks m)) k = Some s" for k s
    using that assms
    by (auto simp: end_lookup[OF d] tm_inv_lookup mark_missed_def ts_good_def split: option.splits if_splits)
  then show ?thesis using map_of_map_filter(2)[OF d end_track_fst] by (simp add: tm_inv_lookup)
qed

lemma tm_frame_spec:
  assumes inv: "tm_inv m" and recs: "list_all rec_ok recs" "ids_ok recs"
  obtains view m' where "tm_frame recs t m = Some (view, m')" "tm_inv m'" "tm_roi m' = tm_roi m"
    "map_of (tm_tracks m') = frame_spec (tm_roi m) recs t (map_of (tm_tracks m))"
    "view = map snd (tm_tracks m')"
    "\<forall>i s. map_of (tm_tracks m') i = Some s \<longrightarrow> (ts_frames_missed s = 0 \<longleftrightarrow> reported recs i \<noteq> None)"
    "\<forall>i. reported recs i \<noteq> None \<longrightarrow> map_of (tm_tracks m') i \<noteq> None"
proof -
  define m0 where "m0 = begin_frame m"
  have m0: "tm_inv m0" "tm_roi m0 = tm_roi m" "tm_tracks m0 = tm_tracks m" "\<And>i. map_of (tm_seen m0) i \<noteq> Some True"
    using inv by (auto simp: m0_def begin_frame_def tm_inv_def dest!: map_of_SomeD)
  obtain m1 where m1: "foldo (observe t) recs m0 = Some m1" "tm_inv m1" "tm_roi m1 = tm_roi m0"
      "\<And>i. map_of (tm_tracks m1) i = (case reported recs i of Some rec \<Rightarrow> observed m0 rec t
            | None \<Rightarrow> map_of (tm_tracks m0) i)"
      "\<And>i. map_of (tm_seen m1) i = (if reported recs i \<noteq> None then Some True else map_of (tm_seen m0) i)"
      "\<And>i s. reported recs i \<noteq> None \<Longrightarrow> map_of (tm_tracks m1) i = Some s \<Longrightarrow> ts_frames_missed s = 0"
      "\<And>i. reported recs i \<noteq> None \<Longrightarrow> map_of (tm_tracks m1) i \<noteq> None"
    using observe_all[OF m0(1) recs, of t] by auto
  have seen: "map_of (tm_seen m1) i = Some True \<longleftrightarrow> reported recs i \<noteq> None" for i
    using m1(5)[of i] m0(4)[of i] by simp
  let ?m' = "m1\<lparr>tm_tracks := List.map_filter (end_track (tm_seen m1)) (tm_tracks m1)\<rparr>"
  have inv1: "distinct (map fst (tm_tracks m1))" "\<And>i s. map_of (tm_tracks m1) i = Some s \<Longrightarrow> ts_frames_missed s \<le> 30"
    using m1(2) by (auto simp: tm_inv_lookup)
  note ended = end_lookup[OF inv1(1), of "tm_seen m1", unfolded seen]
  have "map_of (tm_tracks ?m') i = frame_spec (tm_roi m) recs t (map_of (tm_tracks m)) i" for i
  proof (cases "reported recs i")
    case None
    then show ?thesis using m1(4)[of i] m0(3)
      by (auto simp: ended frame_spec_def reported_def split: option.splits)
  next
    case (Some rec)
    then have i: "i = wt_track_id rec" by (auto simp: reported_def find_Some_iff)
    have "observed m0 rec t = frame_spec (tm_roi m) recs t (map_of (tm_tracks m)) i"
      using Some m0(2,3) unfolding i by (simp add: observed_def frame_spec_def reported_def)
    then show ?thesis using m1(4)[of i] Some by (simp add: ended split: option.split)
  qed
  moreover have "ts_frames_missed s = 0 \<longleftrightarrow> reported recs i \<noteq> None" if "map_of (tm_tracks ?m') i = Some s" for i s
    using that m1(6) missed_not_zero[OF inv1(2)] by (auto simp: ended split: option.splits if_splits)
  moreover have "map_of (tm_tracks ?m') i \<noteq> None" if r: "reported recs i \<noteq> None" for i
    using m1(7)[OF r] r by (auto simp: ended)
  ultimately show thesis
    using m1(1,3) m0(2) end_inv[OF m1(2), of "tm_seen m1"]
    by (intro that[of "map snd (tm_tracks ?m')" ?m'])
      (simp_all add: tm_frame_def end_frame_def m0_def[symmetric] Let_def fun_eq_iff)
qed

text \<open>The tracks seen in a frame are those of the ids reported in it.\<close>

lemma active_ids:
  assumes inv: "tm_inv m"
    and miss: "\<forall>i s. map_of (tm_tracks m) i = Some s \<longrightarrow> (ts_frames_missed s = 0 \<longleftrightarrow> reported recs i \<noteq> None)"
    and kept: "\<forall>i. reported recs i \<noteq> None \<longrightarrow> map_of (tm_tracks m) i \<noteq> None"
  shows "ts_track_id ` {s \<in> set (map snd (tm_tracks m)). ts_frames_missed s = 0} = wt_track_id ` set recs - {0}"
proof -
  have d: "distinct (map fst (tm_tracks m))" and e: "\<And>k s. map_of (tm_tracks m) k = Some s \<Longrightarrow> ts_track_id s = k"
    using inv by (simp_all add: tm_inv_lookup)
  have v: "set (map snd (tm_tracks m)) = {s. \<exists>k. map_of (tm_tracks m) k = Some s}"
    using d by force
  have "ts_track_id ` {s \<in> set (map snd (tm_tracks m)). ts_frames_missed s = 0}
      = {k. \<exists>s. map_of (tm_tracks m) k = Some s \<and> ts_frames_missed s = 0}"
    unfolding v using e by (auto simp: image_iff)
  also have "\<dots> = {k. reported recs k \<noteq> None}"
  proof -
    have "(\<exists>s. map_of (tm_tracks m) k = Some s \<and> ts_frames_missed s = 0) \<longleftrightarrow> reported recs k \<noteq> None" for k
      using miss kept by (metis not_None_eq)
    then show ?thesis by (simp only:)
  qed
  also have "\<dots> = wt_track_id ` set recs - {0}"
  proof -
    have "reported recs k \<noteq> None \<longleftrightarrow> k \<in> wt_track_id ` set recs - {0}" for k
      by (cases "k = 0") (simp_all add: reported_None_iff, simp add: reported_def find_None_iff)
    then show ?thesis by blast
  qed
  finally show ?thesis .
qed

section \<open>Properties\<close>

text \<open>C19: a frame of the manager implements the specified step on the map from ids to track states,
  whatever order the container has: a reported id gets its observation, on the state it had or on
  a new one, every other track is marked missed and dropped after more than 30 missed frames. The
  view published holds every live track once, and shows as lost exactly those not reported.\<close>

theorem track_manager_refines:
  assumes "tm_inv m" "list_all rec_ok recs" "ids_ok recs"
  shows "\<exists>view m'. tm_frame recs t m = Some (view, m') \<and> tm_inv m'
    \<and> map_of (tm_tracks m') = frame_spec (tm_roi m) recs t (map_of (tm_tracks m))
    \<and> view = map snd (tm_tracks m') \<and> distinct (map ts_track_id view)
    \<and> (\<forall>s \<in> set view. status s = 2 \<longleftrightarrow> ts_track_id s \<notin> wt_track_id ` set recs)"
proof -
  obtain view m' where m': "tm_frame recs t m = Some (view, m')" "tm_inv m'"
    and "tm_roi m' = tm_roi m" and m'': "map_of (tm_tracks m') = frame_spec (tm_roi m) recs t (map_of (tm_tracks m))"
    and view: "view = map snd (tm_tracks m')"
    and miss: "\<forall>i s. map_of (tm_tracks m') i = Some s \<longrightarrow> (ts_frames_missed s = 0 \<longleftrightarrow> reported recs i \<noteq> None)"
    and "\<forall>i. reported recs i \<noteq> None \<longrightarrow> map_of (tm_tracks m') i \<noteq> None"
    by (rule tm_frame_spec[OF assms, of t])
  have d: "distinct (map fst (tm_tracks m'))"
    and e: "\<And>k s. (k, s) \<in> set (tm_tracks m') \<Longrightarrow> k \<noteq> 0 \<and> ts_track_id s = k"
    using m'(2) by (auto simp: tm_inv_def)
  have "map ts_track_id view = map fst (tm_tracks m')" using e by (auto simp: view)
  then have dv: "distinct (map ts_track_id view)" using d by simp
  have "status s = 2 \<longleftrightarrow> ts_track_id s \<notin> wt_track_id ` set recs" if "s \<in> set view" for s
  proof -
    obtain k where k: "(k, s) \<in> set (tm_tracks m')" using \<open>s \<in> set view\<close> by (auto simp: view)
    then have "map_of (tm_tracks m') k = Some s" using d by simp
    from miss[rule_format, OF this] have "ts_frames_missed s = 0 \<longleftrightarrow> reported recs (ts_track_id s) \<noteq> None"
      using e[OF k] by simp
    moreover have "reported recs (ts_track_id s) = None \<longleftrightarrow> ts_track_id s \<notin> wt_track_id ` set recs"
      using e[OF k] by (intro reported_None_iff) simp
    moreover have "status s = 2 \<longleftrightarrow> ts_frames_missed s \<noteq> 0"
      by (auto simp: status_def word_neq_0_conv)
    ultimately show ?thesis by simp
  qed
  then show ?thesis using m' m'' view dv by blast
qed

definition sample_track :: "u32 \<Rightarrow> wire_track" where
  "sample_track i = \<lparr>wt_class_name = ''person'' @ replicate 10 NUL, wt_confidence = Fin 0, wt_left = 1,
     wt_top = 2, wt_right = 11, wt_bottom = 12, wt_track_id = i\<rparr>"

lemma sample_tracks_ok: "list_all rec_ok [sample_track 0, sample_track 4, sample_track 9]"
    "ids_ok [sample_track 0, sample_track 4, sample_track 9]"
  by (simp_all add: rec_ok_def sample_track_def ids_ok_def)

lemma tm_inv_new: "tm_inv (tm_new r)"
  by (simp add: tm_inv_def tm_new_def)

lemma track_manager_refines_witness:
  "\<exists>view m'. tm_frame [sample_track 0, sample_track 4, sample_track 9] 5
      (tm_new \<lparr>roi_left = 0, roi_top = 0, roi_right = 9, roi_bottom = 9, roi_enabled = True\<rparr>) = Some (view, m')
    \<and> distinct (map ts_track_id view)"
  using track_manager_refines[OF tm_inv_new sample_tracks_ok] by blast

end
