(* ===== verification/Temporal_Service.thy ===== *)
theory Temporal_Service
  imports Track_Manager Service C_Text
begin

text \<open>
  \<open>temporal/src/temporal_service.cc\<close>: from the tracks plane to the events plane, and the receive
  loop of \<open>tools/events_receiver.cc\<close>, which trusts the count of the header. \<open>std::atan2\<close> is the
  parameter of \<open>Track_State\<close>.
\<close>

section \<open>Summaries\<close>

definition u8_of_bool :: "bool \<Rightarrow> u8" where
  "u8_of_bool b = (if b then 1 else 0)"

definition fill_summary :: "(fp \<Rightarrow> fp \<Rightarrow> fp) \<Rightarrow> track_state \<Rightarrow> wire_summary" where
  "fill_summary atan2f s =
     \<lparr>ws_class_name = strncpy (ts_class_name s) 15 @ [NUL], ws_track_id = ts_track_id s,
      ws_frames_seen = ts_frames_seen s, ws_first_seen_us = ts_first_seen_us s,
      ws_last_seen_us = ts_last_seen_us s, ws_duration_ms = duration_ms s,
      ws_visibility = visibility s, ws_cx = ob_cx (ts_last s), ws_cy = ob_cy (ts_last s),
      ws_left = ob_left (ts_last s), ws_top = ob_top (ts_last s), ws_right = ob_right (ts_last s),
      ws_bottom = ob_bottom (ts_last s), ws_vx = ts_vx s, ws_vy = ts_vy s, ws_speed = speed s,
      ws_heading_deg = heading_deg atan2f s, ws_accel = ts_accel s,
      ws_loiter_score = ts_loiter_score s, ws_in_roi = u8_of_bool (ts_in_roi s),
      ws_roi_entered = u8_of_bool (ts_roi_entered s), ws_roi_exited = u8_of_bool (ts_roi_exited s),
      ws_status = status s, ws_reserved = replicate 4 0\<rparr>"

text \<open>\<open>publish_frame\<close> fills one record at a time and stops at the first write that fails. It is the
  publishing step of the shared service on the records of all tracks.\<close>

fun write_summaries :: "(fp \<Rightarrow> fp \<Rightarrow> fp) \<Rightarrow> track_state list \<Rightarrow> sink \<Rightarrow> bool \<times> sink" where
  "write_summaries atan2f [] k = (True, k)"
| "write_summaries atan2f (t # ts) k =
     (case writeExact (enc_summary (fill_summary atan2f t)) k of
        (ok, k) \<Rightarrow> if ok then write_summaries atan2f ts k else (False, k))"

definition publish_frame ::
  "(fp \<Rightarrow> fp \<Rightarrow> fp) \<Rightarrow> wire_frame_header \<Rightarrow> track_state list \<Rightarrow> sink \<Rightarrow> bool \<times> sink" where
  "publish_frame atan2f hdr_in tracks k =
     (let hdr = hdr_in\<lparr>wh_count := of_nat (length tracks)\<rparr>;
          body_size = of_nat sizeof_WireFrameHeader + of_nat (length tracks) * of_nat sizeof_WireTrackSummary :: u32
      in case writeExact (enc_u32 body_size) k of (ok, k) \<Rightarrow>
           if \<not> ok then (False, k)
           else case writeExact (enc_header hdr) k of (ok, k) \<Rightarrow>
             if \<not> ok then (False, k) else write_summaries atan2f tracks k)"

lemma write_summaries_all:
  "write_summaries atan2f ts k = write_all (map (enc_summary \<circ> fill_summary atan2f) ts) k"
  by (induction ts arbitrary: k) (simp_all split: prod.split)

lemma publish_frame_records:
  "publish_frame atan2f hdr ts k = publish_records enc_summary sizeof_WireTrackSummary hdr (map (fill_summary atan2f) ts) k"
  by (simp add: publish_frame_def publish_records_def send_frame_def body_size_def write_summaries_all Let_def
      split: prod.split)

section \<open>The service\<close>

definition temporal_handle :: "(fp \<Rightarrow> fp \<Rightarrow> fp) \<Rightarrow> (wire_track, wire_summary, track_manager) handler" where
  "temporal_handle atan2f hdr recs mgr =
     do {
       (view, mgr) \<leftarrow> tm_frame recs (wh_timestamp_us hdr) mgr;
       Some (map (fill_summary atan2f) view, mgr)
     }"

definition temporal :: "(fp \<Rightarrow> fp \<Rightarrow> fp) \<Rightarrow> (wire_track, wire_summary, track_manager) service" where
  "temporal atan2f = \<lparr>sv_dec = dec_track, sv_in_size = sizeof_WireTrackRecord,
     sv_enc = enc_summary, sv_out_size = sizeof_WireTrackSummary, sv_handle = temporal_handle atan2f\<rparr>"

definition temporal_loop ::
  "(fp \<Rightarrow> fp \<Rightarrow> fp) \<Rightarrow> sink list list \<Rightarrow> track_manager \<Rightarrow> consumer \<Rightarrow> delivery list
   \<Rightarrow> (track_manager \<times> consumer \<times> input_end option) option" where
  "temporal_loop atan2f = service_loop (temporal atan2f)"

definition temporal_main ::
  "(fp \<Rightarrow> fp \<Rightarrow> fp) \<Rightarrow> roi \<Rightarrow> bool \<Rightarrow> (sink list list \<times> delivery list) attempt list \<Rightarrow> sink list
   \<Rightarrow> (track_manager \<times> consumer) option" where
  "temporal_main atan2f r out_ok as ks =
     (if \<not> out_ok then Some (tm_new r, \<lparr>co_conn = None, co_backlog = ks, co_closed = []\<rparr>)
      else service_main (temporal atan2f) as (tm_new r) \<lparr>co_conn = None, co_backlog = ks, co_closed = []\<rparr>)"

section \<open>The events receiver\<close>

definition status_str :: "u8 \<Rightarrow> string" where
  "status_str s = (if s = 0 then ''TENT'' else if s = 1 then ''ACTV'' else if s = 2 then ''LOST'' else ''?'')"

definition roi_tag :: "wire_summary \<Rightarrow> char" where
  "roi_tag s = (if ws_roi_entered s \<noteq> 0 then CHR ''E'' else if ws_roi_exited s \<noteq> 0 then CHR ''X''
     else if ws_in_roi s \<noteq> 0 then CHR ''I'' else CHR ''-'')"

text \<open>A line printed: the frame, the record, and the two fields computed for it.\<close>

type_synonym event_line = "u64 \<times> wire_summary \<times> string \<times> char"

definition event_line :: "wire_frame_header \<Rightarrow> wire_summary \<Rightarrow> event_line" where
  "event_line hdr s = (wh_frame_id hdr, s, status_str (ws_status s), roi_tag s)"

datatype events_end = Ev_closed | Ev_read_error

lemma read_records_avail:
  "read_records dec sz n s = (rs, s') \<Longrightarrow> length (avail s') \<le> length (avail s) \<or> length rs < n"
proof (induction n arbitrary: s rs)
  case (Suc n)
  show ?case
  proof (cases "readExact sz s")
    case (Pair b s1)
    show ?thesis
    proof (cases b)
      case None
      then show ?thesis using Suc.prems Pair by auto
    next
      case (Some bs)
      obtain rs1 where r: "read_records dec sz n s1 = (rs1, s')" "rs = dec bs # rs1"
        using Suc.prems Pair Some by (auto split: prod.splits)
      have "length (avail s1) \<le> length (avail s)" using readExact_SomeD(2)[of sz s bs s1] Pair Some by simp
      then show ?thesis using Suc.IH[OF r(1)] r(2) by auto
    qed
  qed
qed simp

function events_receiveLoop :: "delivery list \<Rightarrow> event_line list \<times> events_end" where
  "events_receiveLoop s =
     (case readExact 4 s of
        (None, _) \<Rightarrow> ([], Ev_closed)
      | (Some _, s1) \<Rightarrow>
        (case readExact sizeof_WireFrameHeader s1 of
           (None, _) \<Rightarrow> ([], Ev_closed)
         | (Some hb, s2) \<Rightarrow>
           (let hdr = dec_header hb in
            case read_records dec_summary sizeof_WireTrackSummary (unat (wh_count hdr)) s2 of
              (rs, s3) \<Rightarrow>
                if length rs < unat (wh_count hdr) then (map (event_line hdr) rs, Ev_read_error)
                else (case events_receiveLoop s3 of (ls, e) \<Rightarrow> (map (event_line hdr) rs @ ls, e)))))"
  by pat_completeness auto
termination
proof (relation "measure (\<lambda>s. length (avail s))", simp, goal_cases)
  case (1 s x y lb x' y' hb hdr x'' y'')
  then have "length (avail y) + 4 = length (avail s)" "length (avail y') \<le> length (avail y)"
    using readExact_SomeD[of 4 s lb y] readExact_SomeD[of sizeof_WireFrameHeader y hb y'] by simp_all
  then show ?case using 1 read_records_avail[of dec_summary sizeof_WireTrackSummary _ y' x'' y''] by fastforce
qed

declare events_receiveLoop.simps [simp del]

section \<open>Every feature is a single-precision value\<close>

lemma in_fmt_consts [simp]: "in_fmt p (Fin 0)" "in_fmt p (Fin 1)"
proof -
  have "(1::rat) \<le> 2 ^ 100" by simp
  then show "in_fmt p (Fin 1)" using big_le_maxfin[of p] by simp
qed simp

lemma one_le_maxfin [simp]: "1 \<le> maxfin p"
  using in_fmt_consts(2)[of p] by (simp del: in_fmt_consts)

lemma in_fmt_ops [simp]:
  "in_fmt p (fadd p x y)" "in_fmt p (fsub p x y)" "in_fmt p (fmul p x y)" "in_fmt p (fdiv p x y)"
  "in_fmt p (fsqrt p x)"
proof -
  have add: "in_fmt p (fadd p x y)" for x y by (cases x; cases y) simp_all
  then show "in_fmt p (fadd p x y)" "in_fmt p (fsub p x y)" by (simp_all add: fsub_def)
  show "in_fmt p (fmul p x y)" "in_fmt p (fdiv p x y)" by (cases x; cases y; simp)+
  show "in_fmt p (fsqrt p x)" by (cases x) simp_all
qed

definition ts_fmt :: "track_state \<Rightarrow> bool" where
  "ts_fmt s \<longleftrightarrow> list_all (in_fmt F32) [ts_vx s, ts_vy s, ts_accel s, ts_loiter_score s]"

lemma ts_update_fmt:
  assumes "ts_update obs r s = Some s'" "ts_fmt s"
  shows "ts_fmt s'"
proof -
  let ?first = "ts_frames_seen s = 0"
  obtain s1 x where s1: "ts_velocity ?first obs (ts_bookkeeping obs s) = Some s1"
    and x: "ts_loiter (ts_append obs (ts_acceleration ?first obs s1)) = Some x" "s' = ts_roi obs r x"
    using assms(1) by (auto simp: ts_update_def Let_def split: Option.bind_splits)
  have "ts_fmt s1"
    using s1 assms(2) by (auto simp: ts_velocity_def ts_bookkeeping_def ts_fmt_def ema_def Let_def
        split: if_splits Option.bind_splits)
  then have "ts_fmt (ts_append obs (ts_acceleration ?first obs s1))"
    by (simp add: ts_fmt_def ts_append_def ts_acceleration_def Let_def)
  then have "ts_fmt x"
    using x(1) by (auto simp: ts_loiter_def ts_fmt_def std_fmax_def std_fmin_def Let_def
        split: if_splits Option.bind_splits prod.splits)
  then show ?thesis using x(2) by (simp add: ts_roi_def ts_fmt_def Let_def)
qed

definition tm_fmt :: "track_manager \<Rightarrow> bool" where
  "tm_fmt m \<longleftrightarrow> (\<forall>kv \<in> set (tm_tracks m). ts_fmt (snd kv))"

lemma set_AList_update: "set (AList.update k v al) \<subseteq> insert (k, v) (set al)"
  by (induction al) auto

lemma observe_fmt:
  assumes "observe t rec m = Some m'" "tm_fmt m"
  shows "tm_fmt m'"
proof (cases "wt_track_id rec = 0")
  case False
  let ?it = "case map_of (tm_tracks m) (wt_track_id rec) of Some s \<Rightarrow> s
      | None \<Rightarrow> ts_new (wt_track_id rec) (wt_class_name rec) t"
  obtain obs s where s: "ts_update obs (tm_roi m) ?it = Some s"
      "tm_tracks m' = AList.update (wt_track_id rec) s (tm_tracks m)"
    using assms(1) False by (auto simp: observe_def Let_def split: Option.bind_splits)
  have "ts_fmt ?it"
  proof (cases "map_of (tm_tracks m) (wt_track_id rec)")
    case None
    then show ?thesis by (simp add: ts_fmt_def ts_new_def)
  next
    case (Some s)
    then show ?thesis using assms(2) map_of_SomeD[OF Some] by (auto simp: tm_fmt_def)
  qed
  then have "ts_fmt s" using ts_update_fmt[OF s(1)] by blast
  then show ?thesis
    using s(2) assms(2) set_AList_update[of "wt_track_id rec" s "tm_tracks m"] by (auto simp: tm_fmt_def)
qed (use assms in \<open>simp add: observe_def\<close>)

lemma tm_frame_fmt:
  assumes "tm_frame recs t m = Some (view, m')" "tm_fmt m"
  shows "tm_fmt m'" "\<forall>s \<in> set view. ts_fmt s"
proof -
  obtain m1 where m1: "foldo (observe t) recs (begin_frame m) = Some m1"
      "m' = m1\<lparr>tm_tracks := List.map_filter (end_track (tm_seen m1)) (tm_tracks m1)\<rparr>"
      "view = map snd (tm_tracks m')"
    using assms(1) by (auto simp: tm_frame_def end_frame_def Let_def split: Option.bind_splits)
  have "tm_fmt m1"
    by (rule foldo_SomeD[OF m1(1)]) (use assms(2) observe_fmt in \<open>auto simp: tm_fmt_def begin_frame_def\<close>)
  moreover have "ts_fmt (snd kv')" if "end_track seen kv = Some kv'" "ts_fmt (snd kv)" for seen kv kv'
    using that by (auto simp: end_track_def mark_missed_def ts_fmt_def Let_def split: if_splits)
  ultimately show "tm_fmt m'" by (auto simp: m1(2) tm_fmt_def List.map_filter_def)
  then show "\<forall>s \<in> set view. ts_fmt s" by (auto simp: m1(3) tm_fmt_def)
qed

lemma length_strncpy_nul: "length (strncpy s 15 @ [NUL]) = 16"
  by simp

lemma wf_fill_summary: "ts_fmt s \<Longrightarrow> wf_summary (fill_summary atan2f s)"
  unfolding wf_summary_def fill_summary_def
  by (simp add: ts_fmt_def visibility_def speed_def heading_deg_def del: length_append)
    (simp add: ts_fmt_def)

section \<open>Frames of tracks and frames of events\<close>

definition tracks_frame_ok :: "wire_frame_header \<times> wire_track list \<Rightarrow> bool" where
  "tracks_frame_ok f \<longleftrightarrow> (case f of (h, recs) \<Rightarrow> wf_header h \<and> unat (wh_count h) = length recs
     \<and> list_all wf_track recs \<and> list_all rec_ok recs \<and> ids_ok recs)"

text \<open>What is published for a frame of tracks: its frame id and time, and one summary for each live
  track; those not shown as lost are the tracks of the frame.\<close>

definition summarised ::
  "wire_frame_header \<times> wire_track list \<Rightarrow> wire_frame_header \<times> wire_summary list \<Rightarrow> bool" where
  "summarised f g \<longleftrightarrow> (case f of (h, recs) \<Rightarrow> case g of (h', ss) \<Rightarrow>
     wh_frame_id h' = wh_frame_id h \<and> wh_timestamp_us h' = wh_timestamp_us h
     \<and> distinct (map ws_track_id ss)
     \<and> ws_track_id ` {s \<in> set ss. ws_status s \<noteq> 2} = wt_track_id ` set recs - {0})"

lemma temporal_handle_ok:
  assumes inv: "tm_inv m" "tm_fmt m" and f: "tracks_frame_ok (h, recs)"
  obtains ss m' where "temporal_handle atan2f h recs m = Some (ss, m')" "tm_inv m'" "tm_fmt m'"
    "summarised (h, recs) (h\<lparr>wh_count := of_nat (length ss)\<rparr>, ss)" "\<forall>s \<in> set ss. wf_summary s"
proof -
  have r: "list_all rec_ok recs" "ids_ok recs" using f by (simp_all add: tracks_frame_ok_def)
  obtain view m' where fr: "tm_frame recs (wh_timestamp_us h) m = Some (view, m')" and inv': "tm_inv m'"
    and "tm_roi m' = tm_roi m"
    and "map_of (tm_tracks m') = frame_spec (tm_roi m) recs (wh_timestamp_us h) (map_of (tm_tracks m))"
    and view: "view = map snd (tm_tracks m')"
    and miss: "\<forall>i s. map_of (tm_tracks m') i = Some s \<longrightarrow> (ts_frames_missed s = 0 \<longleftrightarrow> reported recs i \<noteq> None)"
    and kept: "\<forall>i. reported recs i \<noteq> None \<longrightarrow> map_of (tm_tracks m') i \<noteq> None"
    by (rule tm_frame_spec[OF inv(1) r, of "wh_timestamp_us h"])
  note fmt = tm_frame_fmt[OF fr inv(2)]
  let ?ss = "map (fill_summary atan2f) view"
  have fill: "ws_track_id (fill_summary atan2f s) = ts_track_id s"
    "ws_status (fill_summary atan2f s) \<noteq> 2 \<longleftrightarrow> ts_frames_missed s = 0" for s
    by (auto simp: fill_summary_def status_def word_gt_0)
  have "map ws_track_id ?ss = map fst (tm_tracks m')"
    using inv' by (auto simp: view fill_summary_def tm_inv_def)
  then have ds: "distinct (map ws_track_id ?ss)" using inv' by (simp add: tm_inv_def)
  have "ws_track_id ` {s \<in> set ?ss. ws_status s \<noteq> 2} = ts_track_id ` {s \<in> set view. ts_frames_missed s = 0}"
  proof -
    have "{s \<in> set ?ss. ws_status s \<noteq> 2} = fill_summary atan2f ` {s \<in> set view. ts_frames_missed s = 0}"
      using fill(2) by auto
    then show ?thesis by (simp add: image_image fill(1))
  qed
  then have act: "ws_track_id ` {s \<in> set ?ss. ws_status s \<noteq> 2} = wt_track_id ` set recs - {0}"
    using active_ids[OF inv' miss kept] by (simp add: view)
  show thesis
    by (rule that[of ?ss m'])
      (use fr inv' fmt ds act wf_fill_summary in \<open>auto simp: temporal_handle_def summarised_def\<close>)
qed

lemma temporal_run_ok:
  "tm_inv m \<Longrightarrow> tm_fmt m \<Longrightarrow> list_all tracks_frame_ok fs \<Longrightarrow>
   \<exists>os m'. handle_run (temporal_handle atan2f) fs m = Some (os, m') \<and> list_all2 summarised fs os
     \<and> (\<forall>(h, ss) \<in> set os. wf_header h \<and> wh_count h = of_nat (length ss) \<and> (\<forall>s \<in> set ss. wf_summary s))"
proof (induction fs arbitrary: m)
  case (Cons f fs)
  obtain h recs where f: "f = (h, recs)" by (cases f)
  have ok: "tracks_frame_ok (h, recs)" "wf_header h" using Cons.prems(3) by (simp_all add: f tracks_frame_ok_def)
  obtain ss m1 where h1: "temporal_handle atan2f h recs m = Some (ss, m1)" "tm_inv m1" "tm_fmt m1"
      "summarised (h, recs) (h\<lparr>wh_count := of_nat (length ss)\<rparr>, ss)" "\<forall>s \<in> set ss. wf_summary s"
    by (rule temporal_handle_ok[OF Cons.prems(1,2) ok(1), of atan2f])
  obtain os m' where run: "handle_run (temporal_handle atan2f) fs m1 = Some (os, m')" "list_all2 summarised fs os"
      "\<forall>(h, ss) \<in> set os. wf_header h \<and> wh_count h = of_nat (length ss) \<and> (\<forall>s \<in> set ss. wf_summary s)"
    using Cons.IH[OF h1(2,3)] Cons.prems(3) by auto
  have "wf_header (h\<lparr>wh_count := of_nat (length ss)\<rparr>)" using ok(2) by (simp add: wf_header_def)
  then show ?case using h1 run by (simp add: f)
qed simp

lemma events_receiveLoop_frames:
  "\<forall>(h, ss) \<in> set os. wf_header h \<and> unat (wh_count h) = length ss \<and> (\<forall>s \<in> set ss. wf_summary s) \<Longrightarrow>
   avail s = stream_of enc_summary sizeof_WireTrackSummary os \<Longrightarrow>
   events_receiveLoop s = (concat (map (\<lambda>(h, ss). map (event_line h) ss) os), Ev_closed)"
proof (induction os arbitrary: s)
  case Nil
  then obtain s' where "readExact 4 s = (None, s')" using readExact_None[of s 4] by auto
  then show ?case by (simp add: events_receiveLoop.simps)
next
  case (Cons o1 os)
  obtain h ss where o1: "o1 = (h, ss)" by (cases o1)
  have wf: "wf_header h" "unat (wh_count h) = length ss" "\<forall>s \<in> set ss. wf_summary s"
    using Cons.prems(1) by (auto simp: o1)
  have hl: "length (enc_header h) = sizeof_WireFrameHeader" using wf(1) by (rule hdr.length_enc_rec)
  obtain lb s1 where r1: "readExact 4 s = (Some lb, s1)"
    and a1: "avail s1 = enc_header h @ concat (map enc_summary ss) @ stream_of enc_summary sizeof_WireTrackSummary os"
    by (rule readExact_Some[of 4 s]) (auto simp: Cons.prems(2) o1 frame_bytes_def)
  obtain s2 where r2: "readExact sizeof_WireFrameHeader s1 = (Some (enc_header h), s2)"
    and a2: "avail s2 = concat (map enc_summary ss) @ stream_of enc_summary sizeof_WireTrackSummary os"
    by (rule readExact_Some[of sizeof_WireFrameHeader s1]) (auto simp: a1 hl)
  obtain s3 where r3: "read_records dec_summary sizeof_WireTrackSummary (length ss) s2 = (ss, s3)"
    and a3: "avail s3 = stream_of enc_summary sizeof_WireTrackSummary os"
    using summ.read_records_all[OF wf(3) a2] by blast
  have "events_receiveLoop s3 = (concat (map (\<lambda>(h, ss). map (event_line h) ss) os), Ev_closed)"
    using Cons.IH[OF _ a3] Cons.prems(1) by auto
  then show ?case
    by (subst events_receiveLoop.simps) (simp add: r1 r2 r3 Let_def hdr.dec_enc_rec[OF wf(1)] wf(2) o1)
qed

section \<open>Properties\<close>


definition sample_tracks_frame :: "wire_frame_header \<times> wire_track list" where
  "sample_tracks_frame = (\<lparr>wh_frame_id = 7, wh_timestamp_us = 9, wh_count = 3, wh_reserved = replicate 6 0\<rparr>,
     [sample_track 0, sample_track 4, sample_track 9])"


section \<open>The command line\<close>

text \<open>\<open>sscanf (arg, "%d,%d,%d,%d", ...)\<close>: the values converted, up to n; what follows the last is ignored.\<close>

fun scan_csv :: "nat \<Rightarrow> string \<Rightarrow> int list option" where
  "scan_csv 0 s = Some []"
| "scan_csv (Suc n) s =
     (case scan_d s of
        Scan_undefined \<Rightarrow> None
      | Scan_fail \<Rightarrow> Some []
      | Scanned v rest \<Rightarrow>
          (if n \<noteq> 0 \<and> rest \<noteq> [] \<and> hd rest = CHR '',''
           then map_option ((#) v) (scan_csv n (tl rest)) else Some [v]))"

definition parse_roi :: "string \<Rightarrow> roi \<Rightarrow> (bool \<times> roi) option" where
  "parse_roi arg r =
     (case scan_csv 4 arg of
        None \<Rightarrow> None
      | Some vs \<Rightarrow>
          if length vs \<noteq> 4 then Some (False, r)
          else Some (True, r\<lparr>roi_left := i32 (vs ! 0), roi_top := i32 (vs ! 1), roi_right := i32 (vs ! 2),
                            roi_bottom := i32 (vs ! 3), roi_enabled := True\<rparr>))"

text \<open>The options; \<open>Some None\<close> is the exit with status 1. An option that is not \<open>--roi\<close> is ignored.\<close>

fun temporal_opts :: "string list \<Rightarrow> roi \<Rightarrow> roi option option" where
  "temporal_opts (a # v # as) r =
     (if a = ''--roi''
      then (case parse_roi v r of
          None \<Rightarrow> None
        | Some (ok, r) \<Rightarrow> if ok then temporal_opts as r else Some None)
      else temporal_opts (v # as) r)"
| "temporal_opts [a] r = Some (Some r)"
| "temporal_opts [] r = Some (Some r)"

definition no_roi :: roi where
  "no_roi = \<lparr>roi_left = 0, roi_top = 0, roi_right = 0, roi_bottom = 0, roi_enabled = False\<rparr>"

definition temporal_args :: "string list \<Rightarrow> roi option option" where
  "temporal_args args = (case args of [] \<Rightarrow> Some None | device # opts \<Rightarrow> temporal_opts opts no_roi)"

lemma hd_fmt_d: "hd (fmt_d n) \<noteq> CHR '',''"
proof -
  have "hd (dec_digits k) \<noteq> CHR '',''" for k
    using dec_digits_digits[of "hd (dec_digits k)" k] by (auto simp: is_digit_def)
  then show ?thesis by (simp add: fmt_d_def)
qed

lemma scan_csv_comma:
  assumes "n \<noteq> 0"
  shows "scan_csv (Suc n) (fmt_d v @ CHR '','' # s) = map_option ((#) (sint v)) (scan_csv n s)"
  using assms by (simp add: scan_d_fmt_d is_digit_def)

lemma scan_csv_last: "scan_csv (Suc 0) (fmt_d v) = Some [sint v]"
  using scan_d_fmt_d[of "[]" v] by simp

text \<open>The command line of the temporal service gives the region of interest that was written: for any
  four 32-bit coordinates, negative ones included, printed in decimal and separated by commas, and
  with any device; the last of several regions counts.\<close>

theorem roi_from_command_line:
  "temporal_args (device # concat (map (\<lambda>(l, t, r, b).
       [''--roi'', fmt_d l @ '','' @ fmt_d t @ '','' @ fmt_d r @ '','' @ fmt_d b]) rois))
     = Some (Some (fold (\<lambda>(l, t, r, b) _. \<lparr>roi_left = l, roi_top = t, roi_right = r, roi_bottom = b, roi_enabled = True\<rparr>)
         rois no_roi))"
proof -
  have p: "parse_roi (fmt_d l @ '','' @ fmt_d t @ '','' @ fmt_d r @ '','' @ fmt_d b) r0
      = Some (True, \<lparr>roi_left = l, roi_top = t, roi_right = r, roi_bottom = b, roi_enabled = True\<rparr>)" for l t r b r0
  proof -
    have "scan_csv 4 (fmt_d l @ '','' @ fmt_d t @ '','' @ fmt_d r @ '','' @ fmt_d b)
        = Some [sint l, sint t, sint r, sint b]"
      using scan_csv_comma[of 3 l] scan_csv_comma[of 2 t] scan_csv_comma[of 1 r] scan_csv_last[of b]
      by (simp add: numeral_eq_Suc del: scan_csv.simps)
    then show ?thesis by (simp add: parse_roi_def)
  qed
  have "temporal_opts (concat (map (\<lambda>(l, t, r, b).
       [''--roi'', fmt_d l @ '','' @ fmt_d t @ '','' @ fmt_d r @ '','' @ fmt_d b]) rois)) r0
     = Some (Some (fold (\<lambda>(l, t, r, b) _. \<lparr>roi_left = l, roi_top = t, roi_right = r, roi_bottom = b, roi_enabled = True\<rparr>)
         rois r0))" for r0
  proof (induction rois arbitrary: r0)
    case (Cons q rois)
    obtain l t r b where "q = (l, t, r, b)" by (cases q)
    then show ?case using Cons p[of l t r b r0] by simp
  qed simp
  then show ?thesis by (simp add: temporal_args_def)
qed

end
