(* ===== verification/Output_Types.thy ===== *)
theory Output_Types
  imports Bytetrack_Service Temporal_Service
begin

text \<open>
  What the two services send has the type of their plane, whatever bytes they receive: every connection
  was sent whole frames, each with its length prefix, a header that counts its records, and well-formed
  records, the last cut short when the consumer left. The services are two instances of one interface.
\<close>

section \<open>Typed streams\<close>

definition frames_typed :: "('o \<Rightarrow> bool) \<Rightarrow> (wire_frame_header \<times> 'o list) list \<Rightarrow> bool" where
  "frames_typed ty os \<longleftrightarrow> (\<forall>(h, rs)\<in>set os. wf_header h \<and> wh_count h = of_nat (length rs) \<and> (\<forall>r\<in>set rs. ty r))"

definition whole :: "('o \<Rightarrow> bytes) \<Rightarrow> nat \<Rightarrow> ('o \<Rightarrow> bool) \<Rightarrow> sink \<Rightarrow> bool" where
  "whole enc sz ty k \<longleftrightarrow> (\<exists>os. frames_typed ty os \<and> sent k = stream_of enc sz os)"

definition cut :: "('o \<Rightarrow> bytes) \<Rightarrow> nat \<Rightarrow> ('o \<Rightarrow> bool) \<Rightarrow> sink \<Rightarrow> bool" where
  "cut enc sz ty k \<longleftrightarrow> (\<exists>os n. frames_typed ty os \<and> sent k = take n (stream_of enc sz os))"

definition consumer_typed :: "('o \<Rightarrow> bytes) \<Rightarrow> nat \<Rightarrow> ('o \<Rightarrow> bool) \<Rightarrow> consumer \<Rightarrow> bool" where
  "consumer_typed enc sz ty c \<longleftrightarrow> (\<forall>k\<in>set (co_backlog c). sent k = [])
     \<and> (\<forall>k. co_conn c = Some k \<longrightarrow> whole enc sz ty k) \<and> (\<forall>k\<in>set (co_closed c). cut enc sz ty k)"

lemma whole_new: "sent k = [] \<Longrightarrow> whole enc sz ty k"
  unfolding whole_def by (rule exI[of _ "[]"]) (simp add: frames_typed_def)

lemma whole_cut: "whole enc sz ty k \<Longrightarrow> cut enc sz ty k"
  unfolding whole_def cut_def by (metis take_all_iff order_refl)

lemma stream_of_snoc: "stream_of enc sz (os @ [(h, rs)]) = stream_of enc sz os @ frame_bytes enc sz h rs"
  by (simp add: stream_of_def)

lemma publish_records_typed:
  assumes "publish_records enc sz h outs k = (ok, k')" "whole enc sz ty k" "wf_header h" "\<forall>r\<in>set outs. ty r"
  shows "if ok then whole enc sz ty k' else cut enc sz ty k'"
proof -
  let ?h = "h\<lparr>wh_count := of_nat (length outs)\<rparr>"
  obtain os where os: "frames_typed ty os" "sent k = stream_of enc sz os" using assms(2) by (auto simp: whole_def)
  have t: "frames_typed ty (os @ [(?h, outs)])"
    using os(1) assms(3,4) by (auto simp: frames_typed_def wf_header_def)
  from send_frame_sent[OF assms(1)[unfolded publish_records_def]] show ?thesis
  proof (cases ok)
    case True
    with send_frame_sent[OF assms(1)[unfolded publish_records_def]] os(2)
    have "sent k' = stream_of enc sz (os @ [(?h, outs)])" by (simp only: stream_of_snoc if_True)
    then show ?thesis using t True unfolding whole_def by auto
  next
    case False
    with send_frame_sent[OF assms(1)[unfolded publish_records_def]] os(2)
    obtain n where "sent k' = stream_of enc sz os @ take n (frame_bytes enc sz ?h outs)" by auto
    then have "sent k' = take (length (stream_of enc sz os) + n) (stream_of enc sz (os @ [(?h, outs)]))"
      by (simp add: stream_of_snoc)
    then show ?thesis using t False unfolding cut_def by auto
  qed
qed

lemma publish_step_typed:
  assumes "consumer_typed enc sz ty c" "wf_header h" "\<forall>r\<in>set outs. ty r"
  shows "consumer_typed enc sz ty (publish_step enc sz h outs c)"
proof -
  define d where "d = (if co_conn c = None then try_accept c else c)"
  have d: "consumer_typed enc sz ty d"
  proof (cases "co_conn c = None \<and> co_backlog c \<noteq> []")
    case True
    then obtain k ks where k: "co_backlog c = k # ks" by (auto simp: neq_Nil_conv)
    then have "d = c\<lparr>co_conn := Some k, co_backlog := ks\<rparr>" using True by (simp add: d_def try_accept_def)
    moreover have "whole enc sz ty k" using assms(1) k by (intro whole_new) (simp add: consumer_typed_def)
    ultimately show ?thesis using assms(1) k by (simp add: consumer_typed_def)
  next
    case False
    then have "d = c" by (auto simp: d_def try_accept_def)
    then show ?thesis using assms(1) by simp
  qed
  show ?thesis
  proof (cases "co_conn d")
    case None
    then show ?thesis using d by (simp add: publish_step_def d_def[symmetric])
  next
    case (Some k)
    obtain ok k' where p: "publish_records enc sz h outs k = (ok, k')" by fastforce
    have "whole enc sz ty k" using d Some by (simp add: consumer_typed_def)
    note t = publish_records_typed[OF p this assms(2,3)]
    have "publish_step enc sz h outs c
        = (if ok then d\<lparr>co_conn := Some k'\<rparr> else d\<lparr>co_conn := None, co_closed := co_closed d @ [k']\<rparr>)"
      by (simp add: publish_step_def Let_def d_def[symmetric] Some p)
    then show ?thesis using t d by (cases ok) (simp_all add: consumer_typed_def)
  qed
qed

lemma read_header_wf: "read_header sz s = (Inr h, s') \<Longrightarrow> wf_header h"
  by (auto simp: read_header_def Let_def wf_header_def dec_header_def sizeof_WireFrameHeader_def
      split: prod.splits option.splits if_splits dest!: readExact_SomeD(1))

lemma read_records_dec: "read_records dec sz n s = (rs, s') \<Longrightarrow> r \<in> set rs \<Longrightarrow> \<exists>b. r = dec b"
  by (induction n arbitrary: s rs s') (auto split: prod.splits option.splits)

text \<open>Consumers come to the listening socket as new connections.\<close>

definition new_consumers :: "(sink list list \<times> delivery list) attempt list \<Rightarrow> bool" where
  "new_consumers as \<longleftrightarrow> (\<forall>a\<in>set as. case a of Connected (kss, s) \<Rightarrow> \<forall>ks\<in>set kss. \<forall>k\<in>set ks. sent k = [] | _ \<Rightarrow> True)"

lemma connect_input_new:
  "connect_input as = (Some (kss, s), as') \<Longrightarrow> new_consumers as
   \<Longrightarrow> new_consumers as' \<and> (\<forall>ks\<in>set kss. \<forall>k\<in>set ks. sent k = [])"
  by (induction as rule: connect_input.induct) (auto simp: new_consumers_def)

section \<open>The interface of the services\<close>

text \<open>\<open>inv\<close> is the type of the component's state. The component keeps it and publishes records of
  their type, if those it gets could have been decoded from bytes.\<close>

locale typed_service =
  fixes v :: "('r, 'o, 's) service" and inv :: "'s \<Rightarrow> bool" and ty :: "'o \<Rightarrow> bool"
  assumes handle_typed: "sv_handle v hdr rs st = Some (outs, st') \<Longrightarrow> inv st \<Longrightarrow> \<forall>r\<in>set rs. \<exists>b. r = sv_dec v b
    \<Longrightarrow> inv st' \<and> (\<forall>x\<in>set outs. ty x)"
begin

definition out_typed :: "consumer \<Rightarrow> bool" where
  "out_typed = consumer_typed (sv_enc v) (sv_out_size v) ty"

lemma turn_typed:
  assumes "service_turn v st c s = Some t" "inv st" "out_typed c"
  shows "case t of Next st' c' _ \<Rightarrow> inv st' \<and> out_typed c' | Lost st' c' _ \<Rightarrow> inv st' \<and> out_typed c'"
proof -
  obtain r s1 where h: "read_header (sv_in_size v) s = (r, s1)" by fastforce
  show ?thesis
  proof (cases r)
    case (Inl e)
    then show ?thesis using assms h by (auto simp: service_turn_def)
  next
    case (Inr hdr)
    obtain rs s2 where rr: "read_records (sv_dec v) (sv_in_size v) (unat (wh_count hdr)) s1 = (rs, s2)" by fastforce
    obtain outs st' where f: "sv_handle v hdr rs st = Some (outs, st')"
      "t = Next st' (publish_step (sv_enc v) (sv_out_size v) hdr outs c) s2"
      using assms(1) h Inr rr by (auto simp: service_turn_def split: Option.bind_splits)
    have "\<forall>r\<in>set rs. \<exists>b. r = sv_dec v b" using read_records_dec[OF rr] by blast
    from handle_typed[OF f(1) assms(2) this] have "inv st'" "\<forall>x\<in>set outs. ty x" by auto
    then show ?thesis
      using publish_step_typed[OF _ read_header_wf[OF h[unfolded Inr]]] assms(3) f(2) by (auto simp: out_typed_def)
  qed
qed

lemma out_typed_backlog: "out_typed c \<Longrightarrow> \<forall>k\<in>set ks. sent k = [] \<Longrightarrow> out_typed (c\<lparr>co_backlog := co_backlog c @ ks\<rparr>)"
  by (auto simp: out_typed_def consumer_typed_def)

lemma loop_typed:
  "service_loop v kss st c s = Some (st', c', e) \<Longrightarrow> \<forall>ks\<in>set kss. \<forall>k\<in>set ks. sent k = []
    \<Longrightarrow> inv st \<Longrightarrow> out_typed c \<Longrightarrow> inv st' \<and> out_typed c'"
proof (induction kss arbitrary: st c s)
  case (Cons ks kss)
  let ?c = "c\<lparr>co_backlog := co_backlog c @ ks\<rparr>"
  obtain t where t: "service_turn v st ?c s = Some t" using Cons.prems(1) by (auto split: option.splits)
  have "out_typed ?c" using Cons.prems(2,4) by (intro out_typed_backlog) auto
  note tt = turn_typed[OF t Cons.prems(3) this]
  show ?case
  proof (cases t)
    case (Next st1 c1 s1)
    then show ?thesis using Cons.IH[of st1 c1 s1] Cons.prems(1,2) t tt by simp
  next
    case (Lost st1 c1 e1)
    then show ?thesis using Cons.prems(1) t tt by simp
  qed
qed simp

lemma exit_typed: "out_typed c \<Longrightarrow> out_typed (service_exit c)"
  by (auto simp: out_typed_def consumer_typed_def service_exit_def intro: whole_cut split: option.splits)

lemma main_typed:
  "service_main v as st c = Some (st', c') \<Longrightarrow> new_consumers as \<Longrightarrow> inv st \<Longrightarrow> out_typed c \<Longrightarrow> inv st' \<and> out_typed c'"
proof (induction as arbitrary: st c rule: measure_induct_rule[of length])
  case (less as)
  note eq = service_main.simps[of v as st c]
  show ?case
  proof (cases "fst (connect_input as)")
    case None
    then show ?thesis using less.prems eq exit_typed by (cases "connect_input as") auto
  next
    case (Some x)
    then obtain kss s as' where ci: "connect_input as = (Some (kss, s), as')" by (metis prod.collapse)
    note nc = connect_input_new[OF ci less.prems(2)]
    obtain st1 c1 e where l: "service_loop v kss st c s = Some (st1, c1, e)"
      using less.prems(1) eq ci by (auto split: option.splits)
    note lt = loop_typed[OF l conjunct2[OF nc] less.prems(3,4)]
    show ?thesis
    proof (cases e)
      case None
      then show ?thesis using less.prems(1) eq ci l lt exit_typed[OF conjunct2[OF lt]] by simp
    next
      case (Some e1)
      then have "service_main v as' st1 c1 = Some (st', c')" using less.prems(1) eq ci l by simp
      from less.IH[OF connect_input_less[OF ci] this conjunct1[OF nc]] lt show ?thesis by simp
    qed
  qed
qed

end

text \<open>The two services.\<close>

lemma update_dets:
  assumes "update fid dets s = Some (outs, s')"
  shows "\<forall>x\<in>set outs. to_det x \<in> set dets"
proof -
  obtain m u where m: "match_tracks (tracks s) dets = Some (m, u)"
    "outs = snd (snd (fold (track_det fid dets m) [0..<length dets] (tracks s, next_id s, [])))"
    using assms by (auto simp: update_def case_prod_beta Let_def split: Option.bind_splits)
  have "\<forall>x\<in>set (snd (snd (fold (track_det fid dets m) ds st))). to_det x \<in> set dets"
    if "\<forall>d\<in>set ds. d < length dets" "\<forall>x\<in>set (snd (snd st)). to_det x \<in> set dets" for ds st
    using that
  proof (induction ds arbitrary: st)
    case (Cons d ds)
    have "\<forall>x\<in>set (snd (snd (track_det fid dets m d st))). to_det x \<in> set dets"
      using Cons.prems by (cases st) (auto simp: track_det_def Let_def split: option.splits if_splits)
    then show ?case using Cons by simp
  qed simp
  from this[of "[0..<length dets]" "(tracks s, next_id s, [])"] show ?thesis by (simp add: m(2))
qed

interpretation tracker: typed_service "bytetrack update" "\<lambda>_. True" wf_track
proof
  fix hdr rs st outs st'
  assume h: "sv_handle (bytetrack update) hdr rs st = Some (outs, st')" and d: "\<forall>r\<in>set rs. \<exists>b. r = sv_dec (bytetrack update) b"
  obtain xs where xs: "update (wh_frame_id hdr) (frame_dets hdr rs) st = Some (xs, st')" "outs = map wire_of_output xs"
    using h by (auto simp: bytetrack_def bytetrack_handle_def split: Option.bind_splits)
  have "in_fmt F32 (td_confidence det)" if "det \<in> set (frame_dets hdr rs)" for det
    using that d by (auto simp: frame_dets_def det_of_wire_def zero_det_def bytetrack_def dec_detection_def)
  then show "True \<and> (\<forall>x\<in>set outs. wf_track x)"
    using update_dets[OF xs(1)] by (auto simp: xs(2) wf_track_def wire_of_output_def)
qed

interpretation features: typed_service "temporal atan2f" tm_fmt wf_summary for atan2f
proof
  fix hdr rs st outs st'
  assume h: "sv_handle (temporal atan2f) hdr rs st = Some (outs, st')" and "tm_fmt st"
  obtain view where v: "tm_frame rs (wh_timestamp_us hdr) st = Some (view, st')" "outs = map (fill_summary atan2f) view"
    using h by (auto simp: temporal_def temporal_handle_def split: Option.bind_splits)
  from tm_frame_fmt[OF v(1) \<open>tm_fmt st\<close>] show "tm_fmt st' \<and> (\<forall>x\<in>set outs. wf_summary x)"
    by (auto simp: v(2) wf_fill_summary)
qed

section \<open>Property\<close>



end
