(* ===== verification/Unix_Sockets.thy ===== *)
theory Unix_Sockets
  imports Control Data_Plane "HOL-Library.Monad_Syntax"
begin

text \<open>
  The sockets as the kernel sees them: descriptors, names in the file system and what is bound to them. On it
  \<open>start\<close> and \<open>stop\<close> of the two servers of the pipeline (\<open>src/ipc/unix_control_server.cc\<close>,
  \<open>src/ipc/unix_data_publisher.cc\<close>), \<open>bind_output\<close> of the two services, and the whole of
  \<open>tools/control_client.cc\<close>. Both servers are instances of one interface, in which their life cycle is
  proved; the control client is composed with the server's connection loop.
\<close>

section \<open>Descriptors and names\<close>

text \<open>\<open>os_bad\<close> counts the calls of \<open>close\<close> on a descriptor that is not open.\<close>

record os =
  os_open :: "int list"
  os_listening :: "int list"
  os_names :: "string list"
  os_bound :: "(int \<times> string) list"
  os_bad :: nat

text \<open>What \<open>strncpy\<close> leaves of a path in \<open>sun_path\<close>, which has 108 bytes and was zero.\<close>

definition sun_path :: "string \<Rightarrow> string" where
  "sun_path p = take 107 (cstr p)"

definition sys_unlink :: "string \<Rightarrow> os \<Rightarrow> os" where
  "sys_unlink p os = os\<lparr>os_names := removeAll (cstr p) (os_names os)\<rparr>"

definition sys_open :: "int \<Rightarrow> os \<Rightarrow> os" where
  "sys_open fd os = os\<lparr>os_open := fd # os_open os\<rparr>"

text \<open>A name that exists cannot be bound; for other failures there is the flag.\<close>

definition sys_bind :: "bool \<Rightarrow> int \<Rightarrow> string \<Rightarrow> os \<Rightarrow> os option" where
  "sys_bind bind_ok fd name os =
     (if \<not> bind_ok \<or> name \<in> set (os_names os) then None
      else Some (os\<lparr>os_names := name # os_names os, os_bound := (fd, name) # os_bound os\<rparr>))"

definition sys_listen :: "int \<Rightarrow> os \<Rightarrow> os" where
  "sys_listen fd os = os\<lparr>os_listening := fd # os_listening os\<rparr>"

text \<open>\<open>close\<close> ends the listening but leaves the name.\<close>

definition sys_close :: "int \<Rightarrow> os \<Rightarrow> os" where
  "sys_close fd os =
     (if fd \<in> set (os_open os)
      then os\<lparr>os_open := remove1 fd (os_open os), os_listening := removeAll fd (os_listening os),
              os_bound := filter (\<lambda>b. fst b \<noteq> fd) (os_bound os)\<rparr>
      else os\<lparr>os_bad := os_bad os + 1\<rparr>)"

text \<open>\<open>socket\<close> gives the lowest descriptor that is not open.\<close>

definition fresh_fd :: "os \<Rightarrow> int" where
  "fresh_fd os = hd (filter (\<lambda>fd. fd \<notin> set (os_open os)) (map int [0..<Suc (length (os_open os))]))"

text \<open>What the kernel decides: whether \<open>socket\<close>, \<open>bind\<close> and \<open>listen\<close> can succeed.\<close>

record kernel =
  kn_socket :: bool
  kn_bind :: bool
  kn_listen :: bool

section \<open>Opening a listening socket\<close>

text \<open>\<open>bind_output\<close> of \<open>tracker/src/bytetrack_service.cc\<close> and \<open>temporal/src/temporal_service.cc\<close>:
  -1 on any failure. Setting \<open>O_NONBLOCK\<close> has no effect here.\<close>

definition bind_output :: "kernel \<Rightarrow> string \<Rightarrow> os \<Rightarrow> int \<times> os" where
  "bind_output a path os =
     (let os = sys_unlink path os
      in if \<not> kn_socket a then (-1, os)
           else
             (let fd = fresh_fd os; os = sys_open fd os
              in case sys_bind (kn_bind a) fd (sun_path path) os of
                   None \<Rightarrow> (-1, sys_close fd os)
                 | Some os \<Rightarrow>
                     if \<not> kn_listen a then (-1, sys_close fd os) else (fd, sys_listen fd os)))"

text \<open>The end of both services.\<close>

definition service_end :: "int \<Rightarrow> int \<Rightarrow> string \<Rightarrow> os \<Rightarrow> os" where
  "service_end out_listen out_conn path os =
     sys_unlink path (sys_close out_listen (if 0 \<le> out_conn then sys_close out_conn os else os))"

section \<open>The control server\<close>

record ctrl_server =
  cs_path :: string
  cs_listen_fd :: int
  cs_running :: bool
  cs_thread :: bool \<comment> \<open>\<open>thread_\<close> is joinable\<close>

definition ctrl_new :: "string \<Rightarrow> ctrl_server" where
  "ctrl_new path = \<lparr>cs_path = path, cs_listen_fd = -1, cs_running = False, cs_thread = False\<rparr>"

text \<open>\<open>UnixControlServer::start\<close>. Assigning to a thread that is joinable ends the program (\<open>None\<close>).\<close>

definition ctrl_start :: "kernel \<Rightarrow> ctrl_server \<Rightarrow> os \<Rightarrow> (ctrl_server \<times> os) option" where
  "ctrl_start a c os =
     (let os = sys_unlink (cs_path c) os
      in if \<not> kn_socket a then Some (c\<lparr>cs_listen_fd := -1\<rparr>, os)
           else
             (let fd = fresh_fd os; os = sys_open fd os
              in case sys_bind (kn_bind a) fd (sun_path (cs_path c)) os of
                   None \<Rightarrow> Some (c\<lparr>cs_listen_fd := -1\<rparr>, sys_close fd os)
                 | Some os \<Rightarrow>
                     if \<not> kn_listen a then Some (c\<lparr>cs_listen_fd := -1\<rparr>, sys_close fd os)
                     else if cs_thread c then None
                     else Some (c\<lparr>cs_listen_fd := fd, cs_running := True, cs_thread := True\<rparr>, sys_listen fd os)))"

text \<open>\<open>UnixControlServer::stop\<close>, once the listener thread has returned; it is the destructor too.\<close>

definition ctrl_stop :: "ctrl_server \<Rightarrow> os \<Rightarrow> ctrl_server \<times> os" where
  "ctrl_stop c os =
     (let c = c\<lparr>cs_running := False\<rparr>;
          (c, os) = (if 0 \<le> cs_listen_fd c then (c\<lparr>cs_listen_fd := -1\<rparr>, sys_close (cs_listen_fd c) os) else (c, os));
          c = c\<lparr>cs_thread := False\<rparr>
      in (c, sys_unlink (cs_path c) os))"

section \<open>The socket of the publisher\<close>

text \<open>The publisher of \<open>Data_Plane\<close> with the members it leaves out.\<close>

record data_server =
  ds_path :: string
  ds_listen_fd :: int
  ds_thread :: bool
  ds_pub :: publisher

definition data_new :: "string \<Rightarrow> nat \<Rightarrow> data_server" where
  "data_new path cap = \<lparr>ds_path = path, ds_listen_fd = -1, ds_thread = False, ds_pub = pub_new cap\<rparr>"

definition data_start :: "kernel \<Rightarrow> data_server \<Rightarrow> os \<Rightarrow> (data_server \<times> os) option" where
  "data_start a d os =
     (let os = sys_unlink (ds_path d) os
      in if \<not> kn_socket a then Some (d\<lparr>ds_listen_fd := -1\<rparr>, os)
           else
             (let fd = fresh_fd os; os = sys_open fd os
              in case sys_bind (kn_bind a) fd (sun_path (ds_path d)) os of
                   None \<Rightarrow> Some (d\<lparr>ds_listen_fd := -1, ds_pub := pub_start True False (kn_listen a) (ds_pub d)\<rparr>, sys_close fd os)
                 | Some os \<Rightarrow>
                     if \<not> kn_listen a
                     then Some (d\<lparr>ds_listen_fd := -1, ds_pub := pub_start True True False (ds_pub d)\<rparr>, sys_close fd os)
                     else if ds_thread d then None
                     else Some (d\<lparr>ds_listen_fd := fd, ds_thread := True, ds_pub := pub_start True True True (ds_pub d)\<rparr>,
                       sys_listen fd os)))"

definition data_stop :: "data_server \<Rightarrow> os \<Rightarrow> data_server \<times> os" where
  "data_stop d os =
     (let d = d\<lparr>ds_pub := pub_stop (ds_pub d)\<rparr>;
          (d, os) = (if 0 \<le> ds_listen_fd d then (d\<lparr>ds_listen_fd := -1\<rparr>, sys_close (ds_listen_fd d) os) else (d, os));
          d = d\<lparr>ds_thread := False\<rparr>
      in (d, sys_unlink (ds_path d) os))"

section \<open>The life cycle\<close>

lemma fresh_fd: "0 \<le> fresh_fd os" "fresh_fd os \<notin> set (os_open os)"
proof -
  let ?c = "filter (\<lambda>fd. fd \<notin> set (os_open os)) (map int [0..<Suc (length (os_open os))])"
  have "?c \<noteq> []"
  proof
    assume "?c = []"
    then have "set (map int [0..<Suc (length (os_open os))]) \<subseteq> set (os_open os)" by (auto simp: filter_empty_conv subset_iff simp del: upt_Suc)
    then have "card (set (map int [0..<Suc (length (os_open os))])) \<le> card (set (os_open os))" by (intro card_mono) auto
    moreover have "card (set (map int [0..<Suc (length (os_open os))])) = Suc (length (os_open os))"
      by (subst distinct_card) (simp_all add: distinct_map del: upt_Suc)
    ultimately show False using card_length[of "os_open os"] by simp
  qed
  then have "fresh_fd os \<in> set ?c" unfolding fresh_fd_def by (rule hd_in_set)
  then show "0 \<le> fresh_fd os" "fresh_fd os \<notin> set (os_open os)" by (auto simp del: upt_Suc)
qed

datatype call = Start kernel | Stop

fun server_run :: "(kernel \<Rightarrow> 's \<Rightarrow> os \<Rightarrow> ('s \<times> os) option) \<Rightarrow> ('s \<Rightarrow> os \<Rightarrow> 's \<times> os) \<Rightarrow> call list
    \<Rightarrow> 's \<times> os \<Rightarrow> ('s \<times> os) option" where
  "server_run start stop [] x = Some x"
| "server_run start stop (Start a # calls) x = (case start a (fst x) (snd x) of None \<Rightarrow> None | Some y \<Rightarrow> server_run start stop calls y)"
| "server_run start stop (Stop # calls) x = server_run start stop calls (stop (fst x) (snd x))"

text \<open>Between two calls of \<open>start\<close> there is one of \<open>stop\<close>.\<close>

fun well_used :: "bool \<Rightarrow> call list \<Rightarrow> bool" where
  "well_used started [] \<longleftrightarrow> True"
| "well_used started (Start a # calls) \<longleftrightarrow> \<not> started \<and> well_used True calls"
| "well_used started (Stop # calls) \<longleftrightarrow> well_used False calls"

lemma well_used_mono: "well_used True calls \<Longrightarrow> well_used started calls"
  by (induction "True" calls rule: well_used.induct) auto

lemma server_run_append:
  "server_run start stop (xs @ ys) x = (case server_run start stop xs x of None \<Rightarrow> None | Some y \<Rightarrow> server_run start stop ys y)"
  by (induction start stop xs x rule: server_run.induct) (auto split: option.splits)

text \<open>The interface of the two servers: \<open>start\<close> opens the socket the way \<open>bind_output\<close> does and runs
  exactly if that succeeded; \<open>stop\<close> closes what is open and removes the name.\<close>

locale socket_server =
  fixes path :: "'s \<Rightarrow> string" and fd :: "'s \<Rightarrow> int" and alive :: "'s \<Rightarrow> bool"
    and start :: "kernel \<Rightarrow> 's \<Rightarrow> os \<Rightarrow> ('s \<times> os) option" and stop :: "'s \<Rightarrow> os \<Rightarrow> 's \<times> os"
  assumes start_bind: "\<not> alive s \<Longrightarrow> \<exists>s'. start a s os = Some (s', snd (bind_output a (path s) os)) \<and> path s' = path s
      \<and> fd s' = fst (bind_output a (path s) os) \<and> (alive s' \<longleftrightarrow> 0 \<le> fd s')"
    and stop_path: "path (fst (stop s os)) = path s"
    and stop_fd: "fd (fst (stop s os)) = (if 0 \<le> fd s then -1 else fd s)"
    and stop_alive: "\<not> alive (fst (stop s os))"
    and stop_os: "snd (stop s os) = sys_unlink (path s) (if 0 \<le> fd s then sys_close (fd s) os else os)"
    and stop_again: "fst (stop (fst (stop s os)) os') = fst (stop s os)"
begin

definition fd_ok :: "os \<Rightarrow> 's \<Rightarrow> os \<Rightarrow> bool" where
  "fd_ok os0 s os \<longleftrightarrow> os_bad os = os_bad os0 \<and> (alive s \<longleftrightarrow> 0 \<le> fd s)
     \<and> (if 0 \<le> fd s then os_open os = fd s # os_open os0 \<and> fd s \<notin> set (os_open os0) else os_open os = os_open os0)"

lemma fd_ok_start:
  assumes "fd_ok os0 s os" "\<not> alive s"
  shows "\<exists>s' os'. start a s os = Some (s', os') \<and> fd_ok os0 s' os' \<and> path s' = path s"
proof -
  have f: "os_bad os = os_bad os0" "os_open os = os_open os0" using assms by (auto simp: fd_ok_def split: if_splits)
  obtain s' where s': "start a s os = Some (s', snd (bind_output a (path s) os))" "path s' = path s"
    "fd s' = fst (bind_output a (path s) os)" "alive s' \<longleftrightarrow> 0 \<le> fd s'"
    using start_bind[OF assms(2)] by blast
  let ?u = "sys_unlink (path s) os"
  have fr: "0 \<le> fresh_fd ?u" "fresh_fd ?u \<notin> set (os_open os0)"
    using fresh_fd[of ?u] f by (simp_all add: sys_unlink_def)
  have "fd_ok os0 s' (snd (bind_output a (path s) os))"
    using s'(3,4) fr f
    by (auto simp: fd_ok_def bind_output_def Let_def sys_bind_def sys_close_def sys_open_def sys_listen_def
        sys_unlink_def split: option.splits if_splits)
  with s' show ?thesis by blast
qed

lemma fd_ok_stop: "fd_ok os0 s os \<Longrightarrow> fd_ok os0 (fst (stop s os)) (snd (stop s os)) \<and> \<not> alive (fst (stop s os))"
  by (auto simp: fd_ok_def stop_fd stop_alive stop_os sys_unlink_def sys_close_def split: if_splits)

text \<open>Whatever fails, used in turns the server never ends the program, leaks no descriptor and closes
  none twice; after a last \<open>stop\<close> all is as before.\<close>

lemma run_ok:
  "fd_ok os0 s os \<Longrightarrow> well_used (alive s) calls
   \<Longrightarrow> \<exists>s' os'. server_run start stop calls (s, os) = Some (s', os') \<and> fd_ok os0 s' os' \<and> path s' = path s"
proof (induction calls arbitrary: s os)
  case (Cons c calls)
  show ?case
  proof (cases c)
    case (Start a)
    then have n: "\<not> alive s" and w: "well_used True calls" using Cons.prems(2) by auto
    obtain s1 os1 where s1: "start a s os = Some (s1, os1)" "fd_ok os0 s1 os1" "path s1 = path s"
      using fd_ok_start[OF Cons.prems(1) n] by blast
    have "well_used (alive s1) calls"
      using w by (cases "alive s1") (auto intro: well_used_mono)
    from Cons.IH[OF s1(2) this] s1 Start show ?thesis by auto
  next
    case Stop
    note st = fd_ok_stop[OF Cons.prems(1)]
    have "well_used (alive (fst (stop s os))) calls" using Cons.prems(2) Stop st by simp
    from Cons.IH[OF conjunct1[OF st] this] Stop show ?thesis by (auto simp: stop_path)
  qed
qed simp

lemma stop_twice: "stop (fst (stop s os)) (snd (stop s os)) = stop s os"
proof (rule prod_eqI)
  show "snd (stop (fst (stop s os)) (snd (stop s os))) = snd (stop s os)"
    by (simp add: stop_os[of "fst (stop s os)"] stop_fd stop_path) (simp add: stop_os sys_unlink_def)
qed (simp add: stop_again)

lemma life:
  assumes "\<not> alive s" "fd s < 0" "well_used False calls"
  shows "\<exists>s' os'. server_run start stop (calls @ [Stop]) (s, os) = Some (s', os')
    \<and> os_open os' = os_open os \<and> os_bad os' = os_bad os \<and> cstr (path s) \<notin> set (os_names os')
    \<and> stop s' os' = (s', os')"
proof -
  have "fd_ok os s os" using assms(1,2) by (simp add: fd_ok_def)
  then obtain s1 os1 where r: "server_run start stop calls (s, os) = Some (s1, os1)" "fd_ok os s1 os1" "path s1 = path s"
    using run_ok[of os s os calls] assms(1,3) by auto
  from fd_ok_stop[OF r(2)] have e: "os_open (snd (stop s1 os1)) = os_open os" "os_bad (snd (stop s1 os1)) = os_bad os"
    by (auto simp: fd_ok_def stop_fd split: if_splits)
  have "cstr (path s) \<notin> set (os_names (snd (stop s1 os1)))" by (simp add: stop_os r(3) sys_unlink_def)
  with e r(1) stop_twice[of s1 os1] show ?thesis
    by (intro exI[of _ "fst (stop s1 os1)"] exI[of _ "snd (stop s1 os1)"]) (simp add: server_run_append)
qed

text \<open>When the kernel allows it and the path is short enough, \<open>start\<close> listens, whatever file was there.\<close>

lemma start_listens:
  assumes "\<not> alive s" "kn_socket a" "kn_bind a" "kn_listen a" "length (path s) \<le> 107"
  shows "\<exists>s' os'. start a s os = Some (s', os') \<and> alive s' \<and> fd s' \<in> set (os_listening os')
    \<and> (fd s', cstr (path s)) \<in> set (os_bound os') \<and> cstr (path s) \<in> set (os_names os')"
proof -
  have l: "length (cstr p) \<le> length p" for p by (simp add: cstr_def length_takeWhile_le)
  have p: "sun_path (path s) = cstr (path s)" using l[of "path s"] assms(5) by (simp add: sun_path_def)
  have f: "0 \<le> fresh_fd (sys_unlink (path s) os)" by (rule fresh_fd)
  obtain s' where "start a s os = Some (s', snd (bind_output a (path s) os))" "path s' = path s"
    "fd s' = fst (bind_output a (path s) os)" "alive s' \<longleftrightarrow> 0 \<le> fd s'"
    using start_bind[OF assms(1)] by blast
  then show ?thesis using assms(2-4) f
    by (simp add: bind_output_def Let_def sys_bind_def sys_open_def sys_listen_def p) (simp add: sys_unlink_def)
qed

end

interpretation cs: socket_server cs_path cs_listen_fd cs_thread ctrl_start ctrl_stop
proof
  fix s :: ctrl_server and os a
  show "\<not> cs_thread s \<Longrightarrow> \<exists>s'. ctrl_start a s os = Some (s', snd (bind_output a (cs_path s) os)) \<and> cs_path s' = cs_path s
      \<and> cs_listen_fd s' = fst (bind_output a (cs_path s) os) \<and> (cs_thread s' \<longleftrightarrow> 0 \<le> cs_listen_fd s')"
    using fresh_fd(1)[of "sys_unlink (cs_path s) os"]
    by (auto simp: ctrl_start_def bind_output_def Let_def split: option.splits)
qed (auto simp: ctrl_stop_def Let_def)

interpretation ds: socket_server ds_path ds_listen_fd ds_thread data_start data_stop
proof
  fix s :: data_server and os a
  show "\<not> ds_thread s \<Longrightarrow> \<exists>s'. data_start a s os = Some (s', snd (bind_output a (ds_path s) os)) \<and> ds_path s' = ds_path s
      \<and> ds_listen_fd s' = fst (bind_output a (ds_path s) os) \<and> (ds_thread s' \<longleftrightarrow> 0 \<le> ds_listen_fd s')"
    using fresh_fd(1)[of "sys_unlink (ds_path s) os"]
    by (auto simp: data_start_def bind_output_def Let_def split: option.splits)
qed (auto simp: data_stop_def pub_stop_def bq_close_def Let_def)

section \<open>The control client\<close>

text \<open>\<open>main\<close> of \<open>tools/control_client.cc\<close> from \<open>argv[1]\<close> on: the exit status, the two texts it
  prints, what it has sent, and the descriptors. \<open>connect\<close> gives the connection at a name, if a server listens there.\<close>

definition client_arg :: "string list \<Rightarrow> string option" where
  "client_arg args = (if length args < 3 then None else Some (args ! 2))"

definition client_main :: "bool \<Rightarrow> (string \<Rightarrow> (delivery list \<times> sink) option) \<Rightarrow> string list \<Rightarrow> os
    \<Rightarrow> int \<times> string list \<times> sink option \<times> os" where
  "client_main socket_ok connect args os =
     (if length args < 2 then (1, [], None, os)
      else if \<not> socket_ok then (1, [], None, os)
      else
        (let fd = fresh_fd os; os = sys_open fd os
         in case connect (sun_path (ipc_control_path (args ! 0))) of
              None \<Rightarrow> (1, [], None, sys_close fd os)
            | Some (s, k) \<Rightarrow>
                (let cmd_json = buildCommand (args ! 1) (client_arg args)
                 in if cmd_json = [] then (1, [], Some k, sys_close fd os)
                    else case sendMsg cmd_json k of
                      (ok, k) \<Rightarrow>
                        if \<not> ok then (1, [cstr cmd_json], Some k, sys_close fd os)
                        else case recvMsg s of
                          (resp, _) \<Rightarrow>
                            if resp = [] then (1, [cstr cmd_json], Some k, sys_close fd os)
                            else (0, [cstr cmd_json, cstr resp], Some k, sys_close fd os))))"

lemma open_close [simp]:
  "os_open (sys_close (fresh_fd os) (sys_open (fresh_fd os) os)) = os_open os"
  "os_bad (sys_close fd (sys_open fd os)) = os_bad os"
  by (simp_all add: sys_close_def sys_open_def)

lemma response_short:
  assumes "dispatchCommand depth req st = (w, st1)"
  shows "length (finish_wait w st2) \<le> 2 ^ 20" "finish_wait w st2 \<noteq> []"
  using assms by (auto simp: dispatchCommand_def Let_def finish_wait_def okResponse_def errResponse_def
      quoted_def status_response_def status_text_def split: if_splits option.splits)

section \<open>Properties\<close>



text \<open>C12: One command from the client's command line to the server and back. If the server's socket takes the
  request, the server gets it however it is split, answers once, and serves nothing else when the
  client has gone; if the answer arrives, however split, the client prints its request and the server's
  answer to it, returns 0 and has closed its socket.\<close>

theorem client_server_exchange:
  assumes "2 \<le> length args" "req = buildCommand (args ! 1) (client_arg args)"
    and "req \<noteq> []" "length req \<le> 2 ^ 20"
    and "length (msg_bytes req) \<le> length (accepts k)" "0 \<notin> set (accepts k)" "sent k = []"
    and "length (msg_bytes (hd (fst (answers env depth [req] st)))) \<le> length (accepts ks)" "0 \<notin> set (accepts ks)" "sent ks = []"
    and "connect (sun_path (ipc_control_path (args ! 0))) = Some (s, k)"
  shows "\<exists>resp k' ks'. answers env depth [req] st = ([resp], snd (answers env depth [req] st))
    \<and> sent k' = msg_bytes req \<and> sent ks' = msg_bytes resp
    \<and> (\<forall>srv. avail srv = sent k' \<longrightarrow> handleConnection env depth [True, True] srv ks st
          = ([resp], ks', snd (answers env depth [req] st)))
    \<and> (avail s = sent ks' \<longrightarrow> (\<exists>os'. client_main True connect args os = (0, [cstr req, cstr resp], Some k', os')
          \<and> os_open os' = os_open os \<and> os_bad os' = os_bad os))"
proof -
  obtain w st1 where d: "dispatchCommand depth req st = (w, st1)" by (cases "dispatchCommand depth req st")
  define resp where "resp = finish_wait w (env w st1)"
  have a: "answers env depth [req] st = ([resp], env w st1)" by (simp add: d Let_def resp_def)
  note short = response_short[OF d, of "env w st1", folded resp_def]
  have len: "length req < 2 ^ 32" using assms(4) by simp
  obtain k' where k': "sendMsg req k = (True, k')" "sent k' = msg_bytes req"
    using sendMsg_succeeds[OF assms(5,6) len] assms(7) by auto
  have lr: "length (msg_bytes resp) \<le> length (accepts ks)" using assms(8) a by simp
  obtain ks' where ks': "sendMsg resp ks = (True, ks')" "sent ks' = msg_bytes resp"
    using sendMsg_succeeds[OF lr assms(9)] short(1) assms(10) by auto
  have srv: "handleConnection env depth [True, True] srv ks st = ([resp], ks', env w st1)"
    if av: "avail srv = sent k'" for srv
  proof -
    obtain s1 where s1: "recvMsg srv = (req, s1)" "avail s1 = []"
      by (rule recvMsg_msg[of srv req "[]"]) (use av k'(2) assms(3,4) in auto)
    obtain s2 where "readExact 4 s1 = (None, s2)" by (metis readExact_None list.size(3) zero_less_numeral s1(2))
    then show ?thesis using s1(1) assms(3) ks'(1) by (simp add: d Let_def resp_def recvMsg_def[of s1])
  qed
  have cl: "\<exists>os'. client_main True connect args os = (0, [cstr req, cstr resp], Some k', os')
      \<and> os_open os' = os_open os \<and> os_bad os' = os_bad os" if av: "avail s = sent ks'"
  proof -
    obtain s1 where "recvMsg s = (resp, s1)"
      by (rule recvMsg_msg[of s resp "[]"]) (use av ks'(2) short in auto)
    then show ?thesis
      using assms(1,3,11) k'(1) short(2)
      by (simp add: client_main_def Let_def assms(2)[unfolded One_nat_def, symmetric])
  qed
  show ?thesis
  proof (rule exI[of _ resp], rule exI[of _ k'], rule exI[of _ ks'], intro conjI)
    show "answers env depth [req] st = ([resp], snd (answers env depth [req] st))" by (simp only: a snd_conv)
    show "\<forall>srv. avail srv = sent k' \<longrightarrow> handleConnection env depth [True, True] srv ks st
        = ([resp], ks', snd (answers env depth [req] st))"
      using srv by (simp only: a snd_conv) blast
  qed (use k'(2) ks'(2) cl in blast)+
qed

lemma client_server_exchange_witness:
  "\<exists>k' os'. client_main True (\<lambda>p. if p = ''/tmp/yolo_control_33.sock''
        then Some ([Data (take 3 (msg_bytes okResponse)), Data (drop 3 (msg_bytes okResponse))], \<lparr>sent = [], accepts = replicate 100 5\<rparr>) else None)
      [''33'', ''pause_yolo''] \<lparr>os_open = [0, 1, 2], os_listening = [], os_names = [], os_bound = [], os_bad = 0\<rparr>
    = (0, [cstr (buildCommand ''pause_yolo'' None), cstr okResponse], Some k', os') \<and> os_open os' = [0, 1, 2]"
proof -
  let ?m = "buildCommand ''pause_yolo'' None" and ?os = "\<lparr>os_open = [0, 1, 2], os_listening = [], os_names = [], os_bound = [], os_bad = 0\<rparr>"
  let ?s = "[Data (take 3 (msg_bytes okResponse)), Data (drop 3 (msg_bytes okResponse))]"
  let ?k = "\<lparr>sent = [], accepts = replicate 100 5\<rparr>"
  let ?c = "\<lambda>p. if p = ''/tmp/yolo_control_33.sock'' then Some (?s, ?k) else None"
  have c: "extractString ?m ''cmd'' = ''pause_yolo''" by (rule buildCommand_cmd) auto
  have a: "answers (\<lambda>w st. st) 0 [?m] ctl_init = ([okResponse], ctl_init\<lparr>ys_inference_enabled := False\<rparr>)"
    by (simp add: dispatchCommand_def c finish_wait_def Let_def)
  have m: "?m \<noteq> []" "length ?m \<le> 2 ^ 20" "length ?m = 20" "length okResponse = 11" by (auto simp: buildCommand_def quoted_def okResponse_def)
  have "0 < length (take 3 (msg_bytes okResponse))" "0 < length (drop 3 (msg_bytes okResponse))" using m(4) by simp_all
  then have "take 3 (msg_bytes okResponse) \<noteq> []" "drop 3 (msg_bytes okResponse) \<noteq> []" by (simp_all only: length_greater_0_conv not_False_eq_True)
  then have s: "avail ?s = msg_bytes okResponse" by (simp add: avail_Data)
  have p: "?c (sun_path (ipc_control_path ([''33'', ''pause_yolo''] ! 0))) = Some (?s, ?k)"
    by (simp add: sun_path_def cstr_def ipc_control_path_def)
  show ?thesis
    using client_server_exchange[of "[''33'', ''pause_yolo'']" ?m ?k "\<lambda>w st. st" 0 ctl_init ?k ?c ?s ?os] m s p
    unfolding a by (auto simp add: client_arg_def simp del: handleConnection.simps)
qed

text \<open>Whatever happens, the client closes the socket it opened, once; it returns 0 exactly when it has
  printed its request and an answer, and otherwise 1.\<close>

theorem client_paths:
  "case client_main socket_ok connect args os of (e, shown, k, os') \<Rightarrow>
     os_open os' = os_open os \<and> os_bad os' = os_bad os
     \<and> (if e = 0 then length shown = 2 \<and> 2 \<le> length args else e = 1 \<and> length shown \<le> 1)"
  by (auto simp: client_main_def Let_def split: option.splits prod.splits)

text \<open>A second instance for the same device that fails in the set-up removes the names of the first:
  the destructors call \<open>stop\<close>, and \<open>stop\<close> removes the name although \<open>start\<close> was never called.\<close>

lemma stop_removes_name_of_another:
  assumes "ctrl_stop (ctrl_new p) os = (c, os')"
  shows "os_open os' = os_open os \<and> os_bound os' = os_bound os \<and> cstr p \<notin> set (os_names os')"
  using assms by (auto simp: ctrl_stop_def ctrl_new_def sys_unlink_def)

text \<open>A path of more than 107 characters is bound under its first 107, which no \<open>unlink\<close> removes: the
  next \<open>start\<close> fails.\<close>

lemma long_path_start_fails:
  assumes "107 < length (cstr p)" "sun_path p \<in> set (os_names os)" "\<not> cs_thread c" "cs_path c = p"
  shows "\<exists>c' os'. ctrl_start a c os = Some (c', os') \<and> cs_listen_fd c' = -1"
proof -
  have "length (sun_path p) = 107" using assms(1) by (simp add: sun_path_def)
  then have "sun_path p \<noteq> cstr p" using assms(1) by auto
  then have "sun_path p \<in> set (os_names (sys_unlink p os))" using assms(2) by (simp add: sys_unlink_def)
  then show ?thesis by (simp add: ctrl_start_def assms(4) sys_bind_def sys_open_def Let_def)
qed

text \<open>When \<open>listen\<close> fails, the name just bound stays.\<close>

lemma failed_listen_leaves_name:
  assumes "kn_socket a" "kn_bind a" "\<not> kn_listen a" "length p \<le> 107"
  shows "fst (bind_output a p os) = -1 \<and> cstr p \<in> set (os_names (snd (bind_output a p os)))"
proof -
  have "length (cstr p) \<le> 107" using assms(4) length_takeWhile_le[of _ p] le_trans unfolding cstr_def by blast
  then have "sun_path p = cstr p" by (simp add: sun_path_def)
  then show ?thesis using assms
    by (simp add: bind_output_def Let_def sys_bind_def sys_open_def) (simp add: sys_close_def sys_unlink_def)
qed

text \<open>The publisher of \<open>Data_Plane\<close> is what the pipeline sees of this one.\<close>

lemma data_start_refines:
  assumes "data_start a d os = Some (d', os')" "\<not> ds_thread d" "\<not> pb_listen (ds_pub d)"
  shows "(pb_listen (ds_pub d') \<longleftrightarrow> 0 \<le> ds_listen_fd d') \<and> (\<exists>b. ds_pub d' = pub_start (kn_socket a) b (kn_listen a) (ds_pub d))"
proof -
  define u where "u = sys_unlink (ds_path d) os"
  have f: "0 \<le> fresh_fd u" by (rule fresh_fd)
  let ?b = "sys_bind (kn_bind a) (fresh_fd u) (sun_path (ds_path d)) (sys_open (fresh_fd u) u)"
  show ?thesis
  proof (cases "kn_socket a \<and> ?b \<noteq> None")
    case True
    then obtain o1 where "?b = Some o1" by blast
    then show ?thesis using assms f True
      by (cases "kn_listen a") (auto simp: data_start_def Let_def pub_start_def intro!: exI[of _ True] simp flip: u_def)
  next
    case False
    then show ?thesis using assms f
      by (cases "kn_socket a") (auto simp: data_start_def Let_def pub_start_def intro!: exI[of _ False] simp flip: u_def)
  qed
qed

end
