(* ===== verification/Receivers.thy ===== *)
theory Receivers
  imports Bytetrack_Service Temporal_Service Unix_Sockets
begin

text \<open>
  What the three receivers print, and their \<open>main\<close>: \<open>tools/data_receiver.cc\<close>,
  \<open>tools/tracks_receiver.cc\<close> and \<open>tools/events_receiver.cc\<close>. The time of day that \<open>localtime\<close> and
  \<open>strftime\<close> make of the seconds is the parameter \<open>hms\<close>.
\<close>

section \<open>Lines\<close>

text \<open>\<open>%s\<close> of a fixed array of characters: without a zero in it, what follows is read too, which is undefined.\<close>

definition fmt_chars :: "string \<Rightarrow> string option" where
  "fmt_chars s = (if NUL \<in> set s then Some (cstr s) else None)"

text \<open>The flag \<open>+\<close> of a conversion.\<close>

definition fmt_plus :: "string \<Rightarrow> string" where
  "fmt_plus s = (if take 1 s = ''-'' then s else ''+'' @ s)"

definition fmt_u :: "u32 \<Rightarrow> string" where "fmt_u n = dec_digits (unat n)"
definition fmt_llu :: "u64 \<Rightarrow> string" where "fmt_llu n = dec_digits (unat n)"

definition box_text :: "i32 \<Rightarrow> i32 \<Rightarrow> i32 \<Rightarrow> i32 \<Rightarrow> string" where
  "box_text l t r b = ''box=('' @ fmt_d l @ '','' @ fmt_d t @ '','' @ fmt_d r @ '','' @ fmt_d b @ '')''"

text \<open>The line of a frame, with what is counted.\<close>

definition frame_line :: "(nat \<Rightarrow> string) \<Rightarrow> string \<Rightarrow> wire_frame_header \<Rightarrow> string" where
  "frame_line hms what hdr =
     (let sec = unat (wh_timestamp_us hdr div 1000000); usec = unat (wh_timestamp_us hdr mod 1000000)
      in ''frame '' @ pad_left CHR '' '' 6 (fmt_llu (wh_frame_id hdr)) @ ''  ['' @ hms sec @ ''.''
         @ pad_left CHR ''0'' 6 (dec_digits usec) @ '']  '' @ dec_digits (unat (wh_count hdr)) @ '' '' @ what @ ''(s)'')"

definition detection_line :: "nat \<Rightarrow> wire_detection \<Rightarrow> string option" where
  "detection_line i d = map_option (\<lambda>name.
     ''  ['' @ dec_digits i @ ''] '' @ pad_right 15 name @ ''  conf='' @ fmt_2f (wd_confidence d) @ ''  ''
     @ box_text (wd_left d) (wd_top d) (wd_right d) (wd_bottom d)) (fmt_chars (wd_class_name d))"

definition track_line :: "nat \<Rightarrow> wire_track \<Rightarrow> string option" where
  "track_line i r = map_option (\<lambda>name.
     ''  id='' @ pad_right 4 (fmt_u (wt_track_id r)) @ '' '' @ pad_right 15 name @ ''  conf='' @ fmt_2f (wt_confidence r) @ ''  ''
     @ box_text (wt_left r) (wt_top r) (wt_right r) (wt_bottom r)) (fmt_chars (wt_class_name r))"

text \<open>The degree sign is the two bytes of its UTF-8 encoding.\<close>

definition summary_line :: "u64 \<Rightarrow> wire_summary \<Rightarrow> string option" where
  "summary_line frame_id s = map_option (\<lambda>name.
     ''f='' @ pad_right 6 (fmt_llu frame_id) @ '' id='' @ pad_right 4 (fmt_u (ws_track_id s)) @ '' '' @ pad_right 12 name
     @ '' '' @ status_str (ws_status s) @ '' dur='' @ pad_left CHR '' '' 5 (fmt_u (ws_duration_ms s)) @ ''ms vis='' @ fmt_2f (ws_visibility s)
     @ '' c=('' @ pad_left CHR '' '' 4 (fmt_d (ws_cx s)) @ '','' @ pad_left CHR '' '' 4 (fmt_d (ws_cy s))
     @ '') v=('' @ pad_left CHR '' '' 6 (fmt_plus (fmt_1f (ws_vx s))) @ '','' @ pad_left CHR '' '' 6 (fmt_plus (fmt_1f (ws_vy s)))
     @ '') sp='' @ pad_left CHR '' '' 5 (fmt_1f (ws_speed s)) @ '' hd='' @ pad_left CHR '' '' 6 (fmt_plus (fmt_1f (ws_heading_deg s)))
     @ [CHR 0xC2, CHR 0xB0] @ '' a='' @ pad_left CHR '' '' 6 (fmt_plus (fmt_1f (ws_accel s)))
     @ '' loit='' @ fmt_2f (ws_loiter_score s) @ '' roi='' @ [roi_tag s]) (fmt_chars (ws_class_name s))"

section \<open>Frames\<close>

fun all_some :: "'a option list \<Rightarrow> 'a list option" where
  "all_some [] = Some []"
| "all_some (x # xs) = (case x of None \<Rightarrow> None | Some a \<Rightarrow> map_option ((#) a) (all_some xs))"

definition frame_text ::
  "(nat \<Rightarrow> string) \<Rightarrow> string \<Rightarrow> (nat \<Rightarrow> 'r \<Rightarrow> string option) \<Rightarrow> bool \<Rightarrow> wire_frame_header \<times> 'r list \<Rightarrow> string list option" where
  "frame_text hms what line show_count f =
     (case f of (hdr, rs) \<Rightarrow>
        map_option (\<lambda>ls. (if show_count \<or> 0 < wh_count hdr then [frame_line hms what hdr] else []) @ ls)
          (all_some (map (case_prod line) (enumerate 0 rs))))"

section \<open>The programs\<close>

text \<open>Waiting for the socket: as long as \<open>connect\<close> fails it is tried again.\<close>

datatype 'c waited = Waiting | No_socket | Got 'c

fun connect_retry :: "'c attempt list \<Rightarrow> 'c waited" where
  "connect_retry [] = Waiting"
| "connect_retry (Socket_error # as) = No_socket"
| "connect_retry (Refused # as) = connect_retry as"
| "connect_retry (Connected c # as) = Got c"

text \<open>Still waiting for the socket, or the exit status and the lines printed, or undefined behaviour.\<close>

datatype program = Retrying | Exit int "string list" | Undef

definition run_receiver ::
  "(nat \<Rightarrow> string) \<Rightarrow> string \<Rightarrow> (nat \<Rightarrow> 'r \<Rightarrow> string option) \<Rightarrow> (delivery list \<Rightarrow> (wire_frame_header \<times> 'r list) list \<times> 'r recv)
    \<Rightarrow> string list \<Rightarrow> delivery list attempt list \<Rightarrow> program" where
  "run_receiver hms what line receive args attempts =
     (if args = [] \<or> take 1 (hd args) = ''-'' then Exit 1 []
      else
        (let show_count = (''--count'' \<in> set (tl args))
         in case connect_retry attempts of
              Waiting \<Rightarrow> Retrying
            | No_socket \<Rightarrow> Exit 1 []
            | Got s \<Rightarrow>
                (case receive s of
                   (_, Overflow n) \<Rightarrow> Undef
                 | (fs, _) \<Rightarrow>
                     (case all_some (map (frame_text hms what line show_count) fs) of
                        None \<Rightarrow> Undef | Some texts \<Rightarrow> Exit 0 (concat texts)))))"

definition data_receiver_main :: "(nat \<Rightarrow> string) \<Rightarrow> string list \<Rightarrow> delivery list attempt list \<Rightarrow> program" where
  "data_receiver_main hms = run_receiver hms ''detection'' detection_line data_receiveLoop"

definition tracks_receiver_main :: "(nat \<Rightarrow> string) \<Rightarrow> string list \<Rightarrow> delivery list attempt list \<Rightarrow> program" where
  "tracks_receiver_main hms = run_receiver hms ''track'' track_line tracks_receiveLoop"

definition events_receiver_main :: "string list \<Rightarrow> delivery list attempt list \<Rightarrow> program" where
  "events_receiver_main args attempts =
     (if args = [] then Exit 1 []
      else case connect_retry attempts of
        Waiting \<Rightarrow> Retrying
      | No_socket \<Rightarrow> Exit 1 []
      | Got s \<Rightarrow>
          (case events_receiveLoop s of (ls, e) \<Rightarrow>
             (case all_some (map (\<lambda>(frame_id, s, _). summary_line frame_id s) ls) of
                None \<Rightarrow> Undef
              | Some texts \<Rightarrow> Exit (if e = Ev_read_error then 1 else 0) texts)))"

section \<open>Properties\<close>

lemma all_some_map: "\<forall>x\<in>set xs. f x = Some (g x) \<Longrightarrow> all_some (map f xs) = Some (map g xs)"
  by (induction xs) auto

lemma connect_retry_refused: "connect_retry (replicate n Refused @ [Connected c]) = Got c"
  by (induction n) auto

text \<open>What a reader of the terminal is to see of a detection: its number in the frame, the first 15
  characters of the class, the confidence and the box.\<close>

definition result_text :: "nat \<Rightarrow> detect_result \<Rightarrow> string" where
  "result_text i r =
     ''  ['' @ dec_digits i @ ''] '' @ pad_right 15 (take 15 (cstr (dr_name r))) @ ''  conf='' @ fmt_2f (dr_prop r) @ ''  ''
     @ box_text (dr_left r) (dr_top r) (dr_right r) (dr_bottom r)"

lemma cstr_snoc_NUL: "cstr (x @ [NUL]) = cstr x"
  unfolding cstr_def by (induction x) simp_all

lemma cstr_field: "fmt_chars (strncpy s 15 @ [NUL]) = Some (take 15 (cstr s))"
  by (simp add: fmt_chars_def cstr_snoc_NUL cstr_strncpy)

definition message_text :: "(nat \<Rightarrow> string) \<Rightarrow> bool \<Rightarrow> detection_message \<Rightarrow> string list" where
  "message_text hms show_count m =
     (if show_count \<or> 0 < dg_count (dm_group m) then [frame_line hms ''detection'' (frame_header m)] else [])
     @ map (case_prod result_text) (enumerate 0 (take (nat (dg_count (dm_group m))) (dg_results (dm_group m))))"

lemma frame_text_message:
  assumes "wf_message m"
  shows "frame_text hms ''detection'' detection_line show_count (frame_header m, message_records m) = Some (message_text hms show_count m)"
proof -
  let ?rs = "take (nat (dg_count (dm_group m))) (dg_results (dm_group m))"
  have e: "map (case_prod detection_line) (enumerate 0 (map wire_of_result ?rs))
      = map (\<lambda>(i, r). detection_line i (wire_of_result r)) (enumerate 0 ?rs)"
    by (rule nth_equalityI) (auto simp: nth_enumerate_eq)
  have a: "all_some (map (case_prod detection_line) (enumerate 0 (message_records m))) = Some (map (case_prod result_text) (enumerate 0 ?rs))"
    unfolding message_records_def e
    by (rule all_some_map) (auto simp: detection_line_def wire_of_result_def cstr_field result_text_def)
  have "0 < wh_count (frame_header m) \<longleftrightarrow> 0 < dg_count (dm_group m)"
    using frame_header_count[OF assms] length_message_records[OF assms] by (auto simp add: word_gt_0 unat_eq_0[symmetric] simp del: unat_eq_0)
  then show ?thesis by (simp add: frame_text_def a message_text_def)
qed

text \<open>The tracks and the events receiver: with terminated names nothing is read past its field, and every
  frame received is printed.\<close>

lemma tracks_receiver_prints:
  assumes "args \<noteq> []" "take 1 (hd args) \<noteq> ''-''" "tracks_receiveLoop s = (fs, Closed)"
    and "\<forall>f\<in>set fs. \<forall>r\<in>set (snd f). NUL \<in> set (wt_class_name r)"
  shows "\<exists>texts. tracks_receiver_main hms args (replicate n Refused @ [Connected s]) = Exit 0 (concat texts) \<and> length texts = length fs
    \<and> (\<forall>i<length fs. length (snd (fs ! i)) \<le> length (texts ! i))"
proof -
  define g where "g f = the (frame_text hms ''track'' track_line (''--count'' \<in> set (tl args)) f)" for f
  have f: "frame_text hms ''track'' track_line c f = Some (the (frame_text hms ''track'' track_line c f)) \<and>
      length (snd f) \<le> length (the (frame_text hms ''track'' track_line c f))" if "f \<in> set fs" for f c
  proof -
    have "\<forall>x\<in>set (enumerate 0 (snd f)). case_prod track_line x = Some (the (case_prod track_line x))"
      using assms(4) that by (force simp: track_line_def fmt_chars_def in_set_enumerate_eq)
    then have "all_some (map (case_prod track_line) (enumerate 0 (snd f))) = Some (map (\<lambda>x. the (case_prod track_line x)) (enumerate 0 (snd f)))"
      by (rule all_some_map)
    then show ?thesis by (simp add: frame_text_def case_prod_beta split: prod.splits)
  qed
  then have a: "all_some (map (frame_text hms ''track'' track_line (''--count'' \<in> set (tl args))) fs) = Some (map g fs)"
    unfolding g_def by (intro all_some_map) blast
  show ?thesis
    by (rule exI[of _ "map g fs"])
      (use assms(1-3) a f in \<open>simp add: tracks_receiver_main_def run_receiver_def connect_retry_refused g_def\<close>)
qed

lemma events_receiver_prints:
  assumes "args \<noteq> []" "events_receiveLoop s = (ls, Ev_closed)" "\<forall>l\<in>set ls. NUL \<in> set (ws_class_name (fst (snd l)))"
  shows "\<exists>texts. events_receiver_main args (replicate n Refused @ [Connected s]) = Exit 0 texts \<and> length texts = length ls"
proof -
  let ?f = "\<lambda>(frame_id, s, _). summary_line frame_id s"
  have "\<forall>l\<in>set ls. ?f l = Some (the (?f l))"
    using assms(3) by (force simp: summary_line_def fmt_chars_def)
  then have "all_some (map ?f ls) = Some (map (\<lambda>l. the (?f l)) ls)" by (rule all_some_map)
  then show ?thesis using assms(1,2) by (simp add: events_receiver_main_def connect_retry_refused)
qed



end
