(* ===== verification/Wire_Copies.thy ===== *)
theory Wire_Copies
  imports Wire_Protocol
begin

text \<open>
  The copies of the wire structs and socket paths in the tools, which are built without
  \<open>include/ipc/wire_protocol.h\<close> and \<open>must match\<close> it \<open>byte-for-byte\<close>. A packed struct declaration is the
  list of its fields with their C types; reading an object representation through a declaration
  gives the named values. All copies read the same values from any bytes, those of the codecs.
\<close>

section \<open>Packed structs\<close>

datatype ctype = C_chars nat | C_float | C_int32 | C_uint8 | C_bytes nat | C_uint16 | C_uint32 | C_uint64

type_synonym struct_decl = "(ctype \<times> string) list"

fun ctype_size :: "ctype \<Rightarrow> nat" where
  "ctype_size (C_chars n) = n"
| "ctype_size C_float = 4"
| "ctype_size C_int32 = 4"
| "ctype_size C_uint8 = 1"
| "ctype_size (C_bytes n) = n"
| "ctype_size C_uint16 = 2"
| "ctype_size C_uint32 = 4"
| "ctype_size C_uint64 = 8"

text \<open>\<open>sizeof\<close> of a struct under \<open>#pragma pack(push, 1)\<close>.\<close>

definition packed_size :: "struct_decl \<Rightarrow> nat" where
  "packed_size d = sum_list (map (ctype_size \<circ> fst) d)"

datatype cval = V_chars string | V_float fp | V_bytes bytes | V_u8 u8 | V_u16 u16 | V_u32 u32 | V_u64 u64

fun read_ctype :: "ctype \<Rightarrow> nat \<Rightarrow> bytes \<Rightarrow> cval" where
  "read_ctype (C_chars n) off bs = V_chars (dec_chars off n bs)"
| "read_ctype C_float off bs = V_float (dec_f32 off bs)"
| "read_ctype C_int32 off bs = V_u32 (dec_u32 off bs)"
| "read_ctype C_uint8 off bs = V_u8 (bs ! off)"
| "read_ctype (C_bytes n) off bs = V_bytes (take n (drop off bs))"
| "read_ctype C_uint16 off bs = V_u16 (dec_u16 off bs)"
| "read_ctype C_uint32 off bs = V_u32 (dec_u32 off bs)"
| "read_ctype C_uint64 off bs = V_u64 (dec_u64 off bs)"

text \<open>The members read from an object representation, the first at the given offset.\<close>

fun read_struct :: "struct_decl \<Rightarrow> nat \<Rightarrow> bytes \<Rightarrow> (string \<times> cval) list" where
  "read_struct [] off bs = []"
| "read_struct ((t, n) # d) off bs = (n, read_ctype t off bs) # read_struct d (off + ctype_size t) bs"

section \<open>The declarations\<close>

text \<open>\<open>include/ipc/wire_protocol.h\<close>.\<close>

definition header_decl :: struct_decl where
  "header_decl = [(C_uint64, ''frame_id''), (C_uint64, ''timestamp_us''), (C_uint16, ''count''),
     (C_bytes 6, ''reserved'')]"

definition detection_decl :: struct_decl where
  "detection_decl = [(C_chars 16, ''class_name''), (C_float, ''confidence''), (C_int32, ''left''),
     (C_int32, ''top''), (C_int32, ''right''), (C_int32, ''bottom'')]"

definition track_decl :: struct_decl where
  "track_decl = [(C_chars 16, ''class_name''), (C_float, ''confidence''), (C_int32, ''left''),
     (C_int32, ''top''), (C_int32, ''right''), (C_int32, ''bottom''), (C_uint32, ''track_id'')]"

definition summary_decl :: struct_decl where
  "summary_decl = [(C_chars 16, ''class_name''), (C_uint32, ''track_id''), (C_uint32, ''frames_seen''),
     (C_uint64, ''first_seen_us''), (C_uint64, ''last_seen_us''), (C_uint32, ''duration_ms''),
     (C_float, ''visibility''), (C_int32, ''cx''), (C_int32, ''cy''), (C_int32, ''left''), (C_int32, ''top''),
     (C_int32, ''right''), (C_int32, ''bottom''), (C_float, ''vx''), (C_float, ''vy''), (C_float, ''speed''),
     (C_float, ''heading_deg''), (C_float, ''accel''), (C_float, ''loiter_score''), (C_uint8, ''in_roi''),
     (C_uint8, ''roi_entered''), (C_uint8, ''roi_exited''), (C_uint8, ''status''), (C_bytes 4, ''reserved'')]"

text \<open>\<open>tools/data_receiver.cc\<close>.\<close>

definition dr_header_decl :: struct_decl where
  "dr_header_decl = [(C_uint64, ''frame_id''), (C_uint64, ''timestamp_us''), (C_uint16, ''count''),
     (C_bytes 6, ''reserved'')]"

definition dr_detection_decl :: struct_decl where
  "dr_detection_decl = [(C_chars 16, ''class_name''), (C_float, ''confidence'')] @
     map (Pair C_int32) [''left'', ''top'', ''right'', ''bottom'']"

definition dr_data_path :: "string \<Rightarrow> string" where
  "dr_data_path dev = ''/tmp/yolo_data_'' @ dev @ ''.sock''"

text \<open>\<open>tools/tracks_receiver.cc\<close>.\<close>

definition tr_header_decl :: struct_decl where
  "tr_header_decl = [(C_uint64, ''frame_id''), (C_uint64, ''timestamp_us''), (C_uint16, ''count''),
     (C_bytes 6, ''reserved'')]"

definition tr_track_decl :: struct_decl where
  "tr_track_decl = [(C_chars 16, ''class_name''), (C_float, ''confidence'')] @
     map (Pair C_int32) [''left'', ''top'', ''right'', ''bottom''] @ [(C_uint32, ''track_id'')]"

definition tr_tracks_path :: "string \<Rightarrow> string" where
  "tr_tracks_path dev = ''/tmp/yolo_tracks_'' @ dev @ ''.sock''"

text \<open>\<open>tools/events_receiver.cc\<close>.\<close>

definition er_header_decl :: struct_decl where
  "er_header_decl = [(C_uint64, ''frame_id''), (C_uint64, ''timestamp_us''), (C_uint16, ''count''),
     (C_bytes 6, ''reserved'')]"

definition er_summary_decl :: struct_decl where
  "er_summary_decl = [(C_chars 16, ''class_name''), (C_uint32, ''track_id''), (C_uint32, ''frames_seen''),
     (C_uint64, ''first_seen_us''), (C_uint64, ''last_seen_us''), (C_uint32, ''duration_ms''), (C_float, ''visibility'')] @
     map (Pair C_int32) [''cx'', ''cy''] @ map (Pair C_int32) [''left'', ''top'', ''right'', ''bottom''] @
     map (Pair C_float) [''vx'', ''vy''] @
     [(C_float, ''speed''), (C_float, ''heading_deg''), (C_float, ''accel''), (C_float, ''loiter_score''),
      (C_uint8, ''in_roi''), (C_uint8, ''roi_entered''), (C_uint8, ''roi_exited''), (C_uint8, ''status''),
      (C_bytes 4, ''reserved'')]"

definition er_events_path :: "string \<Rightarrow> string" where
  "er_events_path dev = ''/tmp/yolo_events_'' @ dev @ ''.sock''"

text \<open>\<open>tools/event_summarizer.cc\<close> and \<open>tools/control_client.cc\<close>.\<close>

definition es_header_decl :: struct_decl where
  "es_header_decl = [(C_uint64, ''frame_id''), (C_uint64, ''timestamp_us''), (C_uint16, ''count''),
     (C_bytes 6, ''reserved'')]"

definition es_summary_decl :: struct_decl where
  "es_summary_decl = [(C_chars 16, ''class_name''), (C_uint32, ''track_id''), (C_uint32, ''frames_seen''),
     (C_uint64, ''first_seen_us''), (C_uint64, ''last_seen_us''), (C_uint32, ''duration_ms''), (C_float, ''visibility'')] @
     map (Pair C_int32) [''cx'', ''cy''] @ map (Pair C_int32) [''left'', ''top'', ''right'', ''bottom''] @
     map (Pair C_float) [''vx'', ''vy''] @
     [(C_float, ''speed''), (C_float, ''heading_deg''), (C_float, ''accel''), (C_float, ''loiter_score''),
      (C_uint8, ''in_roi''), (C_uint8, ''roi_entered''), (C_uint8, ''roi_exited''), (C_uint8, ''status''),
      (C_bytes 4, ''reserved'')]"

definition es_events_path :: "string \<Rightarrow> string" where
  "es_events_path dev = ''/tmp/yolo_events_'' @ dev @ ''.sock''"

definition es_control_path :: "string \<Rightarrow> string" where
  "es_control_path dev = ''/tmp/yolo_control_'' @ dev @ ''.sock''"

definition cc_control_path :: "string \<Rightarrow> string" where
  "cc_control_path dev = ''/tmp/yolo_control_'' @ dev @ ''.sock''"

section \<open>The copies agree\<close>

definition header_values :: "wire_frame_header \<Rightarrow> (string \<times> cval) list" where
  "header_values h = [(''frame_id'', V_u64 (wh_frame_id h)), (''timestamp_us'', V_u64 (wh_timestamp_us h)),
     (''count'', V_u16 (wh_count h)), (''reserved'', V_bytes (wh_reserved h))]"

definition detection_values :: "wire_detection \<Rightarrow> (string \<times> cval) list" where
  "detection_values d = [(''class_name'', V_chars (wd_class_name d)), (''confidence'', V_float (wd_confidence d)),
     (''left'', V_u32 (wd_left d)), (''top'', V_u32 (wd_top d)), (''right'', V_u32 (wd_right d)),
     (''bottom'', V_u32 (wd_bottom d))]"

definition track_values :: "wire_track \<Rightarrow> (string \<times> cval) list" where
  "track_values t = [(''class_name'', V_chars (wt_class_name t)), (''confidence'', V_float (wt_confidence t)),
     (''left'', V_u32 (wt_left t)), (''top'', V_u32 (wt_top t)), (''right'', V_u32 (wt_right t)),
     (''bottom'', V_u32 (wt_bottom t)), (''track_id'', V_u32 (wt_track_id t))]"

definition summary_values :: "wire_summary \<Rightarrow> (string \<times> cval) list" where
  "summary_values s = [(''class_name'', V_chars (ws_class_name s)), (''track_id'', V_u32 (ws_track_id s)),
     (''frames_seen'', V_u32 (ws_frames_seen s)), (''first_seen_us'', V_u64 (ws_first_seen_us s)),
     (''last_seen_us'', V_u64 (ws_last_seen_us s)), (''duration_ms'', V_u32 (ws_duration_ms s)),
     (''visibility'', V_float (ws_visibility s)), (''cx'', V_u32 (ws_cx s)), (''cy'', V_u32 (ws_cy s)),
     (''left'', V_u32 (ws_left s)), (''top'', V_u32 (ws_top s)), (''right'', V_u32 (ws_right s)),
     (''bottom'', V_u32 (ws_bottom s)), (''vx'', V_float (ws_vx s)), (''vy'', V_float (ws_vy s)),
     (''speed'', V_float (ws_speed s)), (''heading_deg'', V_float (ws_heading_deg s)),
     (''accel'', V_float (ws_accel s)), (''loiter_score'', V_float (ws_loiter_score s)),
     (''in_roi'', V_u8 (ws_in_roi s)), (''roi_entered'', V_u8 (ws_roi_entered s)),
     (''roi_exited'', V_u8 (ws_roi_exited s)), (''status'', V_u8 (ws_status s)),
     (''reserved'', V_bytes (ws_reserved s))]"

text \<open>A declaration describes a codec: the size is that of the \<open>static_assert\<close>, and from any bytes the
  declared members have the values the codec gives.\<close>

definition describes :: "struct_decl \<Rightarrow> nat \<Rightarrow> ('r \<Rightarrow> (string \<times> cval) list) \<Rightarrow> (bytes \<Rightarrow> 'r) \<Rightarrow> bool" where
  "describes d sz vals dec \<longleftrightarrow> packed_size d = sz \<and> (\<forall>bs. read_struct d 0 bs = vals (dec bs))"

lemmas read_simps = packed_size_def describes_def comp_def

text \<open>Every copy of a wire struct in the tools has the size of the original, and reading the object
  representation of a struct, whatever its bytes, through a copy gives under every member name the
  value the sender's declaration gives there; and every copy of a path helper names the same socket.\<close>

lemma wire_copies_agree:
  "list_all (\<lambda>d. describes d sizeof_WireFrameHeader header_values dec_header)
     [header_decl, dr_header_decl, tr_header_decl, er_header_decl, es_header_decl]
   \<and> list_all (\<lambda>d. describes d sizeof_WireDetectionRecord detection_values dec_detection)
     [detection_decl, dr_detection_decl]
   \<and> list_all (\<lambda>d. describes d sizeof_WireTrackRecord track_values dec_track) [track_decl, tr_track_decl]
   \<and> list_all (\<lambda>d. describes d sizeof_WireTrackSummary summary_values dec_summary)
     [summary_decl, er_summary_decl, es_summary_decl]
   \<and> dr_data_path = ipc_data_path \<and> tr_tracks_path = ipc_tracks_path
   \<and> er_events_path = ipc_events_path \<and> es_events_path = ipc_events_path
   \<and> es_control_path = ipc_control_path \<and> cc_control_path = ipc_control_path"
proof (intro conjI)
  show "list_all (\<lambda>d. describes d sizeof_WireFrameHeader header_values dec_header)
     [header_decl, dr_header_decl, tr_header_decl, er_header_decl, es_header_decl]"
    by (simp add: read_simps header_decl_def dr_header_decl_def tr_header_decl_def er_header_decl_def
        es_header_decl_def header_values_def dec_header_def sizeof_WireFrameHeader_def)
  show "list_all (\<lambda>d. describes d sizeof_WireDetectionRecord detection_values dec_detection)
     [detection_decl, dr_detection_decl]"
    by (simp add: read_simps detection_decl_def dr_detection_decl_def detection_values_def dec_detection_def
        sizeof_WireDetectionRecord_def)
  show "list_all (\<lambda>d. describes d sizeof_WireTrackRecord track_values dec_track) [track_decl, tr_track_decl]"
    by (simp add: read_simps track_decl_def tr_track_decl_def track_values_def dec_track_def
        sizeof_WireTrackRecord_def)
  show "list_all (\<lambda>d. describes d sizeof_WireTrackSummary summary_values dec_summary)
     [summary_decl, er_summary_decl, es_summary_decl]"
    by (simp add: read_simps summary_decl_def er_summary_decl_def es_summary_decl_def summary_values_def
        dec_summary_def sizeof_WireTrackSummary_def)
qed (simp_all add: fun_eq_iff dr_data_path_def tr_tracks_path_def er_events_path_def es_events_path_def
    es_control_path_def cc_control_path_def ipc_data_path_def ipc_tracks_path_def ipc_events_path_def
    ipc_control_path_def)

end
