(* ===== verification/Io_Memory.thy ===== *)
theory Io_Memory
  imports Control Framing
begin

text \<open>
  \<open>readExact\<close> and \<open>writeExact\<close> as the processes carry them: loops that move a pointer through a
  block of memory and count down 32 bits. Every process has its own copy of the text. They store
  exactly the bytes that arrive and load exactly those they send, nothing outside the block, and so
  implement the functions of \<open>Socket_IO\<close>, which the other theories use. Where the caller's block is
  too short, the model says exactly when the loop leaves it.
\<close>

section \<open>The loops\<close>

text \<open>Bytes stored into a block at an offset; outside the block it is undefined.\<close>

definition mem_store :: "nat \<Rightarrow> bytes \<Rightarrow> bytes \<Rightarrow> bytes option" where
  "mem_store p bs mem =
     (if p + length bs \<le> length mem then Some (take p mem @ bs @ drop (p + length bs) mem) else None)"

lemma sys_read_count:
  assumes "sys_read (unat n) s = (Bytes bs, s')" "n \<noteq> (0 :: u32)"
  shows "bs \<noteq> []" "length bs \<le> unat n" "avail s = bs @ avail s'"
    "unat (n - of_nat (length bs)) = unat n - length bs"
proof -
  have "0 < unat n" using assms(2) by (simp add: unat_gt_0)
  from sys_read_avail[OF this, of s] assms(1)
  show "bs \<noteq> []" and l: "length bs \<le> unat n" and "avail s = bs @ avail s'" by auto
  have "unat n < 2 ^ 32" using unsigned_less[of n] by simp
  then have "unat (of_nat (length bs) :: u32) = length bs"
    using l by (simp add: unat_of_nat take_bit_eq_mod)
  then show "unat (n - of_nat (length bs)) = unat n - length bs"
    using l by (simp add: unat_sub word_le_nat_alt)
qed

text \<open>The state of the loop is the count n, the pointer p into the block, and the block.\<close>

function read_loop :: "u32 \<Rightarrow> nat \<Rightarrow> bytes \<Rightarrow> delivery list \<Rightarrow> (bool \<times> bytes \<times> delivery list) option" where
  "read_loop n p mem s =
     (if n = 0 then Some (True, mem, s)
      else case sys_read (unat n) s of
        (Bytes bs, s') \<Rightarrow>
          (if bs = [] then Some (False, mem, s')
           else case mem_store p bs mem of
             None \<Rightarrow> None
           | Some mem' \<Rightarrow> read_loop (n - of_nat (length bs)) (p + length bs) mem' s')
      | (ReadZero, s') \<Rightarrow> Some (False, mem, s')
      | (ReadAgain, s') \<Rightarrow> Some (False, mem, s')
      | (ReadErr, s') \<Rightarrow> Some (False, mem, s'))"
  by pat_completeness auto

termination
proof (relation "measure (\<lambda>(n, p, mem, s). unat n)", simp, goal_cases)
  case (1 n p mem s r s' bs mem')
  then have r: "sys_read (unat n) s = (Bytes bs, s')" by simp
  from sys_read_count[OF r 1(1)] show ?case by (cases bs) auto
qed

declare read_loop.simps [simp del]

lemma unat_minus_min:
  "unat (n - of_nat (min a (unat n)) :: u32) = unat n - min a (unat n)"
proof -
  have "unat n < 2 ^ 32" using unsigned_less[of n] by simp
  then have "unat (of_nat (min a (unat n)) :: u32) = min a (unat n)"
    by (simp add: unat_of_nat take_bit_eq_mod)
  then show ?thesis by (simp add: unat_sub word_le_nat_alt)
qed

text \<open>\<open>::send (fd, p, n)\<close> is given the rest of the block; what it takes is up to the peer.\<close>

function write_loop :: "u32 \<Rightarrow> nat \<Rightarrow> bytes \<Rightarrow> sink \<Rightarrow> (bool \<times> sink) option" where
  "write_loop n p mem k =
     (if n = 0 then Some (True, k)
      else if length mem < p + unat n then None
      else case accepts k of
        [] \<Rightarrow> Some (False, k)
      | a # as \<Rightarrow>
          (if a = 0 then Some (False, k\<lparr>accepts := as\<rparr>)
           else let w = min a (unat n) in
             write_loop (n - of_nat w) (p + w) mem
               (k\<lparr>sent := sent k @ take w (drop p mem), accepts := as\<rparr>)))"
  by pat_completeness auto

termination
  by (relation "measure (\<lambda>(n, p, mem, k). unat n)") (auto simp: unat_minus_min unat_gt_0)

declare write_loop.simps [simp del]

section \<open>They implement the functions on byte lists\<close>

lemma mem_store_append:
  assumes "p + length (bs @ cs) \<le> length mem" "mem_store p bs mem = Some mem'"
  shows "take (p + length bs) mem' @ cs @ drop (p + length bs + length cs) mem'
    = take p mem @ (bs @ cs) @ drop (p + length (bs @ cs)) mem" "length mem' = length mem"
proof -
  have m: "mem' = take p mem @ bs @ drop (p + length bs) mem"
    using assms by (simp add: mem_store_def)
  show "length mem' = length mem" using assms(1) by (simp add: m)
  show "take (p + length bs) mem' @ cs @ drop (p + length bs + length cs) mem'
    = take p mem @ (bs @ cs) @ drop (p + length (bs @ cs)) mem"
    using assms(1) by (auto simp: m min_def ac_simps) (simp flip: length_0_conv)
qed

lemma readExact_turn:
  assumes "sys_read (unat n) s = (Bytes bs, s')" "n \<noteq> (0 :: u32)"
  shows "snd (readExact (unat n) s) = snd (readExact (unat n - length bs) s')"
  using sys_read_count[OF assms] assms
  by (simp add: readExact.simps[of "unat n" s] unat_eq_0 split: prod.splits option.splits)

lemma readExact_stop:
  assumes "sys_read (unat n) s = (r, s')" "\<forall>bs. r \<noteq> Bytes bs" "n \<noteq> (0 :: u32)"
  shows "snd (readExact (unat n) s) = s'"
  using assms by (cases r) (simp_all add: readExact.simps[of "unat n" s] unat_eq_0)

text \<open>Exactly the bytes that arrive, up to the count, are stored; the loop leaves the block exactly
  when more of them arrive than fit.\<close>

definition read_outcome :: "u32 \<Rightarrow> nat \<Rightarrow> bytes \<Rightarrow> delivery list \<Rightarrow> (bool \<times> bytes \<times> delivery list) option" where
  "read_outcome n p mem s =
     (let bs = take (unat n) (avail s) in
      if p + length bs \<le> length mem
      then Some (unat n \<le> length (avail s), take p mem @ bs @ drop (p + length bs) mem, snd (readExact (unat n) s))
      else None)"

lemma read_outcome_turn:
  assumes b: "sys_read (unat n) s = (Bytes bs, s')" and n: "n \<noteq> 0"
  shows "read_outcome n p mem s = (case mem_store p bs mem of None \<Rightarrow> None
    | Some mem' \<Rightarrow> read_outcome (n - of_nat (length bs)) (p + length bs) mem' s')"
proof -
  note c = sys_read_count[OF b n]
  let ?cs = "take (unat n - length bs) (avail s')"
  have tk: "take (unat n) (avail s) = bs @ ?cs" using c(2,3) by simp
  have ok: "unat n \<le> length (avail s) \<longleftrightarrow> unat n - length bs \<le> length (avail s')" using c(2,3) by auto
  show ?thesis
  proof (cases "mem_store p bs mem")
    case None
    then have "\<not> p + length (bs @ ?cs) \<le> length mem" by (auto simp: mem_store_def split: if_splits)
    then show ?thesis using None by (simp only: read_outcome_def tk Let_def if_False option.case)
  next
    case (Some mem')
    then have "length mem' = length mem" by (auto simp: mem_store_def split: if_splits)
    then have fit: "p + length (bs @ ?cs) \<le> length mem \<longleftrightarrow> p + length bs + length ?cs \<le> length mem'"
      by (simp only: length_append add.assoc)
    show ?thesis
    proof (cases "p + length (bs @ ?cs) \<le> length mem")
      case True
      with mem_store_append(1)[OF True Some] fit show ?thesis
        by (simp only: read_outcome_def c(4) Let_def tk ok readExact_turn[OF b n] if_True Some option.case)
    next
      case False
      then show ?thesis using fit by (simp only: read_outcome_def c(4) Let_def tk if_False Some option.case)
    qed
  qed
qed

lemma read_loop_outcome:
  assumes "p \<le> length mem"
  shows "read_loop n p mem s = read_outcome n p mem s"
  using assms
proof (induction n p mem s rule: read_loop.induct)
  case (1 n p mem s)
  show ?case
  proof (cases "n = 0")
    case True
    then show ?thesis using "1.prems" by (simp add: read_loop.simps[of 0] read_outcome_def readExact.simps[of 0])
  next
    case False
    obtain r s' where r: "sys_read (unat n) s = (r, s')" by fastforce
    show ?thesis
    proof (cases r)
      case (Bytes bs)
      then have b: "sys_read (unat n) s = (Bytes bs, s')" using r by simp
      have ne: "bs \<noteq> []" by (rule sys_read_count(1)[OF b False])
      have "read_loop (n - of_nat (length bs)) (p + length bs) mem' s' = read_outcome (n - of_nat (length bs)) (p + length bs) mem' s'"
        if m: "mem_store p bs mem = Some mem'" for mem'
        by (rule "1.IH"[OF False b[symmetric] refl ne m]) (use m in \<open>auto simp: mem_store_def split: if_splits\<close>)
      then show ?thesis using False ne
        by (simp add: read_loop.simps[of n] b read_outcome_turn[OF b False] split: option.split)
    qed (use False r "1.prems" sys_read_avail[of "unat n" s] readExact_stop[OF r _ False] in
        \<open>simp_all add: read_loop.simps[of n] read_outcome_def unat_gt_0\<close>)
  qed
qed

lemmas read_loop_spec = read_loop_outcome[unfolded read_outcome_def]

lemma write_loop_spec:
  assumes "p \<le> length mem"
  shows "write_loop n p mem k =
    (if p + unat n \<le> length mem then Some (writeExact (take (unat n) (drop p mem)) k) else None)"
  using assms
proof (induction n p mem k rule: write_loop.induct)
  case (1 n p mem k)
  have pos: "n \<noteq> 0 \<Longrightarrow> 0 < unat n" by (simp add: unat_gt_0)
  consider "n = 0" | "n \<noteq> 0" "length mem < p + unat n" | "n \<noteq> 0" "p + unat n \<le> length mem" "accepts k = []"
    | as where "n \<noteq> 0" "p + unat n \<le> length mem" "accepts k = 0 # as"
    | a as where "n \<noteq> 0" "p + unat n \<le> length mem" "accepts k = a # as" "a \<noteq> 0"
    by (metis list.exhaust not_less)
  then show ?case
  proof cases
    case 5
    let ?w = "min a (unat n)" and ?bs = "take (unat n) (drop p mem)"
    let ?k = "k\<lparr>sent := sent k @ take ?w (drop p mem), accepts := as\<rparr>"
    have "0 < unat n" using 5(1) by (simp add: unat_gt_0)
    then have ne: "?bs \<noteq> []" using 5(2) by auto
    have "write_loop (n - of_nat ?w) (p + ?w) mem ?k
      = (if p + ?w + unat (n - of_nat ?w) \<le> length mem
         then Some (writeExact (take (unat (n - of_nat ?w)) (drop (p + ?w) mem)) ?k) else None)"
      using 5 by (intro "1.IH") auto
    then have "write_loop n p mem k = Some (writeExact (take (unat n - ?w) (drop (p + ?w) mem)) ?k)"
      using 5 by (simp add: write_loop.simps[of n] unat_minus_min Let_def)
    moreover have "take (unat n - ?w) (drop (p + ?w) mem) = drop a ?bs" "take ?w (drop p mem) = take a ?bs"
      by (simp_all add: drop_take min_def add.commute)
    moreover have "writeExact ?bs k = writeExact (drop a ?bs) (k\<lparr>sent := sent k @ take a ?bs, accepts := as\<rparr>)"
      by (subst writeExact.simps) (simp only: ne 5(3,4) if_False list.case)
    ultimately show ?thesis using 5(2) by (simp only: if_True)
  qed (use "1.prems" pos in \<open>auto simp: write_loop.simps[of 0] write_loop.simps[of n] writeExact.simps\<close>)
qed

section \<open>The copies\<close>

text \<open>\<open>readExact (fd, buf, n)\<close> with \<open>buf\<close> the start of a block, in every process that has one: the result,
  the block afterwards and the rest of the stream. Only \<open>tools/control_client.cc\<close> also reports the
  failed call, on \<open>stderr\<close>.\<close>

definition dr_readExact :: "bytes \<Rightarrow> u32 \<Rightarrow> delivery list \<Rightarrow> (bool \<times> bytes \<times> delivery list) option" where
  "dr_readExact buf n s = read_loop n 0 buf s"

definition tr_readExact :: "bytes \<Rightarrow> u32 \<Rightarrow> delivery list \<Rightarrow> (bool \<times> bytes \<times> delivery list) option" where
  "tr_readExact buf n s = read_loop n 0 buf s"

definition er_readExact :: "bytes \<Rightarrow> u32 \<Rightarrow> delivery list \<Rightarrow> (bool \<times> bytes \<times> delivery list) option" where
  "er_readExact buf n s = read_loop n 0 buf s"

definition es_readExact :: "bytes \<Rightarrow> u32 \<Rightarrow> delivery list \<Rightarrow> (bool \<times> bytes \<times> delivery list) option" where
  "es_readExact buf n s = read_loop n 0 buf s"

definition bt_readExact :: "bytes \<Rightarrow> u32 \<Rightarrow> delivery list \<Rightarrow> (bool \<times> bytes \<times> delivery list) option" where
  "bt_readExact buf n s = read_loop n 0 buf s"

definition ts_readExact :: "bytes \<Rightarrow> u32 \<Rightarrow> delivery list \<Rightarrow> (bool \<times> bytes \<times> delivery list) option" where
  "ts_readExact buf n s = read_loop n 0 buf s"

definition cs_readExact :: "bytes \<Rightarrow> u32 \<Rightarrow> delivery list \<Rightarrow> (bool \<times> bytes \<times> delivery list) option" where
  "cs_readExact buf n s = read_loop n 0 buf s"

definition cc_readExact :: "bytes \<Rightarrow> u32 \<Rightarrow> delivery list \<Rightarrow> (bool \<times> bytes \<times> delivery list) option" where
  "cc_readExact buf n s = read_loop n 0 buf s"

definition dp_writeExact :: "bytes \<Rightarrow> u32 \<Rightarrow> sink \<Rightarrow> (bool \<times> sink) option" where
  "dp_writeExact buf n k = write_loop n 0 buf k"

definition bt_writeExact :: "bytes \<Rightarrow> u32 \<Rightarrow> sink \<Rightarrow> (bool \<times> sink) option" where
  "bt_writeExact buf n k = write_loop n 0 buf k"

definition ts_writeExact :: "bytes \<Rightarrow> u32 \<Rightarrow> sink \<Rightarrow> (bool \<times> sink) option" where
  "ts_writeExact buf n k = write_loop n 0 buf k"

definition es_writeExact :: "bytes \<Rightarrow> u32 \<Rightarrow> sink \<Rightarrow> (bool \<times> sink) option" where
  "es_writeExact buf n k = write_loop n 0 buf k"

definition cs_writeExact :: "bytes \<Rightarrow> u32 \<Rightarrow> sink \<Rightarrow> (bool \<times> sink) option" where
  "cs_writeExact buf n k = write_loop n 0 buf k"

definition cc_writeExact :: "bytes \<Rightarrow> u32 \<Rightarrow> sink \<Rightarrow> (bool \<times> sink) option" where
  "cc_writeExact buf n k = write_loop n 0 buf k"

lemmas readExact_copies = dr_readExact_def tr_readExact_def er_readExact_def es_readExact_def
  bt_readExact_def ts_readExact_def cs_readExact_def cc_readExact_def

lemmas writeExact_copies = dp_writeExact_def bt_writeExact_def ts_writeExact_def es_writeExact_def
  cs_writeExact_def cc_writeExact_def

section \<open>Callers\<close>

text \<open>A local of exactly the size read, as the length prefix, the header and the records are.\<close>

lemma read_whole_block:
  assumes "length buf = unat n"
  shows "read_loop n 0 buf s = (case readExact (unat n) s of
      (Some bs, s') \<Rightarrow> Some (True, bs, s')
    | (None, s') \<Rightarrow> Some (False, avail s @ drop (length (avail s)) buf, s'))"
  using read_loop_spec[of 0 buf n s] readExact_avail[of "unat n" s] assms
  by (auto simp: Let_def split: if_splits)

text \<open>\<open>sendMsg\<close> and \<open>recvMsg\<close> of \<open>tools/control_client.cc\<close>, on its own loops; a \<open>std::string\<close> of the
  length received is filled in place.\<close>

definition cc_recvMsg :: "delivery list \<Rightarrow> (string \<times> delivery list) option" where
  "cc_recvMsg s =
     (case cc_readExact (enc_u32 0) (of_nat 4) s of
        None \<Rightarrow> None
      | Some (False, _, s) \<Rightarrow> Some ([], s)
      | Some (True, lb, s) \<Rightarrow>
          (let len = dec_u32 0 lb
           in if len = 0 \<or> 2 ^ 20 < unat len then Some ([], s)
              else case cc_readExact (replicate (unat len) 0) len s of
                None \<Rightarrow> None
              | Some (False, _, s) \<Rightarrow> Some ([], s)
              | Some (True, body, s) \<Rightarrow> Some (dec_chars 0 (unat len) body, s)))"

definition cc_sendMsg :: "string \<Rightarrow> sink \<Rightarrow> (bool \<times> sink) option" where
  "cc_sendMsg msg k =
     (let len = of_nat (length msg) :: u32
      in case cc_writeExact (enc_u32 len) (of_nat 4) k of
           None \<Rightarrow> None
         | Some (False, k) \<Rightarrow> Some (False, k)
         | Some (True, k) \<Rightarrow> cc_writeExact (enc_chars msg) len k)"

lemma cc_recvMsg_eq: "cc_recvMsg s = Some (recvMsg s)"
proof -
  obtain r s1 where r: "readExact 4 s = (r, s1)" by fastforce
  show ?thesis
  proof (cases r)
    case (Some lb)
    obtain q s2 where "readExact (unat (dec_u32 0 lb)) s1 = (q, s2)" by fastforce
    then show ?thesis using r Some
      by (cases q) (simp_all add: cc_recvMsg_def cc_readExact_def recvMsg_def read_whole_block Let_def)
  qed (simp add: cc_recvMsg_def cc_readExact_def recvMsg_def read_whole_block r)
qed

lemma cc_sendMsg_eq: "cc_sendMsg msg k = Some (sendMsg msg k)"
proof -
  have l: "unat (of_nat (length msg) :: u32) \<le> length (enc_chars msg)"
    by (simp add: unat_of_nat take_bit_eq_mod)
  have "take 4 (enc_u32 x) = enc_u32 x" for x by simp
  then show ?thesis using l
    by (auto simp: cc_sendMsg_def cc_writeExact_def sendMsg_def write_loop_spec Let_def split: prod.splits bool.splits)
qed

text \<open>\<open>WireDetectionRecord dets[64]\<close> of \<open>tools/data_receiver.cc\<close> and \<open>WireTrackRecord recs[64]\<close> of
  \<open>tools/tracks_receiver.cc\<close> are filled with as many bytes as the count of the header says.\<close>

definition dr_read_records :: "bytes \<Rightarrow> u16 \<Rightarrow> delivery list \<Rightarrow> (bool \<times> bytes \<times> delivery list) option" where
  "dr_read_records dets c s =
     (if c = 0 then Some (True, dets, s)
      else dr_readExact dets (ucast c * of_nat sizeof_WireDetectionRecord) s)"

definition tr_read_records :: "bytes \<Rightarrow> u16 \<Rightarrow> delivery list \<Rightarrow> (bool \<times> bytes \<times> delivery list) option" where
  "tr_read_records recs c s =
     (if c = 0 then Some (True, recs, s)
      else tr_readExact recs (ucast c * of_nat sizeof_WireTrackRecord) s)"

lemma record_bytes_unat:
  assumes "sz \<le> 40"
  shows "unat (ucast (c :: u16) * of_nat sz :: u32) = unat c * sz"
proof -
  have c: "unat c < 2 ^ 16" using unsigned_less[of c] by simp
  have "unat c * sz < 2 ^ 16 * 41" by (rule mult_strict_mono) (use c assms in simp_all)
  then have "unat c * sz < 2 ^ 32" by simp
  then show ?thesis
    using c assms by (simp add: unat_word_ariths unsigned_ucast_eq unsigned_of_nat take_bit_eq_mod)
qed

lemma records_overflow:
  "length dets = 64 * sizeof_WireDetectionRecord \<Longrightarrow> dr_read_records dets c s = None \<longleftrightarrow>
     64 < unat c \<and> 64 * sizeof_WireDetectionRecord < length (avail s)"
  "length recs = 64 * sizeof_WireTrackRecord \<Longrightarrow> tr_read_records recs c s = None \<longleftrightarrow>
     64 < unat c \<and> 64 * sizeof_WireTrackRecord < length (avail s)"
  using read_loop_spec[of 0 dets "ucast c * of_nat sizeof_WireDetectionRecord" s]
    read_loop_spec[of 0 recs "ucast c * of_nat sizeof_WireTrackRecord" s]
    record_bytes_unat[of sizeof_WireDetectionRecord c] record_bytes_unat[of sizeof_WireTrackRecord c]
  by (auto simp: dr_read_records_def tr_read_records_def dr_readExact_def tr_readExact_def Let_def
      sizeof_WireDetectionRecord_def sizeof_WireTrackRecord_def)

section \<open>Properties\<close>

text \<open>C38: every copy of \<open>readExact\<close> stores into its buffer the bytes that arrive, at most the count, and
  nothing else, reports success exactly when all arrived, and leaves the buffer exactly when more
  arrive than it holds; every copy of \<open>writeExact\<close> sends the first n bytes of its buffer as the
  function on byte lists does, and is undefined when there are fewer; the copies of the message
  functions in the control client are those of the server.\<close>

theorem io_copies_exact:
  "list_all (\<lambda>rd. \<forall>buf n s. rd buf n s =
      (let bs = take (unat n) (avail s) in
       if length bs \<le> length buf
       then Some (unat n \<le> length (avail s), bs @ drop (length bs) buf, snd (readExact (unat n) s))
       else None))
     [dr_readExact, tr_readExact, er_readExact, es_readExact, bt_readExact, ts_readExact, cs_readExact, cc_readExact]
   \<and> list_all (\<lambda>wr. \<forall>buf n k. wr buf n k =
      (if unat n \<le> length buf then Some (writeExact (take (unat n) buf) k) else None))
     [dp_writeExact, bt_writeExact, ts_writeExact, es_writeExact, cs_writeExact, cc_writeExact]
   \<and> (\<forall>s. cc_recvMsg s = Some (recvMsg s)) \<and> (\<forall>msg k. cc_sendMsg msg k = Some (sendMsg msg k))"
  by (simp add: readExact_copies writeExact_copies read_loop_spec write_loop_spec cc_recvMsg_eq cc_sendMsg_eq Let_def)

end
