(* ===== verification/Service_Life.thy ===== *)
theory Service_Life
  imports Unix_Sockets Bytetrack_Service Temporal_Service
begin

text \<open>
  The two services as processes: \<open>main\<close> of \<open>tracker/src/bytetrack_service.cc\<close> and of
  \<open>temporal/src/temporal_service.cc\<close> from the command line to the exit status, with the descriptors
  of \<open>Unix_Sockets\<close> beside the data of \<open>Service\<close>. The descriptors follow the data: each connection has
  one, what fails is closed, and whatever the peers do the process ends with those it began with.
\<close>

section \<open>The calls\<close>

text \<open>\<open>connect_input\<close>: a socket of its own for every attempt, closed when the peer does not listen.\<close>

fun connect_fd :: "'c attempt list \<Rightarrow> os \<Rightarrow> (int \<times> 'c) option \<times> 'c attempt list \<times> os" where
  "connect_fd [] os = (None, [], os)"
| "connect_fd (Socket_error # as) os = (None, as, os)"
| "connect_fd (Refused # as) os =
     (let fd = fresh_fd os in connect_fd as (sys_close fd (sys_open fd os)))"
| "connect_fd (Connected c # as) os =
     (let fd = fresh_fd os in (Some (fd, c), as, sys_open fd os))"

text \<open>\<open>try_accept\<close> gives -1 when no consumer waits.\<close>

definition try_accept_fd :: "consumer \<Rightarrow> os \<Rightarrow> int \<times> os" where
  "try_accept_fd c os =
     (if co_backlog c = [] then (-1, os) else let fd = fresh_fd os in (fd, sys_open fd os))"

text \<open>Publishing with \<open>out_conn\<close>: a consumer is accepted when there is none; c' is the consumer side
  afterwards, without a connection when the frame could not be sent.\<close>

definition publish_fd :: "consumer \<Rightarrow> consumer \<Rightarrow> int \<times> os \<Rightarrow> int \<times> os" where
  "publish_fd c c' = (\<lambda>(out_conn, os).
     let (out_conn, os) = (if out_conn < 0 then try_accept_fd c os else (out_conn, os))
     in if 0 \<le> out_conn \<and> co_conn c' = None then (-1, sys_close out_conn os) else (out_conn, os))"

text \<open>The frame loop and the reconnect loop of \<open>Service\<close> with \<open>out_conn\<close> and the descriptors.\<close>

fun loop_fds :: "('r, 'o, 's) service \<Rightarrow> sink list list \<Rightarrow> 's \<Rightarrow> consumer \<Rightarrow> delivery list \<Rightarrow> int \<times> os
   \<Rightarrow> ('s \<times> consumer \<times> input_end option \<times> int \<times> os) option" where
  "loop_fds v [] st c s f = Some (st, c, None, f)"
| "loop_fds v (ks # kss) st c s f =
     (let c = c\<lparr>co_backlog := co_backlog c @ ks\<rparr>
      in case service_turn v st c s of
           None \<Rightarrow> None
         | Some (Lost st c e) \<Rightarrow> Some (st, c, Some e, f)
         | Some (Next st c' s) \<Rightarrow> loop_fds v kss st c' s (publish_fd c c' f))"

lemma connect_fd_data:
  "connect_fd as os = (r, as', os') \<Longrightarrow> connect_input as = (map_option snd r, as')"
  by (induction as os rule: connect_fd.induct) (auto simp: Let_def)

function main_fds :: "('r, 'o, 's) service \<Rightarrow> (sink list list \<times> delivery list) attempt list \<Rightarrow> 's \<Rightarrow> consumer
   \<Rightarrow> int \<times> os \<Rightarrow> ('s \<times> consumer \<times> int \<times> os) option" where
  "main_fds v as st c f =
     (case connect_fd as (snd f) of
        (None, _, os) \<Rightarrow> Some (st, service_exit c, fst f, os)
      | (Some (in_fd, kss, s), as, os) \<Rightarrow>
        (case loop_fds v kss st c s (fst f, os) of
           None \<Rightarrow> None
         | Some (st, c, None, out_conn, os) \<Rightarrow> Some (st, service_exit c, out_conn, sys_close in_fd os)
         | Some (st, c, Some e, out_conn, os) \<Rightarrow> main_fds v as st c (out_conn, sys_close in_fd os)))"
  by pat_completeness auto
termination
  by (relation "measure (\<lambda>(v, as, st, c, f). length as)")
    (auto dest!: connect_fd_data[OF sym] connect_input_less)

declare main_fds.simps [simp del]

section \<open>The processes\<close>

text \<open>\<open>main\<close> from the output socket on: the exit status and what is left.\<close>

definition no_consumer :: "sink list \<Rightarrow> consumer" where
  "no_consumer ks = \<lparr>co_conn = None, co_backlog = ks, co_closed = []\<rparr>"

definition service_program :: "('r, 'o, 's) service \<Rightarrow> string \<Rightarrow> 's \<Rightarrow> kernel
   \<Rightarrow> (sink list list \<times> delivery list) attempt list \<Rightarrow> sink list \<Rightarrow> os \<Rightarrow> (int \<times> 's \<times> consumer \<times> os) option" where
  "service_program v out_path st a as ks os =
     (case bind_output a out_path os of
        (out_listen, os) \<Rightarrow>
          if out_listen < 0 then Some (1, st, no_consumer ks, os)
          else case main_fds v as st (no_consumer ks) (-1, os) of
            None \<Rightarrow> None
          | Some (st, c, out_conn, os) \<Rightarrow> Some (0, st, c, service_end out_listen out_conn out_path os))"

text \<open>Command lines from \<open>argv[1]\<close> on. A wrong one ends the process before it has opened anything.\<close>

definition bytetrack_program :: "string list \<Rightarrow> kernel \<Rightarrow> (sink list list \<times> delivery list) attempt list \<Rightarrow> sink list
   \<Rightarrow> os \<Rightarrow> (int \<times> iou_tracker \<times> consumer \<times> os) option" where
  "bytetrack_program args a as ks os =
     (case args of
        [device] \<Rightarrow> service_program (bytetrack update) (ipc_tracks_path device) make_tracker a as ks os
      | _ \<Rightarrow> Some (1, make_tracker, no_consumer ks, os))"

definition temporal_program :: "(fp \<Rightarrow> fp \<Rightarrow> fp) \<Rightarrow> string list \<Rightarrow> kernel
   \<Rightarrow> (sink list list \<times> delivery list) attempt list \<Rightarrow> sink list \<Rightarrow> os \<Rightarrow> (int \<times> track_manager \<times> consumer \<times> os) option" where
  "temporal_program atan2f args a as ks os =
     (case temporal_args args of
        None \<Rightarrow> None
      | Some None \<Rightarrow> Some (1, tm_new no_roi, no_consumer ks, os)
      | Some (Some r) \<Rightarrow> service_program (temporal atan2f) (ipc_events_path (hd args)) (tm_new r) a as ks os)"

section \<open>The descriptors held\<close>

definition holds :: "os \<Rightarrow> int list \<Rightarrow> os \<Rightarrow> bool" where
  "holds os0 fds os \<longleftrightarrow> mset (os_open os) = mset fds + mset (os_open os0) \<and> os_bad os = os_bad os0 \<and> (\<forall>fd \<in> set fds. 0 \<le> fd)"

lemma holds_refl: "holds os [] os"
  by (simp add: holds_def)

lemma holds_open: "holds os0 fds os \<Longrightarrow> holds os0 (fresh_fd os # fds) (sys_open (fresh_fd os) os)"
  using fresh_fd(1)[of os] by (simp add: holds_def sys_open_def)

lemma holds_close:
  assumes "holds os0 (fds1 @ fd # fds2) os"
  shows "holds os0 (fds1 @ fds2) (sys_close fd os)"
proof -
  have "fd \<in># mset (os_open os)" using assms by (auto simp: holds_def)
  then show ?thesis using assms by (auto simp: holds_def sys_close_def)
qed

lemmas holds_close_first = holds_close[of _ "[]", simplified]

lemma holds_unlink: "holds os0 fds (sys_unlink p os) \<longleftrightarrow> holds os0 fds os"
  by (simp add: holds_def sys_unlink_def)

text \<open>The connection of the consumer is open exactly when there is one.\<close>

definition conn_fds :: "int \<Rightarrow> int list" where
  "conn_fds out_conn = (if out_conn < 0 then [] else [out_conn])"

definition in_step :: "consumer \<Rightarrow> int \<Rightarrow> bool" where
  "in_step c out_conn \<longleftrightarrow> (co_conn c = None \<longleftrightarrow> out_conn < 0)"

lemma connect_fd_holds:
  "holds os0 fds os \<Longrightarrow> connect_fd as os = (r, as', os')
   \<Longrightarrow> holds os0 (case r of None \<Rightarrow> fds | Some (fd, _) \<Rightarrow> fd # fds) os'"
proof (induction as os rule: connect_fd.induct)
  case (3 as os)
  then show ?case using holds_close_first[OF holds_open[OF 3(2)]] by (simp add: Let_def)
qed (auto simp: Let_def holds_open)

lemma publish_fd_holds:
  assumes "publish_fd c (publish_step enc sz h outs c) (out_conn, os) = (out_conn', os')"
    and "in_step c out_conn" "holds os0 (conn_fds out_conn @ fds) os"
  shows "in_step (publish_step enc sz h outs c) out_conn' \<and> holds os0 (conn_fds out_conn' @ fds) os'"
proof -
  note f = fresh_fd(1)[of os]
  show ?thesis
  proof (cases "co_conn c")
    case None
    then have "holds os0 fds os" using assms(2,3) by (simp add: in_step_def conn_fds_def)
    from holds_close_first[OF holds_open[OF this]] holds_open[OF this] this show ?thesis
      using assms(1,2) None f
      by (auto simp: publish_fd_def publish_step_def try_accept_fd_def try_accept_def in_step_def conn_fds_def Let_def
          split: list.splits prod.splits bool.splits if_splits)
  next
    case (Some k)
    then have "0 \<le> out_conn" "holds os0 (out_conn # fds) os" using assms(2,3) by (simp_all add: in_step_def conn_fds_def)
    with holds_close_first[of os0 out_conn fds os] show ?thesis
      using assms(1,2) Some
      by (auto simp: publish_fd_def publish_step_def in_step_def conn_fds_def Let_def
          split: prod.splits bool.splits if_splits)
  qed
qed

text \<open>The frame loop is that of \<open>Service\<close>, and keeps the descriptors in step with the connection.\<close>

lemma loop_fds_service:
  "map_option (\<lambda>(st, c, e, f). (st, c, e)) (loop_fds v kss st c s f) = service_loop v kss st c s"
  by (induction v kss st c s f rule: loop_fds.induct) (auto simp: Let_def split: option.split turn.split)

lemma service_turn_consumer:
  assumes "service_turn v st c s = Some t"
  shows "case t of Lost st' c' e \<Rightarrow> c' = c | Next st' c' s' \<Rightarrow> \<exists>h outs. c' = publish_step (sv_enc v) (sv_out_size v) h outs c"
  using assms by (auto simp: service_turn_def split: prod.splits sum.splits Option.bind_splits) blast

lemma loop_fds_holds:
  "loop_fds v kss st c s (out_conn, os) = Some (st', c', e, out_conn', os')
   \<Longrightarrow> in_step c out_conn \<Longrightarrow> holds os0 (conn_fds out_conn @ fds) os
   \<Longrightarrow> in_step c' out_conn' \<and> holds os0 (conn_fds out_conn' @ fds) os'"
proof (induction kss arbitrary: st c s out_conn os)
  case (Cons ks kss)
  let ?c = "c\<lparr>co_backlog := co_backlog c @ ks\<rparr>"
  have i: "in_step ?c out_conn" using Cons.prems(2) by (simp add: in_step_def)
  obtain t where t: "service_turn v st ?c s = Some t" using Cons.prems(1) by (auto simp: Let_def split: option.splits)
  note ct = service_turn_consumer[OF t]
  show ?case
  proof (cases t)
    case (Next st1 c1 s1)
    obtain h outs where c1: "c1 = publish_step (sv_enc v) (sv_out_size v) h outs ?c" using ct Next by auto
    obtain o1 os1 where p: "publish_fd ?c c1 (out_conn, os) = (o1, os1)" by fastforce
    from publish_fd_holds[OF p[unfolded c1] i Cons.prems(3)]
    have "in_step c1 o1" "holds os0 (conn_fds o1 @ fds) os1" by (simp_all add: c1)
    moreover have "loop_fds v kss st1 c1 s1 (o1, os1) = Some (st', c', e, out_conn', os')"
      using Cons.prems(1) by (simp add: Let_def t Next p)
    ultimately show ?thesis using Cons.IH by blast
  next
    case (Lost st1 c1 e1)
    then show ?thesis using Cons.prems ct i by (auto simp: Let_def t)
  qed
qed simp

lemma holds_perm: "holds os0 fds os \<Longrightarrow> mset fds = mset fds' \<Longrightarrow> holds os0 fds' os"
  using mset_eq_setD[of fds fds'] by (simp add: holds_def)

lemma main_fds_service:
  "map_option (\<lambda>(st, c, f). (st, c)) (main_fds v as st c f) = service_main v as st c"
proof (induction v as st c f rule: main_fds.induct)
  case (1 v as st c f)
  obtain r as' os where r: "connect_fd as (snd f) = (r, as', os)" by (metis prod_cases3)
  note d = connect_fd_data[OF r]
  show ?case
  proof (cases r)
    case None
    then show ?thesis using r d by (simp add: main_fds.simps[of v] service_main.simps[of v])
  next
    case (Some x)
    obtain fd kss s where x: "r = Some (fd, kss, s)" using Some by (cases x) auto
    note l = loop_fds_service[of v kss st c s "(fst f, os)", symmetric]
    show ?thesis
    proof (cases "loop_fds v kss st c s (fst f, os)")
      case None
      then show ?thesis using d r x l by (simp add: main_fds.simps[of v] service_main.simps[of v])
    next
      case (Some y)
      obtain st1 c1 e conn1 os1 where y: "y = (st1, c1, e, conn1, os1)" by (metis prod_cases5)
      show ?thesis
      proof (cases e)
        case None
        then show ?thesis using d r x l Some y
          by (simp add: main_fds.simps[of v] service_main.simps[of v])
      next
        case e: (Some q)
        have "map_option (\<lambda>(st, c, f). (st, c)) (main_fds v as' st1 c1 (conn1, sys_close fd os1)) = service_main v as' st1 c1"
          by (rule "1.IH"[OF r[symmetric] x refl refl refl Some[unfolded y] refl refl refl e refl])
        then show ?thesis using d r x l Some y e
          by (simp add: main_fds.simps[of v as] service_main.simps[of v as])
      qed
    qed
  qed
qed

lemma main_fds_holds:
  "main_fds v as st c (conn, os) = Some (st', c', conn', os') \<Longrightarrow> in_step c conn
   \<Longrightarrow> holds os0 (conn_fds conn @ fds) os \<Longrightarrow> holds os0 (conn_fds conn' @ fds) os'"
proof (induction as arbitrary: st c conn os rule: length_induct)
  case (1 as)
  obtain r as1 os1 where r: "connect_fd as os = (r, as1, os1)" by (metis prod_cases3)
  note h = connect_fd_holds[OF 1(4) r]
  show ?case
  proof (cases r)
    case None
    then show ?thesis using 1(2) r h by (simp add: main_fds.simps[of v as])
  next
    case (Some x)
    obtain fd kss s where x: "r = Some (fd, kss, s)" using Some by (cases x) auto
    have h1: "holds os0 (conn_fds conn @ fd # fds) os1" using holds_perm[OF h] x by simp
    obtain st2 c2 e conn2 os2 where l: "loop_fds v kss st c s (conn, os1) = Some (st2, c2, e, conn2, os2)"
      using 1(2) r x by (auto simp: main_fds.simps[of v as] split: option.splits)
    have n: "in_step c2 conn2" "holds os0 (conn_fds conn2 @ fds) (sys_close fd os2)"
      using loop_fds_holds[OF l 1(3) h1] by (auto intro: holds_close)
    show ?thesis
    proof (cases e)
      case None
      then show ?thesis using 1(2) r x l n by (simp add: main_fds.simps[of v as])
    next
      case (Some q)
      have "length as1 < length as" using connect_input_less connect_fd_data[OF r] x by fastforce
      moreover have "main_fds v as1 st2 c2 (conn2, sys_close fd os2) = Some (st', c', conn', os')"
        using 1(2) r x l Some by (simp add: main_fds.simps[of v as])
      ultimately show ?thesis using 1(1) n by blast
    qed
  qed
qed

lemma bind_output_holds:
  assumes "bind_output a path os = (fd, os')"
  shows "holds os (conn_fds fd) os'"
  using assms fresh_fd(1)[of "sys_unlink path os"]
  by (auto simp: bind_output_def holds_def conn_fds_def Let_def sys_bind_def sys_close_def sys_open_def sys_listen_def
      sys_unlink_def split: option.splits if_splits)

lemma service_program_life:
  assumes "bind_output a path os = (fd, os1)"
  shows "case service_program v path st a as ks os of
      None \<Rightarrow> 0 \<le> fd \<and> service_main v as st (no_consumer ks) = None
    | Some (e, st', c', os') \<Rightarrow> mset (os_open os') = mset (os_open os) \<and> os_bad os' = os_bad os
        \<and> (if fd < 0 then e = 1 \<and> st' = st \<and> c' = no_consumer ks
           else e = 0 \<and> service_main v as st (no_consumer ks) = Some (st', c') \<and> cstr path \<notin> set (os_names os'))"
proof (cases "fd < 0")
  case True
  then show ?thesis using bind_output_holds[OF assms] assms
    by (simp add: service_program_def holds_def conn_fds_def)
next
  case False
  note d = main_fds_service[of v as st "no_consumer ks" "(-1, os1)", symmetric]
  show ?thesis
  proof (cases "main_fds v as st (no_consumer ks) (-1, os1)")
    case None
    then show ?thesis using False assms d by (simp add: service_program_def)
  next
    case (Some y)
    obtain st2 c2 conn os2 where y: "y = (st2, c2, conn, os2)" by (metis prod_cases4)
    have "holds os [fd] os1" using bind_output_holds[OF assms] False by (simp add: conn_fds_def)
    then have "holds os (conn_fds conn @ [fd]) os2"
      using main_fds_holds[OF Some[unfolded y], of os "[fd]"] by (simp add: in_step_def no_consumer_def conn_fds_def)
    then have "holds os [] (service_end fd conn path os2)"
      using holds_close_first holds_close by (fastforce simp: service_end_def holds_unlink conn_fds_def)
    moreover have "cstr path \<notin> set (os_names (service_end fd conn path os2))"
      by (simp add: service_end_def sys_unlink_def)
    ultimately show ?thesis using False assms d Some y by (simp add: service_program_def holds_def)
  qed
qed

section \<open>Properties\<close>


end
