(* ===== verification/Event_Summarizer.thy ===== *)
theory Event_Summarizer
  imports Temporal_Service Control
begin

text \<open>
  \<open>tools/event_summarizer.cc\<close>, the consumer of the events stream: it receives frames of track
  summaries, follows the presence of the drone class with a state machine, aggregates the records
  of a presence episode and, once the drone has been gone for the cooldown, blacks the cameras
  out, writes a snapshot for the language model, runs it and resumes the cameras.

  What the process does to the outside is a list of actions. The clock, the outcome of the file
  operations and the date printed are given for each turn of the loop; \<open>cos\<close>, \<open>sin\<close> and \<open>atan2\<close>,
  whose results depend on the C library, are the parameters \<open>libm\<close>. The FSM and its loops are
  here; the theorems about runs are in \<open>Summarizer_Fsm\<close>.
\<close>

section \<open>The control client\<close>

text \<open>\<open>send_control\<close> over a connection to the control socket, if one is obtained: what the socket
  accepts and what the server answers. The answer is read and discarded.\<close>

definition send_control :: "string \<Rightarrow> (sink \<times> delivery list) option \<Rightarrow> bool \<times> (sink \<times> delivery list) option" where
  "send_control cmd_json conn =
     (case conn of
        None \<Rightarrow> (False, None)
      | Some (k, s) \<Rightarrow>
        (case sendMsg cmd_json k of
           (False, k) \<Rightarrow> (False, Some (k, s))
         | (True, k) \<Rightarrow>
           (case readExact 4 s of
              (None, s) \<Rightarrow> (True, Some (k, s))
            | (Some lb, s) \<Rightarrow>
              (let rlen = dec_u32 0 lb
               in if 0 < rlen \<and> rlen < 2 ^ 20 then (True, Some (k, snd (readExact (unat rlen) s)))
                  else (True, Some (k, s))))))"

definition blackout_json :: string where
  "blackout_json = ''{'' @ quoted ''cmd'' @ '':'' @ quoted ''blackout'' @ ''}''"

definition resume_json :: string where
  "resume_json = ''{'' @ quoted ''cmd'' @ '':'' @ quoted ''resume'' @ ''}''"

section \<open>Aggregation\<close>

record libm =
  lm_cos :: "fp \<Rightarrow> fp"
  lm_sin :: "fp \<Rightarrow> fp"
  lm_atan2 :: "fp \<Rightarrow> fp \<Rightarrow> fp"

record agg_track =
  ag_class_name :: string
  ag_track_id :: u32
  ag_frames_seen :: u32
  ag_first_seen_us :: u64
  ag_last_seen_us :: u64
  ag_duration_ms :: u32
  ag_first_cx :: i32
  ag_first_cy :: i32
  ag_last_cx :: i32
  ag_last_cy :: i32
  ag_max_speed :: fp
  ag_sum_heading_x :: fp
  ag_sum_heading_y :: fp
  ag_min_loiter :: fp
  ag_max_loiter :: fp
  ag_ever_in_roi :: bool
  ag_roi_entered :: bool
  ag_roi_exited :: bool
  ag_first_set :: bool
  ag_last_status :: u8

definition agg_new :: agg_track where
  "agg_new = \<lparr>ag_class_name = [], ag_track_id = 0, ag_frames_seen = 0, ag_first_seen_us = 0,
     ag_last_seen_us = 0, ag_duration_ms = 0, ag_first_cx = 0, ag_first_cy = 0, ag_last_cx = 0,
     ag_last_cy = 0, ag_max_speed = Fin 0, ag_sum_heading_x = Fin 0, ag_sum_heading_y = Fin 0,
     ag_min_loiter = Fin 1, ag_max_loiter = Fin 0, ag_ever_in_roi = False, ag_roi_entered = False,
     ag_roi_exited = False, ag_first_set = False, ag_last_status = 0\<rparr>"

text \<open>\<open>static_cast<float>(M_PI)\<close>: the double nearest to pi, converted.\<close>

definition pi_m :: fp where
  "pi_m = fconv F32 (fround F64 False (314159265358979323846 / 10 ^ 20))"

definition agg_step :: "libm \<Rightarrow> wire_summary \<Rightarrow> agg_track \<Rightarrow> agg_track" where
  "agg_step m s a =
     (let a = a\<lparr>ag_class_name := cstr (ws_class_name s), ag_track_id := ws_track_id s,
            ag_frames_seen := if ag_frames_seen a < ws_frames_seen s then ws_frames_seen s else ag_frames_seen a\<rparr>;
          a = (if ag_first_set a then a
               else a\<lparr>ag_first_seen_us := ws_first_seen_us s, ag_first_cx := ws_cx s,
                      ag_first_cy := ws_cy s, ag_first_set := True\<rparr>);
          rad = fdiv F32 (fmul F32 (ws_heading_deg s) pi_m) (Fin 180)
      in a\<lparr>ag_last_seen_us := ws_last_seen_us s,
           ag_duration_ms := if ag_duration_ms a < ws_duration_ms s then ws_duration_ms s else ag_duration_ms a,
           ag_last_cx := ws_cx s, ag_last_cy := ws_cy s,
           ag_max_speed := if flt (ag_max_speed a) (ws_speed s) then ws_speed s else ag_max_speed a,
           ag_sum_heading_x := fadd F32 (ag_sum_heading_x a) (lm_cos m rad),
           ag_sum_heading_y := fadd F32 (ag_sum_heading_y a) (lm_sin m rad),
           ag_min_loiter := if flt (ws_loiter_score s) (ag_min_loiter a) then ws_loiter_score s else ag_min_loiter a,
           ag_max_loiter := if flt (ag_max_loiter a) (ws_loiter_score s) then ws_loiter_score s else ag_max_loiter a,
           ag_ever_in_roi := ag_ever_in_roi a \<or> ws_in_roi s \<noteq> 0,
           ag_roi_entered := ag_roi_entered a \<or> ws_roi_entered s \<noteq> 0,
           ag_roi_exited := ag_roi_exited a \<or> ws_roi_exited s \<noteq> 0,
           ag_last_status := ws_status s\<rparr>)"

text \<open>The \<open>std::map\<close> from track ids: its entries in the order of the keys.\<close>

type_synonym aggregate = "(u32 \<times> agg_track) list"

fun map_put :: "'k::linorder \<Rightarrow> 'v \<Rightarrow> ('k \<times> 'v) list \<Rightarrow> ('k \<times> 'v) list" where
  "map_put k v [] = [(k, v)]"
| "map_put k v ((k', v') # m) =
     (if k < k' then (k, v) # (k', v') # m
      else if k = k' then (k, v) # m
      else (k', v') # map_put k v m)"

definition update_aggregate :: "libm \<Rightarrow> wire_summary \<Rightarrow> aggregate \<Rightarrow> aggregate" where
  "update_aggregate m s agg =
     (let a = (case map_of agg (ws_track_id s) of None \<Rightarrow> agg_new | Some a \<Rightarrow> a)
      in map_put (ws_track_id s) (agg_step m s a) agg)"

section \<open>The snapshot\<close>

definition line :: "string \<Rightarrow> string" where
  "line s = s @ [CHR 0x0A]"

definition yes_no :: "bool \<Rightarrow> string" where
  "yes_no b = (if b then ''yes'' else ''no'')"

definition motion :: "agg_track \<Rightarrow> string" where
  "motion a = (if flt (fround F32 False (6 / 10)) (ag_max_loiter a) then ''loitering''
     else if flt (ag_max_speed a) (Fin 5) then ''stationary'' else ''moving'')"

definition mean_heading :: "libm \<Rightarrow> agg_track \<Rightarrow> fp" where
  "mean_heading m a =
     fdiv F32 (fmul F32 (lm_atan2 m (ag_sum_heading_y a) (ag_sum_heading_x a)) (Fin 180)) pi_m"

definition track_text :: "libm \<Rightarrow> nat \<Rightarrow> agg_track \<Rightarrow> string" where
  "track_text m idx a =
     line (''TRACK '' @ dec_digits idx) @
     line (''  class: '' @ ag_class_name a) @
     line (''  track_id: '' @ dec_digits (unat (ag_track_id a))) @
     line (''  duration_s: '' @ fmt_1f (fdiv F64 (fof_int F64 (uint (ag_duration_ms a))) (Fin 1000))) @
     line (''  frames_seen: '' @ dec_digits (unat (ag_frames_seen a))) @
     line (''  entered_at_px: ('' @ fmt_d (ag_first_cx a) @ '','' @ fmt_d (ag_first_cy a) @ '')'') @
     line (''  last_seen_at_px: ('' @ fmt_d (ag_last_cx a) @ '','' @ fmt_d (ag_last_cy a) @ '')'') @
     line (''  max_speed_px_s: '' @ fmt_1f (ag_max_speed a)) @
     line (''  avg_heading_deg: '' @ fmt_1f (mean_heading m a)) @
     line (''  motion: '' @ motion a @ '' (loiter '' @ fmt_2f (ag_max_loiter a) @ '')'') @
     line (''  roi_entered: '' @ yes_no (ag_roi_entered a)) @
     line (''  roi_exited: '' @ yes_no (ag_roi_exited a)) @
     line ''''"

text \<open>The whole file; \<open>ts\<close> is the date \<open>strftime\<close> gives.\<close>

definition snapshot_text :: "libm \<Rightarrow> string \<Rightarrow> string \<Rightarrow> aggregate \<Rightarrow> string" where
  "snapshot_text m ts device agg =
     line (''You are a security analyst. Using ONLY the scene data below, reply with '' @
       ''exactly two sentences describing the UAV activity and whether it looks '' @
       ''routine or suspicious. Do not ask questions or invent details.'') @ line '''' @
     line ''SCENE SUMMARY'' @
     line (''device: '' @ device) @
     line (''window_end_utc: '' @ ts) @
     line ''event: UAV departed; scene clear for the configured cooldown'' @
     line (''tracks_observed: '' @ dec_digits (length agg)) @ line '''' @
     concat (map (\<lambda>(i, k, a). track_text m (Suc i) a) (enumerate 0 agg)) @
     line ''END OF DATA. Now write the two-sentence assessment.''"

text \<open>What the process does to the outside: a control command to a camera (whether it succeeds is
  ignored), files, and the external command.\<close>

datatype action =
    Send_control string string
  | Write_file string string
  | Rename_file string string
  | Run_command string

text \<open>What one turn of the loop meets: the clock, the file operations' success, the date.\<close>

record turn_env =
  te_now_ms :: u64
  te_fopen :: bool
  te_rename :: bool
  te_utc :: string

definition write_snapshot ::
  "libm \<Rightarrow> turn_env \<Rightarrow> string \<Rightarrow> string \<Rightarrow> aggregate \<Rightarrow> bool \<times> action list" where
  "write_snapshot m env path device agg =
     (let tmp = path @ ''.tmp'' in
      if \<not> te_fopen env then (False, [])
      else if te_rename env
      then (True, [Write_file tmp (snapshot_text m (te_utc env) device agg), Rename_file tmp path])
      else (False, [Write_file tmp (snapshot_text m (te_utc env) device agg)]))"

section \<open>Receiving a frame\<close>

datatype recv_result = Frame "wire_summary list" | Timeout | Disconnect

definition recv_frame :: "delivery list \<Rightarrow> recv_result \<times> delivery list" where
  "recv_frame s =
     (case sys_read 4 s of
        (ReadZero, s) \<Rightarrow> (Disconnect, s)
      | (ReadAgain, s) \<Rightarrow> (Timeout, s)
      | (ReadErr, s) \<Rightarrow> (Disconnect, s)
      | (Bytes bs, s) \<Rightarrow>
        (case (if length bs \<noteq> 4 then readExact (4 - length bs) s else (Some [], s)) of
           (None, s) \<Rightarrow> (Disconnect, s)
         | (Some cs, s) \<Rightarrow>
           (let body_len = dec_u32 0 (bs @ cs) in
            if unat body_len < sizeof_WireFrameHeader then (Disconnect, s)
            else case readExact sizeof_WireFrameHeader s of
              (None, s) \<Rightarrow> (Disconnect, s)
            | (Some hb, s) \<Rightarrow>
              (let n = unat (wh_count (dec_header hb)) in
               case read_records dec_summary sizeof_WireTrackSummary n s of (out, s) \<Rightarrow>
                 if length out < n then (Disconnect, s) else (Frame out, s)))))"

section \<open>The command line\<close>

record config =
  cf_device :: string
  cf_cooldown_ms :: u64
  cf_drone_class :: string
  cf_out_path :: string
  cf_qwen_cmd :: string
  cf_use_control :: bool
  cf_also_devices :: "string list"

definition config_default :: "string \<Rightarrow> config" where
  "config_default device = \<lparr>cf_device = device, cf_cooldown_ms = 30 * 1000, cf_drone_class = ''UAV'',
     cf_out_path = ''/tmp/yolo_summary_'' @ device @ ''.txt'', cf_qwen_cmd = [],
     cf_use_control = True, cf_also_devices = []\<rparr>"

definition valued_opts :: "(string \<times> (string \<Rightarrow> config \<Rightarrow> config)) list" where
  "valued_opts =
     [(''--cooldown-s'', \<lambda>v cf. cf\<lparr>cf_cooldown_ms := strtoull10 v * 1000\<rparr>),
      (''--drone-class'', \<lambda>v cf. cf\<lparr>cf_drone_class := v\<rparr>),
      (''--out'', \<lambda>v cf. cf\<lparr>cf_out_path := v\<rparr>),
      (''--qwen-cmd'', \<lambda>v cf. cf\<lparr>cf_qwen_cmd := v\<rparr>),
      (''--also-device'', \<lambda>v cf. cf\<lparr>cf_also_devices := cf_also_devices cf @ [v]\<rparr>)]"

fun parse_opts :: "config \<Rightarrow> string list \<Rightarrow> config option" where
  "parse_opts cf [] = Some cf"
| "parse_opts cf (a # as) =
     (case (map_of valued_opts a, as) of
        (Some f, v # as') \<Rightarrow> parse_opts (f v cf) as'
      | _ \<Rightarrow> if a = ''--no-control'' then parse_opts (cf\<lparr>cf_use_control := False\<rparr>) as else None)"

definition config_of_args :: "string list \<Rightarrow> config option" where
  "config_of_args args = (case args of [] \<Rightarrow> None | device # opts \<Rightarrow> parse_opts (config_default device) opts)"

section \<open>The state machine\<close>

datatype fsm_state = NoDrone | DronePresent | Cooldown | LlmWindow

definition state_str :: "fsm_state \<Rightarrow> string" where
  "state_str s = (case s of NoDrone \<Rightarrow> ''NO_DRONE'' | DronePresent \<Rightarrow> ''DRONE_PRESENT''
     | Cooldown \<Rightarrow> ''COOLDOWN'' | LlmWindow \<Rightarrow> ''LLM_WINDOW'')"

record summarizer =
  su_state :: fsm_state
  su_present :: bool
  su_departed_ms :: u64
  su_agg :: aggregate

definition summ_init :: summarizer where
  "summ_init = \<lparr>su_state = NoDrone, su_present = False, su_departed_ms = 0, su_agg = []\<rparr>"

definition is_drone :: "config \<Rightarrow> wire_summary \<Rightarrow> bool" where
  "is_drone cf s \<longleftrightarrow> cf_drone_class cf = cstr (ws_class_name s) \<and> ws_status s \<noteq> 2"

text \<open>The loop over the records of a frame.\<close>

definition scan_record :: "libm \<Rightarrow> config \<Rightarrow> wire_summary \<Rightarrow> summarizer \<Rightarrow> summarizer" where
  "scan_record m cf s st =
     (let d = is_drone cf s;
          st = (if d \<and> (su_state st = DronePresent \<or> su_state st = Cooldown)
                then st\<lparr>su_agg := update_aggregate m s (su_agg st)\<rparr> else st)
      in if d then st\<lparr>su_present := True\<rparr> else st)"

definition scan_frame :: "libm \<Rightarrow> config \<Rightarrow> wire_summary list \<Rightarrow> summarizer \<Rightarrow> summarizer" where
  "scan_frame m cf fr st = fold (scan_record m cf) fr (st\<lparr>su_present := False\<rparr>)"

text \<open>The \<open>switch\<close>; the difference of the times is unsigned.\<close>

definition fsm_switch :: "config \<Rightarrow> u64 \<Rightarrow> summarizer \<Rightarrow> summarizer" where
  "fsm_switch cf t st =
     (case su_state st of
        NoDrone \<Rightarrow> (if su_present st then st\<lparr>su_agg := [], su_state := DronePresent\<rparr> else st)
      | DronePresent \<Rightarrow> (if \<not> su_present st then st\<lparr>su_departed_ms := t, su_state := Cooldown\<rparr> else st)
      | Cooldown \<Rightarrow> (if su_present st then st\<lparr>su_state := DronePresent\<rparr>
          else if cf_cooldown_ms cf \<le> t - su_departed_ms st then st\<lparr>su_state := LlmWindow\<rparr> else st)
      | LlmWindow \<Rightarrow> st)"

text \<open>The cycle: the cameras off, the snapshot and the command, the cameras on.\<close>

definition controls :: "config \<Rightarrow> string \<Rightarrow> action list" where
  "controls cf json =
     (if cf_use_control cf
      then Send_control (cf_device cf) json # map (\<lambda>d. Send_control d json) (cf_also_devices cf) else [])"

definition llm_actions :: "libm \<Rightarrow> config \<Rightarrow> turn_env \<Rightarrow> aggregate \<Rightarrow> action list" where
  "llm_actions m cf env agg =
     controls cf blackout_json @
     (case write_snapshot m env (cf_out_path cf) (cf_device cf) agg of (ok, as) \<Rightarrow>
        as @ (if ok \<and> cf_qwen_cmd cf \<noteq> [] then [Run_command (cf_qwen_cmd cf @ '' '' @ cf_out_path cf)] else [])) @
     controls cf resume_json"

definition fsm_tick :: "libm \<Rightarrow> config \<Rightarrow> turn_env \<Rightarrow> summarizer \<Rightarrow> action list \<times> summarizer" where
  "fsm_tick m cf env st =
     (let st = fsm_switch cf (te_now_ms env) st
      in if su_state st = LlmWindow
         then (llm_actions m cf env (su_agg st), st\<lparr>su_agg := [], su_present := False, su_state := NoDrone\<rparr>)
         else ([], st))"

text \<open>
  One turn of the inner loop. A disconnection leaves the loop before the state machine and so
  changes nothing. Comparing with a \<open>class_name\<close> that has no terminator reads past the array:
  undefined behaviour.
\<close>

definition terminated :: "wire_summary \<Rightarrow> bool" where
  "terminated s \<longleftrightarrow> NUL \<in> set (ws_class_name s)"

definition summ_turn ::
  "libm \<Rightarrow> config \<Rightarrow> turn_env \<Rightarrow> recv_result \<Rightarrow> summarizer \<Rightarrow> (action list \<times> summarizer) option" where
  "summ_turn m cf env r st =
     (case r of
        Disconnect \<Rightarrow> Some ([], st)
      | Timeout \<Rightarrow> Some (fsm_tick m cf env st)
      | Frame fr \<Rightarrow>
          (if list_all terminated fr then Some (fsm_tick m cf env (scan_frame m cf fr st)) else None))"

text \<open>The inner loop on one connection, for as many turns as the process lives; then the outer loop,
  which reconnects and keeps the state of the machine.\<close>

fun summ_connection ::
  "libm \<Rightarrow> config \<Rightarrow> turn_env list \<Rightarrow> delivery list \<Rightarrow> summarizer \<Rightarrow> (action list \<times> summarizer) option" where
  "summ_connection m cf [] s st = Some ([], st)"
| "summ_connection m cf (env # envs) s st =
     (case recv_frame s of (r, s) \<Rightarrow>
        do {
          (as, st) \<leftarrow> summ_turn m cf env r st;
          if r = Disconnect then Some (as, st)
          else do {
            (as', st) \<leftarrow> summ_connection m cf envs s st;
            Some (as @ as', st)
          }
        })"

fun summ_loop ::
  "libm \<Rightarrow> config \<Rightarrow> (turn_env list \<times> delivery list) attempt list \<Rightarrow> summarizer
   \<Rightarrow> (action list \<times> summarizer) option" where
  "summ_loop m cf [] st = Some ([], st)"
| "summ_loop m cf (Socket_error # as) st = Some ([], st)"
| "summ_loop m cf (Refused # as) st = summ_loop m cf as st"
| "summ_loop m cf (Connected (envs, s) # as) st =
     do {
       (ls, st) \<leftarrow> summ_connection m cf envs s st;
       (ls', st) \<leftarrow> summ_loop m cf as st;
       Some (ls @ ls', st)
     }"

text \<open>\<open>main\<close>; \<open>None\<close> for the arguments is the exit with status 1.\<close>

definition summ_main ::
  "libm \<Rightarrow> string list \<Rightarrow> (turn_env list \<times> delivery list) attempt list \<Rightarrow> (action list \<times> summarizer) option option" where
  "summ_main m args as = map_option (\<lambda>cf. summ_loop m cf as summ_init) (config_of_args args)"

section \<open>The clock\<close>

text \<open>\<open>now_ms\<close>, from what \<open>gettimeofday\<close> stores: the milliseconds of the time of day, rounded down.\<close>

definition now_ms :: "int \<Rightarrow> int \<Rightarrow> u64" where
  "now_ms tv_sec tv_usec = of_int tv_sec * 1000 + of_int tv_usec div 1000"

lemma uint_small_int: "0 \<le> i \<Longrightarrow> i < 2 ^ 64 \<Longrightarrow> uint (of_int i :: u64) = i"
  by (simp add: uint_word_of_int)

lemma now_ms_rounds_down:
  assumes "0 \<le> sec" "sec < 2 ^ 54" "0 \<le> usec" "usec < 1000000"
  shows "uint (now_ms sec usec) = (sec * 1000000 + usec) div 1000"
proof -
  have "uint (of_int usec :: u64) = usec" using assms by (intro uint_small_int) simp_all
  then have "uint ((of_int usec :: u64) div 1000) = usec div 1000" by (simp add: uint_div)
  then have "of_int usec div 1000 = (of_int (usec div 1000) :: u64)" by (metis word_of_int_uint)
  then have "now_ms sec usec = of_int (sec * 1000 + usec div 1000)" by (simp add: now_ms_def)
  moreover have "sec * 1000 + usec div 1000 < 2 ^ 64" "0 \<le> sec * 1000 + usec div 1000"
    using assms by simp_all
  ultimately have "uint (now_ms sec usec) = sec * 1000 + usec div 1000" by (metis uint_small_int)
  then show ?thesis by simp
qed

end
