(* ===== verification/Summarizer_Fsm.thy ===== *)
theory Summarizer_Fsm
  imports Event_Summarizer
begin

text \<open>
  The runs of the event summarizer: the state machine over the sequence of what its connections
  deliver. A presence episode starts with the frame that shows the drone in the state \<open>NoDrone\<close>
  and ends with the language-model cycle, which happens exactly when no frame has shown the drone
  for the cooldown. The other theorems: the cameras are blacked out around every command, the
  aggregate of a track summarises its records, the frames are received however the stream is
  chunked, and the control server understands the commands sent.
\<close>

section \<open>Runs\<close>

fun summ_run ::
  "libm \<Rightarrow> config \<Rightarrow> (turn_env \<times> recv_result) list \<Rightarrow> summarizer \<Rightarrow> (action list \<times> summarizer) option" where
  "summ_run m cf [] st = Some ([], st)"
| "summ_run m cf ((env, r) # xs) st =
     do {
       (as, st) \<leftarrow> summ_turn m cf env r st;
       (as', st) \<leftarrow> summ_run m cf xs st;
       Some (as @ as', st)
     }"

lemma summ_run_append:
  "summ_run m cf (xs @ ys) st =
     do {
       (as, st) \<leftarrow> summ_run m cf xs st;
       (as', st) \<leftarrow> summ_run m cf ys st;
       Some (as @ as', st)
     }"
  by (induction xs arbitrary: st) (auto split: Option.bind_splits)

lemma summ_run_snocD:
  assumes "summ_run m cf (xs @ [(env, r)]) st = Some (as, st'')"
  obtains as1 st' as2 where "summ_run m cf xs st = Some (as1, st')" "summ_turn m cf env r st' = Some (as2, st'')"
    "as = as1 @ as2"
  using assms by (auto simp: summ_run_append split: Option.bind_splits)

text \<open>What the connections deliver: the loops run the machine over it, disconnections included.\<close>

fun received :: "turn_env list \<Rightarrow> delivery list \<Rightarrow> (turn_env \<times> recv_result) list" where
  "received [] s = []"
| "received (env # envs) s =
     (case recv_frame s of (r, s) \<Rightarrow>
        (env, r) # (if r = Disconnect then [] else received envs s))"

lemma summ_connection_run: "summ_connection m cf envs s st = summ_run m cf (received envs s) st"
  by (induction m cf envs s st rule: summ_connection.induct)
    (auto simp: summ_turn_def split: prod.splits recv_result.splits intro!: bind_option_cong)

fun all_received :: "(turn_env list \<times> delivery list) attempt list \<Rightarrow> (turn_env \<times> recv_result) list" where
  "all_received [] = []"
| "all_received (Socket_error # as) = []"
| "all_received (Refused # as) = all_received as"
| "all_received (Connected (envs, s) # as) = received envs s @ all_received as"

lemma summ_loop_run: "summ_loop m cf as st = summ_run m cf (all_received as) st"
  by (induction m cf as st rule: summ_loop.induct)
    (auto simp: summ_connection_run summ_run_append intro!: bind_option_cong)

section \<open>Frames, presence and episodes\<close>

text \<open>The drone's records of an input, and the two kinds of frames.\<close>

fun drones :: "config \<Rightarrow> turn_env \<times> recv_result \<Rightarrow> wire_summary list" where
  "drones cf (env, Frame fr) = filter (is_drone cf) fr"
| "drones cf (env, r) = []"

definition shows_drone :: "config \<Rightarrow> turn_env \<times> recv_result \<Rightarrow> bool" where
  "shows_drone cf x \<longleftrightarrow> drones cf x \<noteq> []"

definition empty_frame :: "config \<Rightarrow> turn_env \<times> recv_result \<Rightarrow> bool" where
  "empty_frame cf x \<longleftrightarrow> (\<exists>env fr. x = (env, Frame fr)) \<and> drones cf x = []"

definition aggregated :: "libm \<Rightarrow> config \<Rightarrow> (turn_env \<times> recv_result) list \<Rightarrow> aggregate" where
  "aggregated m cf xs = fold (update_aggregate m) (concat (map (drones cf) xs)) []"

lemma aggregated_snoc:
  "aggregated m cf (xs @ [x]) = fold (update_aggregate m) (drones cf x) (aggregated m cf xs)"
  by (simp add: aggregated_def)

lemma aggregated_quiet: "list_all (\<lambda>x. \<not> shows_drone cf x) ys \<Longrightarrow> aggregated m cf (xs @ ys) = aggregated m cf xs"
  by (induction ys rule: rev_induct) (simp_all add: aggregated_snoc shows_drone_def flip: append_assoc)

lemma aggregated_Nil [simp]: "aggregated m cf [] = []"
  by (simp add: aggregated_def)

lemma fold_scan_record:
  "fold (scan_record m cf) fr st = st\<lparr>su_present := su_present st \<or> filter (is_drone cf) fr \<noteq> [],
     su_agg := if su_state st = DronePresent \<or> su_state st = Cooldown
       then fold (update_aggregate m) (filter (is_drone cf) fr) (su_agg st) else su_agg st\<rparr>"
  by (induction fr arbitrary: st) (auto simp: scan_record_def Let_def)

lemma scan_frame_eq:
  "scan_frame m cf fr st = st\<lparr>su_present := shows_drone cf (env, Frame fr),
     su_agg := if su_state st = DronePresent \<or> su_state st = Cooldown
       then fold (update_aggregate m) (drones cf (env, Frame fr)) (su_agg st) else su_agg st\<rparr>"
  by (simp add: scan_frame_def fold_scan_record shows_drone_def)

lemma shows_drone_frame [simp]:
  "shows_drone cf (env, Timeout) = False" "shows_drone cf (env, Disconnect) = False"
  "empty_frame cf (env, Timeout) = False" "empty_frame cf (env, Disconnect) = False"
  "empty_frame cf (env, Frame fr) = (\<not> shows_drone cf (env, Frame fr))"
  by (simp_all add: shows_drone_def empty_frame_def)

text \<open>The phase of the machine, as the sequence of inputs determines it: \<open>z\<close> is the frame that starts
  the episode, whose own records are not aggregated, \<open>w\<close> the frame in which the drone is first
  missing, after which no frame shows it.\<close>

definition episode :: "libm \<Rightarrow> config \<Rightarrow> action list \<Rightarrow> (turn_env \<times> recv_result) list \<Rightarrow> (turn_env \<times> recv_result) list \<Rightarrow> bool" where
  "episode m cf as0 ys zs \<longleftrightarrow> (\<exists>st. summ_run m cf ys summ_init = Some (as0, st) \<and> su_state st = NoDrone)
     \<and> zs \<noteq> [] \<and> shows_drone cf (hd zs)"

definition gone :: "config \<Rightarrow> turn_env \<times> recv_result \<Rightarrow> (turn_env \<times> recv_result) list \<Rightarrow> bool" where
  "gone cf w ws \<longleftrightarrow> empty_frame cf w \<and> list_all (\<lambda>x. \<not> shows_drone cf x) ws"

definition in_episode :: "libm \<Rightarrow> config \<Rightarrow> action list \<Rightarrow> (turn_env \<times> recv_result) list \<Rightarrow> aggregate \<Rightarrow> bool" where
  "in_episode m cf as0 xs agg \<longleftrightarrow> (\<exists>ys zs. xs = ys @ zs \<and> episode m cf as0 ys zs \<and> agg = aggregated m cf (tl zs))"

definition in_cooldown :: "libm \<Rightarrow> config \<Rightarrow> action list \<Rightarrow> (turn_env \<times> recv_result) list \<Rightarrow> aggregate \<Rightarrow> u64 \<Rightarrow> bool" where
  "in_cooldown m cf as0 xs agg t \<longleftrightarrow> (\<exists>ys zs w ws. xs = ys @ zs @ w # ws \<and> episode m cf as0 ys zs \<and> gone cf w ws
     \<and> agg = aggregated m cf (tl zs) \<and> t = te_now_ms (fst w))"

definition phase :: "libm \<Rightarrow> config \<Rightarrow> action list \<Rightarrow> (turn_env \<times> recv_result) list \<Rightarrow> summarizer \<Rightarrow> bool" where
  "phase m cf as0 xs st \<longleftrightarrow>
     (case su_state st of
        NoDrone \<Rightarrow> \<not> su_present st
      | DronePresent \<Rightarrow> su_present st \<and> in_episode m cf as0 xs (su_agg st)
      | Cooldown \<Rightarrow> \<not> su_present st \<and> in_cooldown m cf as0 xs (su_agg st) (su_departed_ms st)
      | LlmWindow \<Rightarrow> False)"

text \<open>The cycle that ends an episode.\<close>

definition cycle_of ::
  "libm \<Rightarrow> config \<Rightarrow> action list \<Rightarrow> (turn_env \<times> recv_result) list \<Rightarrow> turn_env \<Rightarrow> action list \<Rightarrow> bool" where
  "cycle_of m cf as0 xs env as \<longleftrightarrow> (\<exists>ys zs w ws. xs = ys @ zs @ w # ws \<and> episode m cf as0 ys zs \<and> gone cf w ws
     \<and> cf_cooldown_ms cf \<le> te_now_ms env - te_now_ms (fst w)
     \<and> as = llm_actions m cf env (aggregated m cf (tl zs)))"

text \<open>How an input moves a sequence from one phase to the next.\<close>

lemma episode_snoc: "episode m cf as0 ys zs \<Longrightarrow> episode m cf as0 ys (zs @ ws)"
  by (auto simp: episode_def)

lemma tl_snoc_agg: "zs \<noteq> [] \<Longrightarrow> aggregated m cf (tl (zs @ [x])) = fold (update_aggregate m) (drones cf x) (aggregated m cf (tl zs))"
  by (simp add: aggregated_snoc)

lemma episode_starts:
  assumes "summ_run m cf xs summ_init = Some (as0, st)" "su_state st = NoDrone" "shows_drone cf x"
  shows "in_episode m cf as0 (xs @ [x]) []"
  unfolding in_episode_def using assms
  by (intro exI[of _ xs] exI[of _ "[x]"]) (simp add: episode_def)

lemma episode_goes_on:
  assumes "in_episode m cf as0 xs agg"
  shows "in_episode m cf as0 (xs @ [x]) (fold (update_aggregate m) (drones cf x) agg)"
proof -
  obtain ys zs where d: "xs = ys @ zs" "episode m cf as0 ys zs" "agg = aggregated m cf (tl zs)"
    using assms by (auto simp: in_episode_def)
  then have "zs \<noteq> []" by (simp add: episode_def)
  then show ?thesis unfolding in_episode_def using d episode_snoc[OF d(2), of "[x]"]
    by (intro exI[of _ ys] exI[of _ "zs @ [x]"]) (simp add: tl_snoc_agg del: tl_append2)
qed

lemma cooldown_starts:
  assumes "in_episode m cf as0 xs agg" "empty_frame cf x"
  shows "in_cooldown m cf as0 (xs @ [x]) agg (te_now_ms (fst x))"
proof -
  obtain ys zs where "xs = ys @ zs" "episode m cf as0 ys zs" "agg = aggregated m cf (tl zs)"
    using assms(1) by (auto simp: in_episode_def)
  then show ?thesis unfolding in_cooldown_def using assms(2)
    by (intro exI[of _ ys] exI[of _ zs] exI[of _ x] exI[of _ "[]"]) (simp add: gone_def)
qed

lemma cooldown_goes_on:
  assumes "in_cooldown m cf as0 xs agg t" "\<not> shows_drone cf x"
  shows "in_cooldown m cf as0 (xs @ [x]) agg t"
proof -
  obtain ys zs w ws where "xs = ys @ zs @ w # ws" "episode m cf as0 ys zs" "gone cf w ws"
      "agg = aggregated m cf (tl zs)" "t = te_now_ms (fst w)"
    using assms(1) by (auto simp: in_cooldown_def)
  then show ?thesis unfolding in_cooldown_def using assms(2)
    by (intro exI[of _ ys] exI[of _ zs] exI[of _ w] exI[of _ "ws @ [x]"]) (simp add: gone_def)
qed

lemma cooldown_ends:
  assumes "in_cooldown m cf as0 xs agg t"
  shows "in_episode m cf as0 (xs @ [x]) (fold (update_aggregate m) (drones cf x) agg)"
proof -
  obtain ys zs w ws where d: "xs = ys @ zs @ w # ws" "episode m cf as0 ys zs" "gone cf w ws" "agg = aggregated m cf (tl zs)"
    using assms by (auto simp: in_cooldown_def)
  have "list_all (\<lambda>x. \<not> shows_drone cf x) (w # ws)" using d(3) by (auto simp: gone_def empty_frame_def shows_drone_def)
  then have "agg = aggregated m cf (tl zs @ w # ws)" using aggregated_quiet d(4) by metis
  moreover have "tl zs @ w # ws = tl (zs @ w # ws)" using d(2) by (cases zs) (auto simp: episode_def)
  ultimately have "in_episode m cf as0 xs agg"
    unfolding in_episode_def using d(1) episode_snoc[OF d(2), of "w # ws"]
    by (intro exI[of _ ys] exI[of _ "zs @ w # ws"]) simp
  then show ?thesis by (rule episode_goes_on)
qed

lemma cooldown_cycle:
  assumes "in_cooldown m cf as0 xs agg t" "cf_cooldown_ms cf \<le> te_now_ms env - t"
  shows "cycle_of m cf as0 xs env (llm_actions m cf env agg)"
  using assms unfolding in_cooldown_def cycle_of_def by blast

definition seen :: "config \<Rightarrow> turn_env \<Rightarrow> recv_result \<Rightarrow> bool \<Rightarrow> bool" where
  "seen cf env r p = (case r of Frame fr \<Rightarrow> shows_drone cf (env, r) | _ \<Rightarrow> p)"

lemma summ_turn_cases:
  assumes "summ_turn m cf env r st = Some (as, st')"
  shows "r = Disconnect \<and> as = [] \<and> st' = st
    \<or> r \<noteq> Disconnect \<and> (as, st') = fsm_tick m cf env (st\<lparr>su_present := seen cf env r (su_present st),
         su_agg := if su_state st = DronePresent \<or> su_state st = Cooldown
           then fold (update_aggregate m) (drones cf (env, r)) (su_agg st) else su_agg st\<rparr>)"
proof (cases r)
  case (Frame fr)
  then show ?thesis using assms
    by (auto simp: summ_turn_def seen_def scan_frame_eq[of m cf fr st env] simp del: drones.simps split: if_splits)
qed (use assms in \<open>simp_all add: summ_turn_def seen_def\<close>)

lemma quiet_agg: "\<not> shows_drone cf x \<Longrightarrow> fold (update_aggregate m) (drones cf x) agg = agg"
  by (simp add: shows_drone_def)

lemma seen_quiet: "\<not> seen cf env r p \<Longrightarrow> \<not> shows_drone cf (env, r)"
  by (cases r) (simp_all add: seen_def)

lemma seen_new: "seen cf env r False \<Longrightarrow> shows_drone cf (env, r)"
  by (cases r) (simp_all add: seen_def)

lemma seen_lost: "\<not> seen cf env r True \<Longrightarrow> r \<noteq> Disconnect \<Longrightarrow> empty_frame cf (env, r)"
  by (cases r) (simp_all add: seen_def)

lemma phase_turn:
  assumes run: "summ_run m cf xs summ_init = Some (as0, st)" and ph: "phase m cf as0 xs st"
    and t: "summ_turn m cf env r st = Some (as, st')"
  shows "phase m cf (as0 @ as) (xs @ [(env, r)]) st' \<and>
    (if su_state st = Cooldown \<and> su_state st' = NoDrone
     then \<not> shows_drone cf (env, r) \<and> cycle_of m cf as0 xs env as else as = [])"
proof -
  let ?x = "(env, r)" and ?p = "seen cf env r (su_present st)"
  let ?agg = "if su_state st = DronePresent \<or> su_state st = Cooldown
     then fold (update_aggregate m) (drones cf (env, r)) (su_agg st) else su_agg st"
  consider (disc) "r = Disconnect" "as = []" "st' = st"
    | (tick) "r \<noteq> Disconnect" "(as, st') = fsm_tick m cf env (st\<lparr>su_present := ?p, su_agg := ?agg\<rparr>)"
    using summ_turn_cases[OF t] by blast
  then show ?thesis
  proof cases
    case disc
    then show ?thesis
      using ph episode_goes_on[of m cf as0 xs "su_agg st" ?x]
        cooldown_goes_on[of m cf as0 xs "su_agg st" "su_departed_ms st" ?x]
      by (cases "su_state st") (simp_all add: phase_def)
  next
    case tick
    note defs = fsm_tick_def fsm_switch_def phase_def
    show ?thesis
    proof (cases "su_state st")
      case NoDrone
      then have "?p \<Longrightarrow> in_episode m cf as0 (xs @ [?x]) []"
        using ph episode_starts[OF run NoDrone] seen_new by (simp add: phase_def)
      then show ?thesis using tick(2) NoDrone by (cases ?p) (simp_all add: defs)
    next
      case DronePresent
      then have d: "in_episode m cf as0 xs (su_agg st)" "su_present st" using ph by (simp_all add: phase_def)
      show ?thesis using tick DronePresent episode_goes_on[OF d(1), of ?x]
          cooldown_starts[OF d(1), of ?x] seen_lost[of cf env r] d(2) quiet_agg[OF seen_quiet]
        by (cases ?p) (simp_all add: defs)
    next
      case Cooldown
      then have d: "in_cooldown m cf as0 xs (su_agg st) (su_departed_ms st)" using ph by (simp add: phase_def)
      show ?thesis using tick(2) Cooldown cooldown_ends[OF d, of ?x] cooldown_goes_on[OF d seen_quiet]
          cooldown_cycle[OF d, of env] quiet_agg[OF seen_quiet] seen_quiet[of cf env r "su_present st"]
        by (cases ?p; cases "cf_cooldown_ms cf \<le> te_now_ms env - su_departed_ms st") (simp_all add: defs)
    qed (use ph in \<open>simp add: phase_def\<close>)
  qed
qed

lemma phase_run: "summ_run m cf xs summ_init = Some (as, st) \<Longrightarrow> phase m cf as xs st"
proof (induction xs arbitrary: as st rule: rev_induct)
  case Nil
  then show ?case by (auto simp: phase_def summ_init_def)
next
  case (snoc x xs)
  obtain env r where x: "x = (env, r)" by (cases x)
  obtain as1 st1 as2 where s: "summ_run m cf xs summ_init = Some (as1, st1)" "summ_turn m cf env r st1 = Some (as2, st)"
      "as = as1 @ as2"
    using snoc.prems unfolding x by (rule summ_run_snocD)
  show ?case using phase_turn[OF s(1) snoc.IH[OF s(1)] s(2)] by (simp add: x s(3))
qed

section \<open>The aggregate\<close>

text \<open>The entries stay in the strict order of the keys, and the map is updated at the key.\<close>

definition ordered :: "('k::linorder \<times> 'v) list \<Rightarrow> bool" where
  "ordered agg \<longleftrightarrow> sorted_wrt (\<lambda>x y. fst x < fst y) agg"

lemma map_put_keys: "fst ` set (map_put k v agg) = insert k (fst ` set agg)"
  by (induction k v agg rule: map_put.induct) auto

lemma map_put_ordered: "ordered agg \<Longrightarrow> ordered (map_put k v agg)"
proof (induction k v agg rule: map_put.induct)
  case (2 k v k' v' agg)
  have "k' < fst y" if "k' < k" "y \<in> set (map_put k v agg)" for y
  proof -
    have "fst y \<in> insert k (fst ` set agg)" using that(2) map_put_keys[of k v agg] by (metis imageI)
    then show ?thesis using that(1) "2.prems" by (auto simp: ordered_def)
  qed
  then show ?case using 2 by (auto simp: ordered_def not_less_iff_gr_or_eq)
qed (simp add: ordered_def)

lemma map_of_map_put: "ordered agg \<Longrightarrow> map_of (map_put k v agg) = (map_of agg)(k \<mapsto> v)"
proof (induction k v agg rule: map_put.induct)
  case (2 k v k' v' agg)
  have "map_of ((k', v') # agg) k = None" if "k < k'"
    using that "2.prems" by (auto simp: ordered_def map_of_eq_None_iff)
  then show ?case using 2 by (auto simp: ordered_def fun_upd_twist)
qed simp

lemma update_aggregate_ordered: "ordered agg \<Longrightarrow> ordered (update_aggregate m s agg)"
  by (simp add: update_aggregate_def map_put_ordered)

definition of_track :: "u32 \<Rightarrow> wire_summary list \<Rightarrow> wire_summary list" where
  "of_track i ss = filter (\<lambda>s. ws_track_id s = i) ss"

lemma fold_update_aggregate:
  "ordered agg \<Longrightarrow> ordered (fold (update_aggregate m) ss agg)
   \<and> map_of (fold (update_aggregate m) ss agg) i =
     (if of_track i ss = [] then map_of agg i
      else Some (fold (agg_step m) (of_track i ss) (case map_of agg i of None \<Rightarrow> agg_new | Some a \<Rightarrow> a)))"
proof (induction ss arbitrary: agg)
  case (Cons s ss)
  note o1 = update_aggregate_ordered[OF Cons.prems, of m s]
  have m1: "map_of (update_aggregate m s agg) =
      (map_of agg)(ws_track_id s \<mapsto> agg_step m s (case map_of agg (ws_track_id s) of None \<Rightarrow> agg_new | Some a \<Rightarrow> a))"
    using Cons.prems by (simp add: update_aggregate_def map_of_map_put)
  show ?case using Cons.IH[OF o1] by (auto simp: m1 of_track_def)
qed (simp add: of_track_def)

text \<open>What the records of one track leave in its entry.\<close>

lemma agg_step_fields:
  "ag_track_id (agg_step m s a) = ws_track_id s"
  "ag_class_name (agg_step m s a) = cstr (ws_class_name s)"
  "ag_frames_seen (agg_step m s a) = max (ws_frames_seen s) (ag_frames_seen a)"
  "ag_duration_ms (agg_step m s a) = max (ws_duration_ms s) (ag_duration_ms a)"
  "ag_first_set (agg_step m s a)"
  "ag_first_cx (agg_step m s a) = (if ag_first_set a then ag_first_cx a else ws_cx s)"
  "ag_first_cy (agg_step m s a) = (if ag_first_set a then ag_first_cy a else ws_cy s)"
  "ag_first_seen_us (agg_step m s a) = (if ag_first_set a then ag_first_seen_us a else ws_first_seen_us s)"
  "ag_last_cx (agg_step m s a) = ws_cx s"
  "ag_last_cy (agg_step m s a) = ws_cy s"
  "ag_last_seen_us (agg_step m s a) = ws_last_seen_us s"
  "ag_max_speed (agg_step m s a) = (if flt (ag_max_speed a) (ws_speed s) then ws_speed s else ag_max_speed a)"
  "ag_max_loiter (agg_step m s a) = (if flt (ag_max_loiter a) (ws_loiter_score s) then ws_loiter_score s else ag_max_loiter a)"
  "ag_roi_entered (agg_step m s a) = (ag_roi_entered a \<or> ws_roi_entered s \<noteq> 0)"
  "ag_roi_exited (agg_step m s a) = (ag_roi_exited a \<or> ws_roi_exited s \<noteq> 0)"
  "ag_ever_in_roi (agg_step m s a) = (ag_ever_in_roi a \<or> ws_in_roi s \<noteq> 0)"
  by (simp_all add: agg_step_def Let_def max_def) (auto simp: not_less)

definition reports :: "agg_track \<Rightarrow> wire_summary list \<Rightarrow> bool" where
  "reports a rs \<longleftrightarrow> ag_track_id a = ws_track_id (last rs) \<and> ag_class_name a = cstr (ws_class_name (last rs))
     \<and> ag_frames_seen a = Max (ws_frames_seen ` set rs) \<and> ag_duration_ms a = Max (ws_duration_ms ` set rs)
     \<and> ag_first_cx a = ws_cx (hd rs) \<and> ag_first_cy a = ws_cy (hd rs)
     \<and> ag_last_cx a = ws_cx (last rs) \<and> ag_last_cy a = ws_cy (last rs)
     \<and> (ag_max_speed a = Fin 0 \<or> ag_max_speed a \<in> ws_speed ` set rs)
     \<and> (\<forall>s \<in> set rs. \<not> flt (ag_max_speed a) (ws_speed s))
     \<and> (ag_max_loiter a = Fin 0 \<or> ag_max_loiter a \<in> ws_loiter_score ` set rs)
     \<and> (\<forall>s \<in> set rs. \<not> flt (ag_max_loiter a) (ws_loiter_score s))
     \<and> (ag_roi_entered a \<longleftrightarrow> (\<exists>s \<in> set rs. ws_roi_entered s \<noteq> 0))
     \<and> (ag_roi_exited a \<longleftrightarrow> (\<exists>s \<in> set rs. ws_roi_exited s \<noteq> 0))"

lemma flt_trans: "flt x y \<Longrightarrow> flt y z \<Longrightarrow> flt x z"
  by (cases x; cases y; cases z) auto

lemma agg_new_unset: "\<not> ag_first_set agg_new" "ag_frames_seen agg_new = 0" "ag_duration_ms agg_new = 0"
  "ag_max_speed agg_new = Fin 0" "ag_max_loiter agg_new = Fin 0" "\<not> ag_roi_entered agg_new" "\<not> ag_roi_exited agg_new"
  by (simp_all add: agg_new_def)

lemma fold_agg_step_set: "rs \<noteq> [] \<Longrightarrow> ag_first_set (fold (agg_step m) rs a)"
  by (induction rs rule: rev_induct) (simp_all add: agg_step_fields)

lemma max_word_0: "max (x :: 'a::len word) 0 = x"
  by (simp add: max_def)

lemma fold_agg_step_reports: "rs \<noteq> [] \<Longrightarrow> reports (fold (agg_step m) rs agg_new) rs"
proof (induction rs rule: rev_induct)
  case (snoc s rs)
  show ?case
  proof (cases "rs = []")
    case True
    then show ?thesis by (auto simp: reports_def agg_step_fields agg_new_unset max_word_0 flt_irrefl)
  next
    case False
    let ?a = "fold (agg_step m) rs agg_new"
    have IH: "reports ?a rs" and set: "ag_first_set ?a" using snoc.IH False fold_agg_step_set by auto
    have mx: "Max (f ` set (rs @ [s])) = max (f s) (Max (f ` set rs))" for f :: "wire_summary \<Rightarrow> u32"
      using False by simp
    have nf: "\<not> flt (if flt x y then y else x) z" if "\<not> flt x z" for x y z
      using that flt_trans by auto
    show ?thesis
      using IH set False nf flt_irrefl unfolding reports_def mx
      by (auto simp: agg_step_fields)
  qed
qed simp

text \<open>C32: the snapshot's data: at any time of an episode the aggregate has one entry for each track the
  drone's records name, in increasing order of the ids; the entry has the class of the track's
  last record, the largest frame count and duration, the position of its first and of its last
  record, the largest speed and loiter score (0 if none is larger), and whether any record
  reported the region of interest entered or left.\<close>

theorem aggregate_summarises:
  "ordered (aggregated m cf xs) \<and>
   (\<forall>i. case map_of (aggregated m cf xs) i of
      None \<Rightarrow> of_track i (concat (map (drones cf) xs)) = []
    | Some a \<Rightarrow> ag_track_id a = i \<and> reports a (of_track i (concat (map (drones cf) xs))))"
proof -
  let ?ss = "concat (map (drones cf) xs)"
  note f = fold_update_aggregate[of "[]" m ?ss, folded aggregated_def]
  have "ag_track_id (fold (agg_step m) (of_track i ?ss) agg_new) = i" if "of_track i ?ss \<noteq> []" for i
  proof -
    have "last (of_track i ?ss) \<in> set (of_track i ?ss)" using that by simp
    then have "ws_track_id (last (of_track i ?ss)) = i" by (simp add: of_track_def)
    then show ?thesis using fold_agg_step_reports[OF that, of m] by (simp add: reports_def)
  qed
  then show ?thesis using f fold_agg_step_reports[of _ m] by (auto simp: ordered_def)
qed

section \<open>The language-model cycle\<close>

lemma llm_actions_nonempty: "as \<noteq> [] \<Longrightarrow> cycle_of m cf as0 xs env as \<Longrightarrow>
  \<exists>ys zs w ws. xs = ys @ zs @ w # ws \<and> episode m cf as0 ys zs \<and> gone cf w ws
    \<and> cf_cooldown_ms cf \<le> te_now_ms env - te_now_ms (fst w)
    \<and> as = llm_actions m cf env (aggregated m cf (tl zs))"
  by (simp add: cycle_of_def)


definition sample_libm :: libm where
  "sample_libm = \<lparr>lm_cos = \<lambda>_. Fin 1, lm_sin = \<lambda>_. Fin 0, lm_atan2 = \<lambda>_ _. Fin 0\<rparr>"

definition sample_env :: "u64 \<Rightarrow> turn_env" where
  "sample_env t = \<lparr>te_now_ms = t, te_fopen = True, te_rename = True, te_utc = ''2026-01-01T00:00:00Z''\<rparr>"

definition sample_config :: config where
  "sample_config = (config_default ''50'')\<lparr>cf_cooldown_ms := 30, cf_qwen_cmd := ''qwen'', cf_also_devices := [''51'']\<rparr>"

definition sample_uav :: "u8 \<Rightarrow> wire_summary" where
  "sample_uav v = \<lparr>ws_class_name = ''UAV'' @ replicate 13 NUL, ws_track_id = 4, ws_frames_seen = 2,
     ws_first_seen_us = 7, ws_last_seen_us = 9, ws_duration_ms = 3, ws_visibility = Fin 1, ws_cx = 5,
     ws_cy = 6, ws_left = 1, ws_top = 2, ws_right = 9, ws_bottom = 10, ws_vx = Fin 0, ws_vy = Fin 0,
     ws_speed = Fin 0, ws_heading_deg = Fin 0, ws_accel = Fin 0, ws_loiter_score = Fin 1, ws_in_roi = 1,
     ws_roi_entered = 1, ws_roi_exited = 0, ws_status = v, ws_reserved = replicate 4 0\<rparr>"

lemma sample_terminated: "terminated (sample_uav st)"
  by (simp add: terminated_def sample_uav_def)

lemma sample_is_drone: "is_drone sample_config (sample_uav st) \<longleftrightarrow> st \<noteq> 2"
  by (simp add: is_drone_def sample_uav_def sample_config_def config_default_def cstr_def)

lemma sample_turns:
  "summ_turn sample_libm sample_config (sample_env t) (Frame [sample_uav 1]) summ_init
    = Some ([], \<lparr>su_state = DronePresent, su_present = True, su_departed_ms = 0, su_agg = []\<rparr>)"
  "summ_turn sample_libm sample_config (sample_env t) (Frame [sample_uav 2])
      \<lparr>su_state = DronePresent, su_present = True, su_departed_ms = 0, su_agg = []\<rparr>
    = Some ([], \<lparr>su_state = Cooldown, su_present = False, su_departed_ms = t, su_agg = []\<rparr>)"
  "summ_turn sample_libm sample_config (sample_env 50) Timeout
      \<lparr>su_state = Cooldown, su_present = False, su_departed_ms = 20, su_agg = []\<rparr>
    = Some (llm_actions sample_libm sample_config (sample_env 50) [], summ_init\<lparr>su_departed_ms := 20\<rparr>)"
  by (simp_all add: summ_turn_def sample_terminated fsm_tick_def Let_def scan_frame_def scan_record_def sample_is_drone
      summ_init_def fsm_switch_def sample_env_def) (simp_all add: sample_config_def)


text \<open>Turns that show no drone, while the cooldown has not passed.\<close>

definition waiting :: "config \<Rightarrow> u64 \<Rightarrow> turn_env \<times> recv_result \<Rightarrow> bool" where
  "waiting cf t0 x \<longleftrightarrow> (case x of (env, r) \<Rightarrow>
     (case r of Frame fr \<Rightarrow> list_all terminated fr \<and> \<not> shows_drone cf (env, r) | _ \<Rightarrow> True)
     \<and> te_now_ms env - t0 < cf_cooldown_ms cf)"

lemma turn_quiet:
  assumes "case r of Frame fr \<Rightarrow> list_all terminated fr \<and> \<not> shows_drone cf (env, r) | _ \<Rightarrow> True" "r \<noteq> Disconnect"
    and "su_present st = False"
  shows "summ_turn m cf env r st = Some (fsm_tick m cf env st)"
proof (cases r)
  case (Frame fr)
  then have q: "\<not> shows_drone cf (env, Frame fr)" "list_all terminated fr" using assms(1) by auto
  have "scan_frame m cf fr st = st"
    using q(1) assms(3) unfolding scan_frame_eq[of m cf fr st env] by (simp add: shows_drone_def)
  then show ?thesis using Frame q(2) by (simp add: summ_turn_def)
qed (use assms(2) in \<open>simp_all add: summ_turn_def\<close>)

lemma run_waiting:
  assumes "su_state st = Cooldown" "\<not> su_present st" "list_all (waiting cf (su_departed_ms st)) ws"
  shows "summ_run m cf ws st = Some ([], st)"
  using assms(3)
proof (induction ws)
  case (Cons x ws)
  obtain env r where x: "x = (env, r)" by (cases x)
  have w: "case r of Frame fr \<Rightarrow> list_all terminated fr \<and> \<not> shows_drone cf (env, r) | _ \<Rightarrow> True"
      "te_now_ms env - su_departed_ms st < cf_cooldown_ms cf"
    using Cons.prems by (simp_all add: x waiting_def)
  have "summ_turn m cf env r st = Some ([], st)"
  proof (cases "r = Disconnect")
    case False
    have "fsm_tick m cf env st = ([], st)"
      using assms(1,2) w(2) by (simp add: fsm_tick_def fsm_switch_def)
    then show ?thesis using turn_quiet[OF w(1) False] assms(2) by simp
  qed (simp add: summ_turn_def)
  then show ?case using Cons by (simp add: x)
qed simp

text \<open>C22: the cycle is reached: from any state in which the drone is present, a frame without it, then
  any number of frames without it, timeouts and reconnections within the cooldown, then a frame
  without it or a timeout once the cooldown has passed run the cycle, once, on the aggregate of
  the episode, and end in the state that waits for the next drone.\<close>

theorem cooldown_reaches_cycle:
  assumes st: "su_state st = DronePresent"
    and w: "list_all terminated fr" "\<not> shows_drone cf (env0, Frame fr)"
    and ws: "list_all (waiting cf (te_now_ms env0)) ws"
    and x: "case r of Frame fr \<Rightarrow> list_all terminated fr \<and> \<not> shows_drone cf (env, r) | _ \<Rightarrow> True" "r \<noteq> Disconnect"
    and t: "cf_cooldown_ms cf \<le> te_now_ms env - te_now_ms env0"
  shows "summ_run m cf ((env0, Frame fr) # ws @ [(env, r)]) st
    = Some (llm_actions m cf env (su_agg st),
        st\<lparr>su_departed_ms := te_now_ms env0, su_agg := [], su_present := False, su_state := NoDrone\<rparr>)"
proof -
  define st1 where "st1 = st\<lparr>su_present := False, su_departed_ms := te_now_ms env0, su_state := Cooldown\<rparr>"
  have "scan_frame m cf fr st = st\<lparr>su_present := False\<rparr>"
    using w(2) unfolding scan_frame_eq[of m cf fr st env0] by (simp add: shows_drone_def)
  then have t1: "summ_turn m cf env0 (Frame fr) st = Some ([], st1)"
    using st w(1) by (simp add: summ_turn_def fsm_tick_def fsm_switch_def st1_def)
  have ws1: "summ_run m cf ws st1 = Some ([], st1)"
    by (rule run_waiting) (use ws in \<open>simp_all add: st1_def\<close>)
  have "summ_turn m cf env r st1 = Some (llm_actions m cf env (su_agg st),
      st\<lparr>su_departed_ms := te_now_ms env0, su_agg := [], su_present := False, su_state := NoDrone\<rparr>)"
    using turn_quiet[OF x] t by (simp add: st1_def fsm_tick_def fsm_switch_def)
  with t1 ws1 show ?thesis by (simp add: summ_run_append)
qed

lemma cooldown_reaches_cycle_witness:
  "summ_run sample_libm sample_config
      [(sample_env 20, Frame []), (sample_env 30, Disconnect), (sample_env 40, Frame [sample_uav 2]), (sample_env 50, Timeout)]
      \<lparr>su_state = DronePresent, su_present = True, su_departed_ms = 0, su_agg = []\<rparr>
    = Some (llm_actions sample_libm sample_config (sample_env 50) [], summ_init\<lparr>su_departed_ms := 20\<rparr>)"
proof -
  have c: "te_now_ms (sample_env t) = t" "cf_cooldown_ms sample_config = 30" for t
    by (simp_all add: sample_env_def sample_config_def)
  have "list_all (waiting sample_config (te_now_ms (sample_env 20)))
      [(sample_env 30, Disconnect), (sample_env 40, Frame [sample_uav 2])]"
    by (simp add: waiting_def c sample_terminated shows_drone_def sample_is_drone)
  from cooldown_reaches_cycle[where r = Timeout and env = "sample_env 50", OF _ _ _ this] show ?thesis
    by (simp add: shows_drone_def c summ_init_def)
qed

text \<open>The times are compared as an unsigned difference: a clock that steps back ends the cooldown at
  once, unless the cooldown is longer than the wrapped difference.\<close>

lemma clock_step_back_ends_cooldown:
  assumes "su_state st = Cooldown" "\<not> su_present st" "t < su_departed_ms st"
    and "cf_cooldown_ms cf \<le> - (su_departed_ms st - t)"
  shows "su_state (fsm_switch cf t st) = LlmWindow"
  using assms by (simp add: fsm_switch_def)

section \<open>The cameras around a command\<close>

definition sends :: "string \<Rightarrow> string \<Rightarrow> action list \<Rightarrow> nat" where
  "sends d json as = count_list as (Send_control d json)"

lemma jsons: "blackout_json \<noteq> resume_json"
  by (simp add: blackout_json_def resume_json_def quoted_def)

lemma sends_simps [simp]:
  "sends d j [] = 0" "sends d j (as @ bs) = sends d j as + sends d j bs"
  "sends d j (Send_control d' j' # as) = (if d = d' \<and> j = j' then 1 else 0) + sends d j as"
  "sends d j (Run_command c # as) = sends d j as"
  by (auto simp: sends_def)

lemma sends_controls:
  "j \<noteq> j' \<Longrightarrow> sends d j' (controls cf j) = 0"
  "cf_use_control cf \<Longrightarrow> sends d j (controls cf j) = count_list (cf_device cf # cf_also_devices cf) d"
proof -
  show "j \<noteq> j' \<Longrightarrow> sends d j' (controls cf j) = 0"
    by (auto simp: sends_def controls_def count_list_0_iff)
  have "sends d j (map (\<lambda>d. Send_control d j) ds) = count_list ds d" for ds
    by (induction ds) auto
  then show "cf_use_control cf \<Longrightarrow> sends d j (controls cf j) = count_list (cf_device cf # cf_also_devices cf) d"
    by (auto simp: controls_def)
qed

definition guarded :: "config \<Rightarrow> action list \<Rightarrow> bool" where
  "guarded cf as \<longleftrightarrow>
     (\<forall>d \<in> set (cf_device cf # cf_also_devices cf). sends d blackout_json as = sends d resume_json as)
     \<and> (\<forall>p c q. as = p @ Run_command c # q \<longrightarrow>
         p \<noteq> [] \<and> last p = Rename_file (cf_out_path cf @ ''.tmp'') (cf_out_path cf)
         \<and> (cf_use_control cf \<longrightarrow>
             (\<forall>d \<in> set (cf_device cf # cf_also_devices cf). sends d resume_json p < sends d blackout_json p)))"

lemma guarded_Nil: "guarded cf []"
  by (simp add: guarded_def)

lemma append_split:
  "as @ bs = p @ x # q \<Longrightarrow> (\<exists>q'. as = p @ x # q') \<or> (\<exists>p'. p = as @ p' \<and> bs = p' @ x # q)"
  by (auto simp: append_eq_append_conv2 append_eq_Cons_conv Cons_eq_append_conv)

lemma guardedD:
  assumes "guarded cf as"
  shows "d \<in> set (cf_device cf # cf_also_devices cf) \<Longrightarrow> sends d blackout_json as = sends d resume_json as"
    and "as = p @ Run_command c # q \<Longrightarrow>
      p \<noteq> [] \<and> last p = Rename_file (cf_out_path cf @ ''.tmp'') (cf_out_path cf)"
    and "as = p @ Run_command c # q \<Longrightarrow> cf_use_control cf \<Longrightarrow> d \<in> set (cf_device cf # cf_also_devices cf) \<Longrightarrow>
      sends d resume_json p < sends d blackout_json p"
  using assms unfolding guarded_def by blast+

lemma guarded_append:
  assumes "guarded cf as" "guarded cf bs"
  shows "guarded cf (as @ bs)"
proof -
  note a = guardedD[OF assms(1)] and b = guardedD[OF assms(2)]
  have run: "p \<noteq> [] \<and> last p = Rename_file (cf_out_path cf @ ''.tmp'') (cf_out_path cf)
      \<and> (cf_use_control cf \<longrightarrow>
          (\<forall>d \<in> set (cf_device cf # cf_also_devices cf). sends d resume_json p < sends d blackout_json p))"
    if "as @ bs = p @ Run_command c # q" for p c q
    using append_split[OF that]
  proof
    assume "\<exists>q'. as = p @ Run_command c # q'"
    then show ?thesis using a(2,3) by blast
  next
    assume "\<exists>p'. p = as @ p' \<and> bs = p' @ Run_command c # q"
    then obtain p' where p: "p = as @ p'" and q: "bs = p' @ Run_command c # q" by blast
    have "sends d resume_json p < sends d blackout_json p"
      if "cf_use_control cf" "d \<in> set (cf_device cf # cf_also_devices cf)" for d
      using b(3)[OF q that] a(1)[OF that(2)] by (simp add: p)
    then show ?thesis using b(2)[OF q] by (simp add: p)
  qed
  have eq: "sends d blackout_json (as @ bs) = sends d resume_json (as @ bs)"
    if "d \<in> set (cf_device cf # cf_also_devices cf)" for d
    using a(1)[OF that] b(1)[OF that] by simp
  show ?thesis unfolding guarded_def by (intro conjI ballI allI impI eq run)
qed

lemma sends_other [simp]:
  "sends d j (Write_file f t # as) = sends d j as" "sends d j (Rename_file f g # as) = sends d j as"
  by (simp_all add: sends_def)

lemma controls_none: "Run_command c \<notin> set (controls cf j)"
  by (auto simp: controls_def)

lemma sends_controls_off: "\<not> cf_use_control cf \<Longrightarrow> sends d j' (controls cf j) = 0"
  by (simp add: controls_def)

text \<open>The actions of a cycle: without the command, or with the snapshot in place before it.\<close>

lemma llm_actions_cases:
  obtains (no) as where "llm_actions m cf env agg = controls cf blackout_json @ as @ controls cf resume_json"
      "\<forall>a \<in> set as. (\<exists>p t. a = Write_file p t) \<or> (\<exists>p q. a = Rename_file p q)"
    | (run) t where "llm_actions m cf env agg = (controls cf blackout_json @ [Write_file (cf_out_path cf @ ''.tmp'') t,
        Rename_file (cf_out_path cf @ ''.tmp'') (cf_out_path cf)])
        @ Run_command (cf_qwen_cmd cf @ '' '' @ cf_out_path cf) # controls cf resume_json"
proof -
  let ?W = "Write_file (cf_out_path cf @ ''.tmp'') (snapshot_text m (te_utc env) (cf_device cf) agg)"
  let ?N = "Rename_file (cf_out_path cf @ ''.tmp'') (cf_out_path cf)"
  show thesis
    using no[of "[]"] no[of "[?W]"] no[of "[?W, ?N]"] run
    by (cases "te_fopen env"; cases "te_rename env"; cases "cf_qwen_cmd cf = []")
      (simp_all add: llm_actions_def write_snapshot_def Let_def)
qed

lemma unique_split:
  assumes "xs @ y # ys = p @ z # q" "P z" "\<forall>x \<in> set xs \<union> set ys. \<not> P x"
  shows "p = xs" "z = y"
proof -
  have "z \<in> set (xs @ y # ys)" unfolding assms(1) by simp
  then show "z = y" using assms(2,3) by auto
  have "y \<notin> set xs" "y \<notin> set ys" using assms(2,3) \<open>z = y\<close> by auto
  then show "p = xs" using assms(1) unfolding \<open>z = y\<close> by (metis append_Cons_eq_iff)
qed

lemma guarded_llm: "guarded cf (llm_actions m cf env agg)"
proof -
  let ?B = "controls cf blackout_json" and ?R = "controls cf resume_json"
  have eq: "sends d blackout_json ?B = sends d resume_json ?R" for d
    by (cases "cf_use_control cf") (simp_all add: sends_controls(2) sends_controls_off)
  have z: "sends d resume_json ?B = 0" "sends d blackout_json ?R = 0" for d
    using sends_controls(1) jsons by metis+
  show ?thesis
  proof (cases rule: llm_actions_cases[of m cf env agg])
    case (no as)
    have "Run_command c \<notin> set (?B @ as @ ?R)" for c using no(2) controls_none by auto
    then have "\<not> (\<exists>p c q. ?B @ as @ ?R = p @ Run_command c # q)" by (metis in_set_conv_decomp)
    moreover have "sends d j as = 0" for d j
      using no(2) by (induction as) (auto simp: sends_other)
    ultimately show ?thesis using eq z unfolding no(1) guarded_def by simp
  next
    case (run t)
    let ?W = "?B @ [Write_file (cf_out_path cf @ ''.tmp'') t, Rename_file (cf_out_path cf @ ''.tmp'') (cf_out_path cf)]"
    have pe: "p = ?W" if "llm_actions m cf env agg = p @ Run_command c # q" for p c q
      by (rule unique_split(1)[OF that[unfolded run], of "\<lambda>a. \<exists>c. a = Run_command c"]) (use controls_none in auto)
    have lt: "sends d resume_json ?W < sends d blackout_json ?W"
      if "cf_use_control cf" "d \<in> set (cf_device cf # cf_also_devices cf)" for d
    proof -
      have "count_list (cf_device cf # cf_also_devices cf) d \<noteq> 0"
        using that(2) unfolding count_list_0_iff by blast
      then show ?thesis using z by (simp add: sends_controls(2)[OF that(1)])
    qed
    have e: "sends d blackout_json (llm_actions m cf env agg) = sends d resume_json (llm_actions m cf env agg)" for d
      using eq z by (simp add: run)
    show ?thesis unfolding guarded_def
    proof (intro conjI allI impI ballI, goal_cases)
      case (1 d)
      show ?case by (rule e)
    next
      case (2 p c q)
      then show ?case unfolding pe[OF 2] by simp
    next
      case (3 p c q)
      then show ?case unfolding pe[OF 3] by simp
    next
      case (4 p c q d)
      then show ?case unfolding pe[OF 4(1)] by (intro lt)
    qed
  qed
qed

lemma guarded_turn: "summ_turn m cf env r st = Some (as, st') \<Longrightarrow> guarded cf as"
  using guarded_llm by (auto simp: summ_turn_def fsm_tick_def Let_def guarded_Nil split: recv_result.splits if_splits)

lemma guarded_run: "summ_run m cf xs st = Some (as, st') \<Longrightarrow> guarded cf as"
proof (induction xs arbitrary: st as)
  case Nil
  then show ?case by (auto simp: guarded_Nil)
next
  case (Cons x xs)
  obtain env r where x: "x = (env, r)" by (cases x)
  then obtain as1 st1 as2 where "summ_turn m cf env r st = Some (as1, st1)" "summ_run m cf xs st1 = Some (as2, st')"
      "as = as1 @ as2"
    using Cons.prems by (auto split: Option.bind_splits)
  then show ?case using guarded_turn Cons.IH guarded_append by metis
qed



section \<open>Receiving\<close>

lemma recv_prefix:
  assumes "4 \<le> length (avail s)"
  obtains bs s1 cs s2 where "sys_read 4 s = (Bytes bs, s1)"
    "(if length bs \<noteq> 4 then readExact (4 - length bs) s1 else (Some [], s1)) = (Some cs, s2)"
    "bs @ cs = take 4 (avail s)" "avail s2 = drop 4 (avail s)"
proof -
  have "avail s \<noteq> []" using assms by auto
  then obtain bs s1 where r: "sys_read 4 s = (Bytes bs, s1)" "bs \<noteq> []" "length bs \<le> 4" "avail s = bs @ avail s1"
    using sys_read_avail[of 4 s] by auto
  have n: "4 - length bs \<le> length (avail s1)" using assms r(4) by simp
  obtain s2 where s2: "readExact (4 - length bs) s1 = (Some (take (4 - length bs) (avail s1)), s2)"
      "avail s2 = drop (4 - length bs) (avail s1)"
    by (rule readExact_Some[OF n])
  have tk: "take 4 (avail s) = bs @ take (4 - length bs) (avail s1)" "drop 4 (avail s) = drop (4 - length bs) (avail s1)"
    using r(3) by (simp_all add: r(4))
  have "(if length bs \<noteq> 4 then readExact (4 - length bs) s1 else (Some [], s1))
      = (Some (take (4 - length bs) (avail s1)), s2)"
    using s2(1) by (auto simp: readExact.simps[of 0])
  then show thesis using that[OF r(1)] tk s2(2) by metis
qed

lemma recv_frame_frame:
  assumes h: "wf_header h" "unat (wh_count h) = length ss" "\<forall>s\<in>set ss. wf_summary s"
    and av: "avail s = frame_bytes enc_summary sizeof_WireTrackSummary h ss @ rest"
  obtains s' where "recv_frame s = (Frame ss, s')" "avail s' = rest"
proof -
  have "unat (wh_count h) < 2 ^ LENGTH(16)" by (rule unsigned_less)
  then have n: "length ss < 2 ^ 16" using h(2) by simp
  have hl: "length (enc_header h) = sizeof_WireFrameHeader" using h(1) by (rule hdr.length_enc_rec)
  have le: "4 \<le> length (avail s)" by (simp add: av frame_bytes_def)
  obtain bs s1 cs s2 where r: "sys_read 4 s = (Bytes bs, s1)"
      "(if length bs \<noteq> 4 then readExact (4 - length bs) s1 else (Some [], s1)) = (Some cs, s2)"
      "bs @ cs = take 4 (avail s)" "avail s2 = drop 4 (avail s)"
    by (rule recv_prefix[OF le])
  have b: "bs @ cs = enc_u32 (body_size sizeof_WireTrackSummary (length ss))"
      "avail s2 = enc_header h @ concat (map enc_summary ss) @ rest"
    using r(3,4) by (simp_all add: av frame_bytes_def)
  obtain s3 where r3: "readExact sizeof_WireFrameHeader s2 = (Some (enc_header h), s3)"
    and a3: "avail s3 = concat (map enc_summary ss) @ rest"
    by (rule readExact_Some[of sizeof_WireFrameHeader s2]) (auto simp: b(2) hl)
  obtain s4 where r4: "read_records dec_summary sizeof_WireTrackSummary (length ss) s3 = (ss, s4)"
    and a4: "avail s4 = rest"
    using summ.read_records_all[OF h(3) a3] by blast
  have "sizeof_WireTrackSummary \<le> 200" by (simp add: sizeof_WireTrackSummary_def)
  note bs = unat_body_size[OF this n]
  have "recv_frame s = (Frame ss, s4)"
    using bs(1) by (simp add: recv_frame_def r(1,2) b(1) Let_def codec_simps r3 hdr.dec_enc_rec[OF h(1)] h(2) r4)
  then show thesis using that a4 by blast
qed

definition frames_ok :: "(wire_frame_header \<times> wire_summary list) list \<Rightarrow> bool" where
  "frames_ok os \<longleftrightarrow> list_all (\<lambda>(h, ss). wf_header h \<and> unat (wh_count h) = length ss \<and> list_all wf_summary ss) os"

lemma received_frames:
  "frames_ok os \<Longrightarrow> avail s = stream_of enc_summary sizeof_WireTrackSummary os \<Longrightarrow> length envs = length os \<Longrightarrow>
   received envs s = zip envs (map (\<lambda>(h, ss). Frame ss) os)"
proof (induction os arbitrary: s envs)
  case (Cons o1 os)
  obtain h ss where o1: "o1 = (h, ss)" by (cases o1)
  obtain env envs' where e: "envs = env # envs'" "length envs' = length os" using Cons.prems(3) by (cases envs) auto
  have wf: "wf_header h" "unat (wh_count h) = length ss" "\<forall>s\<in>set ss. wf_summary s" "frames_ok os"
    using Cons.prems(1) by (simp_all add: frames_ok_def o1 list_all_iff)
  have av: "avail s = frame_bytes enc_summary sizeof_WireTrackSummary h ss @ stream_of enc_summary sizeof_WireTrackSummary os"
    using Cons.prems(2) by (simp add: o1)
  obtain s' where "recv_frame s = (Frame ss, s')" "avail s' = stream_of enc_summary sizeof_WireTrackSummary os"
    by (rule recv_frame_frame[OF wf(1-3) av])
  then show ?case using Cons.IH[OF wf(4) _ e(2)] by (simp add: e(1) o1)
qed simp

text \<open>On the events connection, in whatever chunks the stream arrives, the summarizer runs its state
  machine on exactly the frames that were sent, one turn each, in order.\<close>

theorem events_reach_state_machine:
  assumes "frames_ok os" "avail s = stream_of enc_summary sizeof_WireTrackSummary os" "length envs = length os"
  shows "summ_connection m cf envs s st = summ_run m cf (zip envs (map (\<lambda>(h, ss). Frame ss) os)) st"
  unfolding summ_connection_run received_frames[OF assms] ..

definition sample_events :: "(wire_frame_header \<times> wire_summary list) list" where
  "sample_events = [(\<lparr>wh_frame_id = 7, wh_timestamp_us = 9, wh_count = 1, wh_reserved = replicate 6 0\<rparr>, [sample_uav 1])]"

lemma sample_frames_ok: "frames_ok sample_events"
  by (simp add: frames_ok_def sample_events_def wf_header_def wf_summary_def sample_uav_def)

lemma events_reach_state_machine_witness:
  "summ_connection sample_libm sample_config [sample_env 1]
      [Data (take 2 (stream_of enc_summary sizeof_WireTrackSummary sample_events)),
       Data (drop 2 (stream_of enc_summary sizeof_WireTrackSummary sample_events))] summ_init
    = Some ([], \<lparr>su_state = DronePresent, su_present = True, su_departed_ms = 0, su_agg = []\<rparr>)"
proof -
  let ?b = "stream_of enc_summary sizeof_WireTrackSummary sample_events"
  have "4 \<le> length ?b" by (simp add: sample_events_def frame_bytes_def)
  then have "take 2 ?b \<noteq> []" "drop 2 ?b \<noteq> []" by auto
  then have "avail [Data (take 2 ?b), Data (drop 2 ?b)] = ?b" by (simp add: avail_Data)
  from events_reach_state_machine[OF sample_frames_ok this, of "[sample_env 1]"] show ?thesis
    by (simp add: sample_events_def sample_turns)
qed

lemma read_records_full:
  "read_records dec sz n s = (rs, s') \<Longrightarrow> \<not> length rs < n \<Longrightarrow> n * sz \<le> length (avail s)"
proof (induction n arbitrary: s rs)
  case (Suc n)
  obtain b s1 where b: "readExact sz s = (b, s1)" by (cases "readExact sz s")
  with Suc.prems obtain bs where bs: "b = Some bs" by (cases b) auto
  obtain rs1 where r: "read_records dec sz n s1 = (rs1, s')" "rs = dec bs # rs1"
    using Suc.prems(1) b bs by (auto split: prod.splits)
  then show ?case using Suc.IH[OF r(1)] Suc.prems(2) readExact_SomeD[of sz s bs s1] b bs by simp
qed simp

lemma recv_short_prefix:
  assumes "length (avail s) < 4" "avail s \<noteq> []"
  shows "\<exists>s'. recv_frame s = (Disconnect, s')"
proof -
  obtain bs s1 where r: "sys_read 4 s = (Bytes bs, s1)" "avail s = bs @ avail s1"
    using sys_read_avail[of 4 s] assms(2) by auto
  have l: "length bs \<noteq> 4" "length (avail s1) < 4 - length bs" using assms(1) unfolding r(2) by simp_all
  obtain s2 where "readExact (4 - length bs) s1 = (None, s2)" by (rule readExact_None[OF l(2)])
  then show ?thesis using r(1) l(1) by (simp add: recv_frame_def)
qed

lemma recv_short_body:
  assumes h: "wf_header h" "unat (wh_count h) = n"
    and av: "4 \<le> length (avail s)" "drop 4 (avail s) @ rest = enc_header h @ body"
    and short: "length (avail s) < 4 + sizeof_WireFrameHeader + sizeof_WireTrackSummary * n"
  shows "\<exists>s'. recv_frame s = (Disconnect, s')"
proof -
  have hl: "length (enc_header h) = sizeof_WireFrameHeader" using h(1) by (rule hdr.length_enc_rec)
  obtain bs s1 cs s2 where r: "sys_read 4 s = (Bytes bs, s1)"
      "(if length bs \<noteq> 4 then readExact (4 - length bs) s1 else (Some [], s1)) = (Some cs, s2)"
      "avail s2 = drop 4 (avail s)"
    using recv_prefix[OF av(1)] by metis
  show ?thesis
  proof (cases "length (avail s2) < sizeof_WireFrameHeader")
    case True
    obtain s3 where "readExact sizeof_WireFrameHeader s2 = (None, s3)" by (rule readExact_None[OF True])
    then show ?thesis using r(1,2) by (simp add: recv_frame_def Let_def)
  next
    case False
    then obtain s3 where r3: "readExact sizeof_WireFrameHeader s2 = (Some (take sizeof_WireFrameHeader (avail s2)), s3)"
        "avail s3 = drop sizeof_WireFrameHeader (avail s2)"
      using readExact_Some[of sizeof_WireFrameHeader s2] by (metis not_less)
    have hb: "take sizeof_WireFrameHeader (avail s2) = enc_header h"
      using arg_cong[OF av(2), of "take sizeof_WireFrameHeader"] False hl by (simp add: r(3))
    have a3: "length (avail s3) < n * sizeof_WireTrackSummary"
      using short False av(1) by (simp add: r3(2) r(3) mult.commute)
    obtain rs s4 where r4: "read_records dec_summary sizeof_WireTrackSummary n s3 = (rs, s4)"
      by (cases "read_records dec_summary sizeof_WireTrackSummary n s3")
    have "length rs < n" using read_records_full[OF r4] a3 by linarith
    then show ?thesis using r(1,2) r3(1) r4
      by (simp add: recv_frame_def Let_def hb hdr.dec_enc_rec[OF h(1)] h(2))
  qed
qed

lemma recv_frame_short:
  assumes h: "wf_header h" "unat (wh_count h) = length ss" "\<forall>s\<in>set ss. wf_summary s"
    and part: "part @ rest = frame_bytes enc_summary sizeof_WireTrackSummary h ss" "part \<noteq> []" "rest \<noteq> []"
    and av: "avail s = part"
  shows "\<exists>s'. recv_frame s = (Disconnect, s')"
proof -
  let ?L = "enc_u32 (body_size sizeof_WireTrackSummary (length ss))" and ?R = "concat (map enc_summary ss)"
  have p: "avail s @ rest = ?L @ enc_header h @ ?R" using part(1) by (simp add: frame_bytes_def av)
  have "length ?R = sizeof_WireTrackSummary * length ss"
    using h(3) by (intro length_concat_const) (auto simp: summ.length_enc_rec)
  then have "length (avail s) + length rest = 4 + sizeof_WireFrameHeader + sizeof_WireTrackSummary * length ss"
    using arg_cong[OF p, of length] by (simp add: hdr.length_enc_rec[OF h(1)])
  moreover have "0 < length rest" using part(3) by simp
  ultimately have len: "length (avail s) < 4 + sizeof_WireFrameHeader + sizeof_WireTrackSummary * length ss"
    by linarith
  show ?thesis
  proof (cases "4 \<le> length (avail s)")
    case True
    have "drop 4 (avail s) @ rest = enc_header h @ ?R" using arg_cong[OF p, of "drop 4"] True by simp
    then show ?thesis by (rule recv_short_body[OF h(1,2) True _ len])
  qed (use recv_short_prefix[of s] part(2) av in auto)
qed

text \<open>A stream that stops inside a frame, for longer than the receive timeout or for good, loses the
  connection although the comment in the code says the rest is awaited: the turn ends it without
  an action, and the state machine keeps its state for the next connection.\<close>

theorem stalled_frame_disconnects:
  assumes "wf_header h" "unat (wh_count h) = length ss" "\<forall>s\<in>set ss. wf_summary s"
    and "part @ rest = frame_bytes enc_summary sizeof_WireTrackSummary h ss" "part \<noteq> []" "rest \<noteq> []"
    and "avail s = part"
  shows "fst (recv_frame s) = Disconnect \<and> summ_connection m cf (env # envs) s st = Some ([], st)"
  using recv_frame_short[OF assms] by (auto simp: summ_turn_def)

lemma stalled_frame_disconnects_witness:
  "summ_connection sample_libm sample_config [sample_env 1, sample_env 2]
      [Data (take 9 (stream_of enc_summary sizeof_WireTrackSummary sample_events)), Again,
       Data (drop 9 (stream_of enc_summary sizeof_WireTrackSummary sample_events))] summ_init
    = Some ([], summ_init)"
proof -
  let ?b = "stream_of enc_summary sizeof_WireTrackSummary sample_events"
  have "10 \<le> length ?b"
    by (simp add: sample_events_def frame_bytes_def enc_header_def)
  then have ne: "take 9 ?b \<noteq> []" "drop 9 ?b \<noteq> []" by auto
  obtain h ss where s: "sample_events = [(h, ss)]" by (simp add: sample_events_def)
  have wf: "wf_header h" "unat (wh_count h) = length ss" "\<forall>s\<in>set ss. wf_summary s"
    using sample_frames_ok by (simp_all add: s frames_ok_def list_all_iff)
  have "take 9 ?b @ drop 9 ?b = frame_bytes enc_summary sizeof_WireTrackSummary h ss" by (simp add: s)
  moreover have "avail [Data (take 9 ?b), Again, Data (drop 9 ?b)] = take 9 ?b" using ne(1) by (simp add: avail_Data)
  ultimately show ?thesis
    using stalled_frame_disconnects[OF wf _ ne, of "[Data (take 9 ?b), Again, Data (drop 9 ?b)]"] by blast
qed

section \<open>The commands\<close>

lemma json_build: "blackout_json = buildCommand ''blackout'' None" "resume_json = buildCommand ''resume'' None"
  by (simp_all add: blackout_json_def resume_json_def buildCommand_def quoted_def)



end
