(* ===== verification/System_Chain.thy ===== *)
theory System_Chain
  imports Bytetrack_Service Summarizer_Fsm
begin

text \<open>
  The three consumers behind the detector composed: tracker service, temporal service and event
  summarizer. The link is a coupling of the tracker with the track manager that keeps the class of
  a track the class of its detections, and a bound on the live tracks, so that the count of an
  events frame never wraps; then the state machine of the summarizer is the run of an abstract
  machine over the frames in which the detector reported the drone.
\<close>

section \<open>The tracker and the track manager\<close>

text \<open>The class as it travels: 15 characters of it.\<close>

abbreviation class15 :: "string \<Rightarrow> string" where
  "class15 s \<equiv> take 15 (cstr s)"

text \<open>An id the manager knows has been issued by the tracker; the track it names there, if it is still
  live, has the same class.\<close>

definition coupled :: "iou_tracker \<Rightarrow> track_manager \<Rightarrow> bool" where
  "coupled s m \<longleftrightarrow> (\<forall>i st. map_of (tm_tracks m) i = Some st \<longrightarrow> i < next_id s
     \<and> (\<forall>tr \<in> set (tracks s). tr_id tr = i \<longrightarrow> cstr (ts_class_name st) = class15 (td_class_name (tr_det tr))))"

lemma class_strncpy: "cstr (strncpy s 15 @ [NUL]) = class15 s"
proof -
  have "cstr (t @ [NUL]) = cstr t" for t :: string by (induction t) (simp_all add: cstr_def)
  then show ?thesis by (simp add: cstr_strncpy)
qed

lemma class15_class15: "class15 (strncpy s 15 @ [NUL]) = class15 s"
  by (simp add: class_strncpy)

lemma class15_strneq: "strneq a b 16 \<Longrightarrow> class15 a = class15 b"
proof -
  assume "strneq a b 16"
  then have "take 15 (take 16 (cstr a)) = take 15 (take 16 (cstr b))" by (simp only: strneq_def)
  then show ?thesis by (simp add: take_take)
qed

lemma ts_update_class: "ts_update obs r s = Some s' \<Longrightarrow> ts_class_name s' = ts_class_name s"
  by (auto simp: ts_update_def ts_velocity_def ts_bookkeeping_def ts_loiter_def ts_append_def
      ts_acceleration_def ts_roi_def Let_def split: if_splits Option.bind_splits prod.splits)

lemma ts_update_last: "ts_update obs r s = Some s' \<Longrightarrow> ts_last s' = obs"
  by (auto simp: ts_update_def ts_velocity_def ts_bookkeeping_def ts_loiter_def ts_append_def
      ts_acceleration_def ts_roi_def Let_def split: if_splits Option.bind_splits prod.splits)

text \<open>Where the class and the box of a state of the manager come from.\<close>

definition box_of_obs :: "observation \<Rightarrow> i32 \<times> i32 \<times> i32 \<times> i32" where
  "box_of_obs ob = (ob_left ob, ob_top ob, ob_right ob, ob_bottom ob)"

definition box_of_det :: "tracker_detection \<Rightarrow> i32 \<times> i32 \<times> i32 \<times> i32" where
  "box_of_det d = (td_left d, td_top d, td_right d, td_bottom d)"

lemma obs_of_box: "obs_of rec t = Some ob \<Longrightarrow> box_of_obs ob = (wt_left rec, wt_top rec, wt_right rec, wt_bottom rec)"
  by (auto simp: obs_of_def box_of_obs_def split: Option.bind_splits)

lemma frame_spec_source:
  assumes "frame_spec r recs t M i = Some st"
  shows "(\<exists>rec \<in> set recs. wt_track_id rec = i \<and> i \<noteq> 0
      \<and> cstr (ts_class_name st) = (case M i of Some s \<Rightarrow> cstr (ts_class_name s) | None \<Rightarrow> class15 (wt_class_name rec))
      \<and> box_of_obs (ts_last st) = (wt_left rec, wt_top rec, wt_right rec, wt_bottom rec))
    \<or> i \<notin> wt_track_id ` set recs - {0} \<and> (\<exists>s. M i = Some s \<and> ts_class_name st = ts_class_name s)"
proof (cases "reported recs i")
  case None
  then have "i \<notin> wt_track_id ` set recs - {0}" using reported_None_iff[of i recs] by auto
  moreover have "\<exists>s. M i = Some s \<and> ts_class_name st = ts_class_name s"
    using assms None
    by (auto simp: frame_spec_def reported_def mark_missed_def split: option.splits if_splits)
  ultimately show ?thesis by blast
next
  case (Some rec)
  then have rec: "rec \<in> set recs" "wt_track_id rec = i" "i \<noteq> 0" by (auto simp: reported_def find_Some_iff)
  obtain ob where ob: "obs_of rec t = Some ob"
      "ts_update ob r (case M i of Some s \<Rightarrow> s | None \<Rightarrow> ts_new i (wt_class_name rec) t) = Some st"
    using assms Some by (auto simp: frame_spec_def reported_def split: Option.bind_splits)
  have "cstr (ts_class_name st) = (case M i of Some s \<Rightarrow> cstr (ts_class_name s) | None \<Rightarrow> class15 (wt_class_name rec))"
    using ts_update_class[OF ob(2)] by (simp add: ts_new_def class_strncpy split: option.splits)
  then show ?thesis using rec obs_of_box[OF ob(1)] ts_update_last[OF ob(2)] by blast
qed

text \<open>One frame through both: the coupling is kept, and the state of every reported id has the class
  and the box of the detection reported under it.\<close>

lemma outs_ids:
  assumes "update_post dets s outs s'" "x \<in> set outs"
  shows "to_track_id x \<noteq> 0" "to_track_id x < next_id s'"
proof -
  obtain tr where "tr \<in> set (tracks s')" "tr_id tr = to_track_id x"
    using assms unfolding update_post_def by blast
  moreover have "tracker_inv s'" using assms(1) by (simp add: update_post_def)
  ultimately have "0 < to_track_id x \<and> to_track_id x < next_id s'" by (auto simp: tracker_inv_def)
  then show "to_track_id x \<noteq> 0" "to_track_id x < next_id s'" by (simp_all add: word_gt_0)
qed

lemma wire_outs_ids:
  assumes "update_post dets s outs s'"
  shows "wt_track_id ` set (map wire_of_output outs) - {0} = to_track_id ` set outs"
  using outs_ids(1)[OF assms] by (auto simp: wire_of_output_def image_image)

lemma reported_state:
  assumes post: "update_post dets s outs s'" and inv: "coupled s m"
    and spec: "map_of (tm_tracks m') = frame_spec (tm_roi m) (map wire_of_output outs) t (map_of (tm_tracks m))"
    and x: "x \<in> set outs" and st: "map_of (tm_tracks m') (to_track_id x) = Some st"
  shows "cstr (ts_class_name st) = class15 (td_class_name (to_det x)) \<and> box_of_obs (ts_last st) = box_of_det (to_det x)"
proof -
  note P = post[unfolded update_post_def]
  have "to_track_id x \<in> wt_track_id ` set (map wire_of_output outs) - {0}" using x wire_outs_ids[OF post] by auto
  then obtain rec where rec: "rec \<in> set (map wire_of_output outs)" "wt_track_id rec = to_track_id x"
    and c: "cstr (ts_class_name st) = (case map_of (tm_tracks m) (to_track_id x) of
        Some s \<Rightarrow> cstr (ts_class_name s) | None \<Rightarrow> class15 (wt_class_name rec))"
      "box_of_obs (ts_last st) = (wt_left rec, wt_top rec, wt_right rec, wt_bottom rec)"
    using frame_spec_source[of "tm_roi m" "map wire_of_output outs" t "map_of (tm_tracks m)" "to_track_id x" st]
      st spec by auto
  obtain y where y: "y \<in> set outs" "rec = wire_of_output y" using rec(1) by auto
  then have "y = x"
    using rec(2) x P by (auto simp: wire_of_output_def dest: inj_onD simp: distinct_map)
  then have box: "box_of_obs (ts_last st) = box_of_det (to_det x)"
    and new: "class15 (wt_class_name rec) = class15 (td_class_name (to_det x))"
    using c(2) y(2) by (simp_all add: wire_of_output_def box_of_det_def class_strncpy)
  show ?thesis
  proof (cases "map_of (tm_tracks m) (to_track_id x)")
    case None
    then show ?thesis using c new box by simp
  next
    case (Some s0)
    then have "to_track_id x < next_id s" using inv by (simp add: coupled_def)
    then obtain tr where tr: "tr \<in> set (tracks s)" "continues tr x"
      using P x by (auto simp: not_le[symmetric])
    then have "cstr (ts_class_name s0) = class15 (td_class_name (tr_det tr))"
      using inv Some by (auto simp: coupled_def continues_def)
    moreover have "class15 (td_class_name (to_det x)) = class15 (td_class_name (tr_det tr))"
      using tr(2) by (intro class15_strneq) (simp add: continues_def)
    ultimately show ?thesis using c Some box by simp
  qed
qed

lemma coupled_step:
  assumes post: "update_post dets s outs s'" and inv: "coupled s m"
    and spec: "map_of (tm_tracks m') = frame_spec (tm_roi m) (map wire_of_output outs) t (map_of (tm_tracks m))"
  shows "coupled s' m'"
  unfolding coupled_def
proof (intro allI impI, goal_cases)
  case (1 i st)
  note P = post[unfolded update_post_def]
  note src = frame_spec_source[OF 1[unfolded spec], unfolded wire_outs_ids[OF post]]
  have old: "\<exists>s0. map_of (tm_tracks m) i = Some s0 \<and> ts_class_name st = ts_class_name s0"
    if "i \<notin> to_track_id ` set outs"
    using that src wire_outs_ids[OF post] by (auto simp del: set_map)
  have mono: "next_id s \<le> next_id s'" using P by (auto simp: word_le_nat_alt)
  have "i < next_id s'"
  proof (cases "i \<in> to_track_id ` set outs")
    case True
    then show ?thesis using outs_ids(2)[OF post] by blast
  next
    case False
    then show ?thesis using old inv mono by (auto simp: coupled_def intro: order_less_le_trans)
  qed
  moreover have "cstr (ts_class_name st) = class15 (td_class_name (tr_det tr))"
    if tr: "tr \<in> set (tracks s')" "tr_id tr = i" for tr
  proof -
    consider x where "x \<in> set outs" "to_track_id x = i" "to_det x = tr_det tr"
      | old where "old \<in> set (tracks s)" "tr = aged old" "i \<notin> to_track_id ` set outs"
      using P tr by (auto simp: aged_def)
    then show ?thesis
    proof cases
      case (1 x)
      then show ?thesis using reported_state[OF post inv spec 1(1), of st] \<open>map_of (tm_tracks m') i = Some st\<close> by simp
    next
      case (2 tr0)
      then obtain s0 where "map_of (tm_tracks m) i = Some s0" "ts_class_name st = ts_class_name s0" using old by blast
      then show ?thesis using inv 2 tr(2) by (auto simp: coupled_def aged_def)
    qed
  qed
  ultimately show ?case by blast
qed

section \<open>The number of live tracks\<close>

text \<open>At most 64 tracks were seen last in any one of the last 31 frames.\<close>

definition missed_at :: "track_manager \<Rightarrow> nat \<Rightarrow> u32 set" where
  "missed_at m j = {i. \<exists>s. map_of (tm_tracks m) i = Some s \<and> unat (ts_frames_missed s) = j}"

definition few :: "track_manager \<Rightarrow> bool" where
  "few m \<longleftrightarrow> (\<forall>j \<le> 30. card (missed_at m j) \<le> kMaxDetections)"

lemma finite_missed_at: "finite (missed_at m j)"
  by (rule finite_subset[OF _ finite_dom_map_of[of "tm_tracks m"]]) (auto simp: missed_at_def)

lemma few_step:
  assumes inv: "tm_inv m" "few m" and n: "length recs \<le> kMaxDetections"
    and spec: "map_of (tm_tracks m') = frame_spec (tm_roi m) recs t (map_of (tm_tracks m))"
    and miss: "\<forall>i s. map_of (tm_tracks m') i = Some s \<longrightarrow> (ts_frames_missed s = 0 \<longleftrightarrow> reported recs i \<noteq> None)"
  shows "few m'"
  unfolding few_def
proof (intro allI impI)
  fix j :: nat
  assume j: "j \<le> 30"
  show "card (missed_at m' j) \<le> kMaxDetections"
  proof (cases j)
    case 0
    have "missed_at m' j \<subseteq> wt_track_id ` set recs"
      using miss by (auto simp: missed_at_def 0 unat_eq_zero reported_def find_Some_iff)
    then have "card (missed_at m' j) \<le> card (wt_track_id ` set recs)" by (intro card_mono) simp_all
    also have "\<dots> \<le> length recs" by (meson card_image_le card_length finite_set order_trans)
    finally show ?thesis using n by simp
  next
    case (Suc k)
    have "missed_at m' j \<subseteq> missed_at m k"
    proof
      fix i assume "i \<in> missed_at m' j"
      then obtain st where st: "map_of (tm_tracks m') i = Some st" "unat (ts_frames_missed st) = Suc k"
        by (auto simp: missed_at_def Suc)
      then have "ts_frames_missed st \<noteq> 0" by auto
      then have none: "reported recs i = None" using miss st(1) by auto
      obtain s where s: "map_of (tm_tracks m) i = Some s" "st = mark_missed s"
        using st(1) none unfolding spec
        by (auto simp: frame_spec_def reported_def split: option.splits if_splits)
      have "ts_frames_missed s \<le> 30" using s(1) inv(1) by (auto simp: tm_inv_def dest!: map_of_SomeD)
      from u32_inc_le[OF this] have "unat (ts_frames_missed s) = k"
        using s(2) st(2) by (simp add: mark_missed_def)
      then show "i \<in> missed_at m k" using s(1) by (auto simp: missed_at_def)
    qed
    then have "card (missed_at m' j) \<le> card (missed_at m k)" by (intro card_mono finite_missed_at)
    also have "\<dots> \<le> kMaxDetections" using inv(2) j Suc by (simp add: few_def)
    finally show ?thesis .
  qed
qed

lemma few_length:
  assumes inv: "tm_inv m" "few m"
  shows "length (tm_tracks m) \<le> 31 * kMaxDetections"
proof -
  have "set (map fst (tm_tracks m)) \<subseteq> (\<Union>j\<le>30. missed_at m j)"
  proof
    fix i assume "i \<in> set (map fst (tm_tracks m))"
    then obtain s where s: "(i, s) \<in> set (tm_tracks m)" by auto
    then have "map_of (tm_tracks m) i = Some s" "ts_frames_missed s \<le> 30"
      using inv(1) by (auto simp: tm_inv_def)
    moreover from this(2) have "unat (ts_frames_missed s) \<le> 30" by (simp add: word_le_nat_alt)
    ultimately show "i \<in> (\<Union>j\<le>30. missed_at m j)" by (auto simp: missed_at_def)
  qed
  then have "card (set (map fst (tm_tracks m))) \<le> card (\<Union>j\<le>30. missed_at m j)"
    by (intro card_mono) (simp_all add: finite_missed_at)
  also have "\<dots> \<le> (\<Sum>j\<le>30. card (missed_at m j))" by (rule card_UN_le) simp
  also have "\<dots> \<le> (\<Sum>j\<le>(30::nat). kMaxDetections)" using inv(2) by (intro sum_mono) (simp add: few_def)
  finally have "card (set (map fst (tm_tracks m))) \<le> 31 * kMaxDetections" by simp
  moreover have "card (set (map fst (tm_tracks m))) = length (map fst (tm_tracks m))"
    using inv(1) by (intro distinct_card) (simp add: tm_inv_def)
  ultimately show ?thesis by simp
qed

section \<open>A frame through both services\<close>

text \<open>A frame as the detector sends it, its corners image coordinates.\<close>

definition coords_ok :: "wire_detection \<Rightarrow> bool" where
  "coords_ok d \<longleftrightarrow> (\<forall>v \<in> {wd_left d, wd_top d, wd_right d, wd_bottom d}. \<bar>sint v\<bar> < 2 ^ 30)"

definition detector_frame :: "wire_frame_header \<times> wire_detection list \<Rightarrow> bool" where
  "detector_frame f \<longleftrightarrow> frame_ok f \<and> length (snd f) \<le> kMaxDetections \<and> list_all coords_ok (snd f)"

text \<open>What an events frame shows: the class and box of every track not lost, against the detections.\<close>

definition det_view :: "wire_detection \<Rightarrow> string \<times> i32 \<times> i32 \<times> i32 \<times> i32" where
  "det_view d = (class15 (wd_class_name d), wd_left d, wd_top d, wd_right d, wd_bottom d)"

definition summ_view :: "wire_summary \<Rightarrow> string \<times> i32 \<times> i32 \<times> i32 \<times> i32" where
  "summ_view s = (cstr (ws_class_name s), ws_left s, ws_top s, ws_right s, ws_bottom s)"

definition shows_frame ::
  "wire_frame_header \<times> wire_detection list \<Rightarrow> wire_frame_header \<times> wire_summary list \<Rightarrow> bool" where
  "shows_frame f g \<longleftrightarrow> wh_frame_id (fst g) = wh_frame_id (fst f) \<and> wh_timestamp_us (fst g) = wh_timestamp_us (fst f)
     \<and> image_mset summ_view (mset (filter (\<lambda>s. ws_status s \<noteq> 2) (snd g))) = image_mset det_view (mset (snd f))"

lemma image_mset_by_key:
  assumes d: "distinct (map k xs)" "distinct (map l ys)" and ks: "k ` set xs = l ` set ys"
    and eq: "\<And>x y. x \<in> set xs \<Longrightarrow> y \<in> set ys \<Longrightarrow> k x = l y \<Longrightarrow> g x = h y"
  shows "image_mset g (mset xs) = image_mset h (mset ys)"
proof -
  let ?F = "\<lambda>i. the (map_of (map (\<lambda>y. (l y, h y)) ys) i)"
  have F: "?F (l y) = h y" if "y \<in> set ys" for y
  proof -
    have "map_of (map (\<lambda>y. (l y, h y)) ys) (l y) = Some (h y)"
      using that d(2) by (intro map_of_is_SomeI) (auto simp: comp_def)
    then show ?thesis by simp
  qed
  have G: "?F (k x) = g x" if x: "x \<in> set xs" for x
  proof -
    obtain y where "y \<in> set ys" "k x = l y" using x ks by blast
    then show ?thesis using F eq[OF x] by simp
  qed
  have "mset (map k xs) = mset (map l ys)" 
    by (rule iffD1[OF set_eq_iff_mset_eq_distinct[OF d]]) (simp add: ks)
  then have "image_mset ?F (image_mset k (mset xs)) = image_mset ?F (image_mset l (mset ys))" by simp
  then have "image_mset (\<lambda>x. ?F (k x)) (mset xs) = image_mset (\<lambda>y. ?F (l y)) (mset ys)"
    by (simp add: multiset.map_comp comp_def)
  moreover have "image_mset (\<lambda>x. ?F (k x)) (mset xs) = image_mset g (mset xs)"
    using G by (intro image_mset_cong) auto
  moreover have "image_mset (\<lambda>y. ?F (l y)) (mset ys) = image_mset h (mset ys)"
    using F by (intro image_mset_cong) auto
  ultimately show ?thesis by simp
qed

definition chain_inv :: "nat \<Rightarrow> iou_tracker \<Rightarrow> track_manager \<Rightarrow> bool" where
  "chain_inv n s m \<longleftrightarrow> tracker_inv s \<and> boxes_ok (tracks s) [] \<and> unat (next_id s) + n < 2 ^ 32
     \<and> coupled s m \<and> tm_inv m \<and> tm_fmt m \<and> few m"

lemma chain_inv_new: "n < 2 ^ 32 - 1 \<Longrightarrow> chain_inv n make_tracker (tm_new r)"
  using tm_inv_new[of r]
  by (simp add: chain_inv_def make_tracker_def tracker_inv_def boxes_ok_def coupled_def tm_new_def tm_fmt_def few_def
      missed_at_def)

lemma status_not_lost: "status s \<noteq> 2 \<longleftrightarrow> ts_frames_missed s = 0"
  by (auto simp: status_def word_gt_0)

lemma tracks_frame_of_outs:
  assumes f: "detector_frame (h, rs)" and outs: "map to_det outs = map det_of_wire rs" "distinct (map to_track_id outs)"
  shows "tracks_frame_ok (h, map wire_of_output outs)"
proof -
  have len: "length outs = length rs" using arg_cong[OF outs(1), of length] by simp
  have nth: "to_det (outs ! i) = det_of_wire (rs ! i)" if "i < length rs" for i
    using arg_cong[OF outs(1), of "\<lambda>l. l ! i"] that len by simp
  have "wf_track (wire_of_output (outs ! i)) \<and> rec_ok (wire_of_output (outs ! i))" if i: "i < length rs" for i
    using f nth[OF i] i iou.wf_wire_of_output[of "rs ! i" "outs ! i"]
    by (auto simp: detector_frame_def frame_ok_def list_all_length coords_ok_def rec_ok_def wire_of_output_def
        det_of_wire_def)
  moreover have "ids_ok (map wire_of_output outs)"
  proof -
    have "map wt_track_id (map wire_of_output outs) = map to_track_id outs" by (simp add: wire_of_output_def)
    then show ?thesis using outs(2) unfolding ids_ok_def by (metis distinct_filter)
  qed
  ultimately show ?thesis using f len
    by (auto simp: tracks_frame_ok_def detector_frame_def frame_ok_def list_all_length)
qed

text \<open>The tracks seen in the frame are the outputs of the tracker, each with its class and box.\<close>

lemma active_tracks:
  assumes post: "update_post dets s outs s'" and inv: "tracker_inv s" "coupled s m" "tm_inv m'"
    and spec: "map_of (tm_tracks m') = frame_spec (tm_roi m) (map wire_of_output outs) t (map_of (tm_tracks m))"
    and miss: "\<forall>i s. map_of (tm_tracks m') i = Some s \<longrightarrow>
      (ts_frames_missed s = 0 \<longleftrightarrow> reported (map wire_of_output outs) i \<noteq> None)"
    and kept: "\<forall>i. reported (map wire_of_output outs) i \<noteq> None \<longrightarrow> map_of (tm_tracks m') i \<noteq> None"
  shows "image_mset (\<lambda>x. (class15 (ts_class_name x), box_of_obs (ts_last x)))
      (mset (filter (\<lambda>x. ts_frames_missed x = 0) (map snd (tm_tracks m'))))
    = image_mset (\<lambda>d. (class15 (td_class_name d), box_of_det d)) (mset dets)"
proof -
  let ?view = "map snd (tm_tracks m')"
  let ?act = "filter (\<lambda>x. ts_frames_missed x = 0) ?view"
  have outs: "map to_det outs = dets" "distinct (map to_track_id outs)" using post by (simp_all add: update_post_def)
  have d: "distinct (map fst (tm_tracks m'))"
    and e: "\<And>k x. (k, x) \<in> set (tm_tracks m') \<Longrightarrow> ts_track_id x = k"
    using inv(3) by (auto simp: tm_inv_def)
  have at: "map_of (tm_tracks m') (ts_track_id x) = Some x" if "x \<in> set ?view" for x
    using that d e by auto
  have act: "ts_track_id ` set ?act = to_track_id ` set outs"
    using active_ids[OF inv(3) miss kept] wire_outs_ids[OF post] by simp
  have "map ts_track_id ?view = map fst (tm_tracks m')" using e by auto
  then have "distinct (map ts_track_id ?act)" using d by (metis distinct_map_filter)
  then have "image_mset (\<lambda>x. (class15 (ts_class_name x), box_of_obs (ts_last x))) (mset ?act)
      = image_mset (\<lambda>x. (class15 (td_class_name (to_det x)), box_of_det (to_det x))) (mset outs)"
  proof (rule image_mset_by_key[OF _ outs(2) act])
    fix x y assume "x \<in> set ?act" and y: "y \<in> set outs" and "ts_track_id x = to_track_id y"
    then show "(class15 (ts_class_name x), box_of_obs (ts_last x)) = (class15 (td_class_name (to_det y)), box_of_det (to_det y))"
      using reported_state[OF post inv(2) spec y] at[of x] by simp
  qed
  also have "\<dots> = image_mset (\<lambda>d. (class15 (td_class_name d), box_of_det d)) (mset (map to_det outs))"
    by (simp add: multiset.map_comp comp_def)
  finally show ?thesis unfolding outs(1) .
qed

lemma fill_summary_view:
  "summ_view (fill_summary atan2f x) = (class15 (ts_class_name x), box_of_obs (ts_last x))"
  "ws_status (fill_summary atan2f x) \<noteq> 2 \<longleftrightarrow> ts_frames_missed x = 0"
  using status_not_lost[of x] by (simp_all add: summ_view_def fill_summary_def class_strncpy box_of_obs_def)

lemma terminated_fill: "terminated (fill_summary atan2f x)"
  by (simp add: terminated_def fill_summary_def)

lemma chain_frame:
  assumes inv: "chain_inv (length rs + n) s m" and f: "detector_frame (h, rs)"
  obtains recs s' ss m' where "bytetrack_handle update h rs s = Some (recs, s')" "length recs = length rs"
    "tracks_frame_ok (h, recs)" "temporal_handle atan2f h recs m = Some (ss, m')" "chain_inv n s' m'"
    "\<forall>x \<in> set ss. wf_summary x \<and> terminated x" "length ss \<le> 31 * kMaxDetections"
    "shows_frame (h, rs) (h\<lparr>wh_count := of_nat (length ss)\<rparr>, ss)"
proof -
  note I = inv[unfolded chain_inv_def]
  have I': "tracker_inv s" "coupled s m" "tm_inv m" "tm_fmt m" "few m"
      "unat (next_id s) + length (map det_of_wire rs) < 2 ^ 32" using I by simp_all
  have ok: "unat (wh_count h) = length rs" "list_all box_ok (map det_of_wire rs)" "length rs \<le> kMaxDetections"
    using f by (simp_all add: detector_frame_def frame_ok_def list_all_iff)
  have bo: "boxes_ok (tracks s) (map det_of_wire rs)" using I ok(2) by (subst boxes_ok_split) simp
  obtain outs s' where up: "update (wh_frame_id h) (map det_of_wire rs) s = Some (outs, s')"
      and post: "update_post (map det_of_wire rs) s outs s'"
    using update_sound[OF I'(1) bo I'(6), of "wh_frame_id h"] by blast
  have P: "map to_det outs = map det_of_wire rs" "distinct (map to_track_id outs)" "tracker_inv s'"
      "boxes_ok (tracks s') []" "unat (next_id s') \<le> unat (next_id s) + length rs"
    using post by (auto simp: update_post_def)
  let ?recs = "map wire_of_output outs" and ?t = "wh_timestamp_us h"
  have len: "length outs = length rs" using arg_cong[OF P(1), of length] by simp
  have tf: "tracks_frame_ok (h, ?recs)" by (rule tracks_frame_of_outs[OF f P(1,2)])
  then have r: "list_all rec_ok ?recs" "ids_ok ?recs" by (simp_all add: tracks_frame_ok_def)
  obtain view m' where fr: "tm_frame ?recs ?t m = Some (view, m')" and m': "tm_inv m'"
    and "tm_roi m' = tm_roi m"
    and spec: "map_of (tm_tracks m') = frame_spec (tm_roi m) ?recs ?t (map_of (tm_tracks m))"
    and view: "view = map snd (tm_tracks m')"
    and miss: "\<forall>i s. map_of (tm_tracks m') i = Some s \<longrightarrow> (ts_frames_missed s = 0 \<longleftrightarrow> reported ?recs i \<noteq> None)"
    and kept: "\<forall>i. reported ?recs i \<noteq> None \<longrightarrow> map_of (tm_tracks m') i \<noteq> None"
    by (rule tm_frame_spec[OF I'(3) r, of ?t])
  let ?ss = "map (fill_summary atan2f) view"
  note fmt = tm_frame_fmt[OF fr I'(4)]
  have few': "few m'" by (rule few_step[OF I'(3,5) _ spec miss]) (use len ok(3) in simp)
  have "image_mset summ_view (mset (filter (\<lambda>x. ws_status x \<noteq> 2) ?ss))
      = image_mset (\<lambda>x. (class15 (ts_class_name x), box_of_obs (ts_last x))) (mset (filter (\<lambda>x. ts_frames_missed x = 0) view))"
    by (simp add: filter_map comp_def fill_summary_view multiset.map_comp flip: mset_filter)
  also have "\<dots> = image_mset det_view (mset rs)"
    unfolding view active_tracks[OF post I'(1,2) m' spec miss kept]
    by (simp add: multiset.map_comp comp_def det_of_wire_def det_view_def[abs_def] box_of_det_def)
  finally have sh: "shows_frame (h, rs) (h\<lparr>wh_count := of_nat (length ?ss)\<rparr>, ?ss)" by (simp add: shows_frame_def)
  show thesis
  proof (rule that[of ?recs s' ?ss m'])
    show "bytetrack_handle update h rs s = Some (?recs, s')"
      using up ok(1) by (simp add: bytetrack_handle_def frame_dets_def)
    show "temporal_handle atan2f h ?recs m = Some (?ss, m')" using fr by (simp add: temporal_handle_def)
    show "chain_inv n s' m'"
      using P I m' fmt(1) few' coupled_step[OF post I'(2) spec] by (simp add: chain_inv_def)
    show "length ?ss \<le> 31 * kMaxDetections" using few_length[OF m' few'] by (simp add: view)
  qed (use len tf sh fmt(2) wf_fill_summary terminated_fill in auto)
qed

section \<open>Runs of both services\<close>

lemma chain_run:
  "chain_inv (total_records fs) s m \<Longrightarrow> list_all detector_frame fs \<Longrightarrow>
   \<exists>ts s' os m'. handle_run (bytetrack_handle update) fs s = Some (ts, s')
     \<and> handle_run (temporal_handle atan2f) ts m = Some (os, m')
     \<and> list_all tracks_frame_ok ts \<and> length ts = length fs \<and> total_records ts = total_records fs
     \<and> frames_ok os \<and> list_all2 shows_frame fs os \<and> list_all (\<lambda>g. length (snd g) \<le> 31 * kMaxDetections) os
     \<and> list_all (list_all terminated) (map snd os)"
proof (induction fs arbitrary: s m)
  case Nil
  then show ?case by (simp add: frames_ok_def)
next
  case (Cons f fs)
  obtain h rs where f: "f = (h, rs)" by (cases f)
  have inv: "chain_inv (length rs + total_records fs) s m" and df: "detector_frame (h, rs)" "list_all detector_frame fs"
    using Cons.prems by (simp_all add: f)
  obtain recs s1 ss m1 where 1: "bytetrack_handle update h rs s = Some (recs, s1)" "length recs = length rs"
      "tracks_frame_ok (h, recs)" "temporal_handle atan2f h recs m = Some (ss, m1)" "chain_inv (total_records fs) s1 m1"
      "\<forall>x \<in> set ss. wf_summary x \<and> terminated x" "length ss \<le> 31 * kMaxDetections"
      "shows_frame (h, rs) (h\<lparr>wh_count := of_nat (length ss)\<rparr>, ss)"
    by (rule chain_frame[OF inv df(1)])
  obtain ts s' os m' where 2: "handle_run (bytetrack_handle update) fs s1 = Some (ts, s')"
      "handle_run (temporal_handle atan2f) ts m1 = Some (os, m')"
      "list_all tracks_frame_ok ts" "length ts = length fs" "total_records ts = total_records fs"
      "frames_ok os" "list_all2 shows_frame fs os" "list_all (\<lambda>g. length (snd g) \<le> 31 * kMaxDetections) os"
      "list_all (list_all terminated) (map snd os)"
    using Cons.IH[OF 1(5) df(2)] by blast
  have h: "wf_header h" "unat (wh_count h) = length recs" using 1(3) by (simp_all add: tracks_frame_ok_def)
  have "(of_nat (length recs) :: u16) = wh_count h" unfolding h(2)[symmetric] by simp
  then have hc: "h\<lparr>wh_count := of_nat (length recs)\<rparr> = h" by simp
  have "length ss < 2 ^ 16" using 1(7) by (simp add: kMaxDetections_def)
  then have "frames_ok [(h\<lparr>wh_count := of_nat (length ss)\<rparr>, ss)]"
    using h(1) 1(6) by (simp add: frames_ok_def wf_header_def list_all_iff unat_of_nat)
  then show ?case
    using 1 2 hc
    by (intro exI[of _ "(h, recs) # ts"] exI[of _ s'] exI[of _ "(h\<lparr>wh_count := of_nat (length ss)\<rparr>, ss) # os"] exI[of _ m'])
      (simp add: f frames_ok_def list_all_iff)
qed

context record_codec
begin

lemma length_stream:
  "\<forall>(h, rs) \<in> set fs. wf_header h \<and> (\<forall>r \<in> set rs. wf r) \<Longrightarrow>
   length (stream_of enc sz fs) = 28 * length fs + sz * total_records fs"
proof (induction fs)
  case (Cons f fs)
  obtain h rs where f: "f = (h, rs)" by (cases f)
  have "length (enc_header h) = sizeof_WireFrameHeader" using Cons.prems by (intro hdr.length_enc_rec) (auto simp: f)
  moreover have "length (concat (map enc rs)) = sz * length rs" using Cons.prems by (intro length_enc_all) (auto simp: f)
  ultimately show ?case
    using Cons by (simp add: f frame_bytes_def codec_simps sizeof_WireFrameHeader_def algebra_simps)
qed simp

end

lemma total_records_le: "list_all (\<lambda>g. length (snd g) \<le> n) fs \<Longrightarrow> total_records fs \<le> length fs * n"
  by (induction fs rule: total_records.induct) auto

section \<open>The summarizer over the presence of the drone\<close>

text \<open>The abstract machine: the state, the time of the last departure and, for every frame, whether it
  shows the drone. It gives the turns in which a language-model cycle runs.\<close>

fun presence_step :: "u64 \<Rightarrow> turn_env \<times> bool \<Rightarrow> fsm_state \<times> u64 \<Rightarrow> turn_env list \<times> fsm_state \<times> u64" where
  "presence_step cd (env, p) (NoDrone, t) = ([], if p then DronePresent else NoDrone, t)"
| "presence_step cd (env, p) (DronePresent, t) =
     ([], if p then (DronePresent, t) else (Cooldown, te_now_ms env))"
| "presence_step cd (env, p) (Cooldown, t) =
     (if p then ([], DronePresent, t)
      else if cd \<le> te_now_ms env - t then ([env], NoDrone, t) else ([], Cooldown, t))"
| "presence_step cd (env, p) (LlmWindow, t) = ([], LlmWindow, t)"

fun presence_run :: "u64 \<Rightarrow> (turn_env \<times> bool) list \<Rightarrow> fsm_state \<times> u64 \<Rightarrow> turn_env list \<times> fsm_state \<times> u64" where
  "presence_run cd [] q = ([], q)"
| "presence_run cd (x # xs) q =
     (case presence_step cd x q of (cs, q) \<Rightarrow> case presence_run cd xs q of (cs', q) \<Rightarrow> (cs @ cs', q))"

text \<open>The actions of the given cycles, each with some aggregate.\<close>

definition cycles_of :: "libm \<Rightarrow> config \<Rightarrow> turn_env list \<Rightarrow> action list \<Rightarrow> bool" where
  "cycles_of m cf cs as \<longleftrightarrow> (\<exists>aggs. length aggs = length cs \<and> as = concat (map2 (llm_actions m cf) cs aggs))"

lemma cycles_of_simps [simp]: "cycles_of m cf [] as \<longleftrightarrow> as = []" "cycles_of m cf [env] (llm_actions m cf env agg)"
proof -
  show "cycles_of m cf [] as \<longleftrightarrow> as = []" by (simp add: cycles_of_def)
  show "cycles_of m cf [env] (llm_actions m cf env agg)"
    unfolding cycles_of_def by (rule exI[of _ "[agg]"]) simp
qed

lemma cycles_of_append: "cycles_of m cf cs as \<Longrightarrow> cycles_of m cf cs' as' \<Longrightarrow> cycles_of m cf (cs @ cs') (as @ as')"
proof -
  assume "cycles_of m cf cs as" "cycles_of m cf cs' as'"
  then obtain g g' where "length g = length cs" "as = concat (map2 (llm_actions m cf) cs g)"
      "length g' = length cs'" "as' = concat (map2 (llm_actions m cf) cs' g')"
    by (auto simp: cycles_of_def)
  then show ?thesis unfolding cycles_of_def by (intro exI[of _ "g @ g'"]) simp
qed

lemma presence_turn:
  assumes "list_all terminated fr" "su_state st \<noteq> LlmWindow"
  obtains as st' cs q t where "summ_turn m cf env (Frame fr) st = Some (as, st')"
    "presence_step (cf_cooldown_ms cf) (env, \<exists>s \<in> set fr. is_drone cf s) (su_state st, su_departed_ms st) = (cs, q, t)"
    "su_state st' = q" "su_departed_ms st' = t" "q \<noteq> LlmWindow" "cycles_of m cf cs as"
proof -
  obtain as st' where t: "summ_turn m cf env (Frame fr) st = Some (as, st')"
    using assms(1) by (cases "fsm_tick m cf env (scan_frame m cf fr st)") (auto simp: summ_turn_def)
  have p: "shows_drone cf (env, Frame fr) \<longleftrightarrow> (\<exists>s \<in> set fr. is_drone cf s)"
    by (simp add: shows_drone_def filter_empty_conv)
  have tick: "(as, st') = fsm_tick m cf env (scan_frame m cf fr st)"
    using t assms(1) by (simp add: summ_turn_def)
  obtain cs q u where pr: "presence_step (cf_cooldown_ms cf) (env, \<exists>s \<in> set fr. is_drone cf s)
      (su_state st, su_departed_ms st) = (cs, q, u)" by (metis prod_cases3)
  have "su_state st' = q \<and> su_departed_ms st' = u \<and> q \<noteq> LlmWindow \<and> cycles_of m cf cs as"
    using tick pr assms(2) unfolding scan_frame_eq[of m cf fr st env] p
    by (cases "su_state st") (auto simp: fsm_tick_def fsm_switch_def split: if_splits)
  then show thesis using that[OF t pr] by blast
qed

lemma presence_summ_run:
  "list_all (list_all terminated) frs \<Longrightarrow> su_state st \<noteq> LlmWindow \<Longrightarrow> length envs = length frs \<Longrightarrow>
   \<exists>as st' cs q t. summ_run m cf (zip envs (map Frame frs)) st = Some (as, st')
     \<and> presence_run (cf_cooldown_ms cf) (zip envs (map (\<lambda>fr. \<exists>s \<in> set fr. is_drone cf s) frs))
         (su_state st, su_departed_ms st) = (cs, q, t)
     \<and> su_state st' = q \<and> su_departed_ms st' = t \<and> cycles_of m cf cs as"
proof (induction frs arbitrary: envs st)
  case (Cons fr frs)
  obtain env envs' where e: "envs = env # envs'" "length envs' = length frs" using Cons.prems(3) by (cases envs) auto
  obtain as st1 cs q t where 1: "summ_turn m cf env (Frame fr) st = Some (as, st1)"
      "presence_step (cf_cooldown_ms cf) (env, \<exists>s \<in> set fr. is_drone cf s) (su_state st, su_departed_ms st) = (cs, q, t)"
      "su_state st1 = q" "su_departed_ms st1 = t" "q \<noteq> LlmWindow" "cycles_of m cf cs as"
    by (rule presence_turn[of fr st m cf env]) (use Cons.prems in auto)
  obtain as' st' cs' q' t' where 2: "summ_run m cf (zip envs' (map Frame frs)) st1 = Some (as', st')"
      "presence_run (cf_cooldown_ms cf) (zip envs' (map (\<lambda>fr. \<exists>s \<in> set fr. is_drone cf s) frs)) (q, t) = (cs', q', t')"
      "su_state st' = q'" "su_departed_ms st' = t'" "cycles_of m cf cs' as'"
    using Cons.IH[of st1 envs'] Cons.prems 1(3-5) e(2) by auto
  then show ?case using 1(1,2) cycles_of_append[OF 1(6) 2(5)] by (simp add: e(1) del: presence_step.simps)
qed simp

section \<open>From the detections to the actions\<close>

definition drone_detected :: "config \<Rightarrow> wire_frame_header \<times> wire_detection list \<Rightarrow> bool" where
  "drone_detected cf f \<longleftrightarrow> (\<exists>d \<in> set (snd f). class15 (wd_class_name d) = cf_drone_class cf)"

lemma shows_frame_drone:
  assumes "shows_frame f g"
  shows "(\<exists>s \<in> set (snd g). is_drone cf s) \<longleftrightarrow> drone_detected cf f"
proof -
  have "set_mset (image_mset summ_view (mset (filter (\<lambda>s. ws_status s \<noteq> 2) (snd g))))
      = set_mset (image_mset det_view (mset (snd f)))"
    using assms by (simp only: shows_frame_def)
  then have "fst ` summ_view ` {s \<in> set (snd g). ws_status s \<noteq> 2} = fst ` det_view ` set (snd f)" by simp
  then have "(\<lambda>s. cstr (ws_class_name s)) ` {s \<in> set (snd g). ws_status s \<noteq> 2} = (\<lambda>d. class15 (wd_class_name d)) ` set (snd f)"
    by (simp add: image_image summ_view_def det_view_def)
  then have "cf_drone_class cf \<in> (\<lambda>s. cstr (ws_class_name s)) ` {s \<in> set (snd g). ws_status s \<noteq> 2}
      \<longleftrightarrow> cf_drone_class cf \<in> (\<lambda>d. class15 (wd_class_name d)) ` set (snd f)" by simp
  then show ?thesis by (simp add: is_drone_def drone_detected_def image_iff) metis
qed

text \<open>The state machine and the actions the detections of the frames call for.\<close>

definition follows_detections ::
  "libm \<Rightarrow> config \<Rightarrow> turn_env list \<Rightarrow> (wire_frame_header \<times> wire_detection list) list \<Rightarrow> action list \<Rightarrow> summarizer \<Rightarrow> bool"
where
  "follows_detections m cf envs fs as su \<longleftrightarrow>
     (case presence_run (cf_cooldown_ms cf) (zip envs (map (drone_detected cf) fs)) (NoDrone, 0) of
        (cs, q, t) \<Rightarrow> su_state su = q \<and> su_departed_ms su = t \<and> cycles_of m cf cs as)"

lemma summarizer_follows:
  assumes os: "frames_ok os" "list_all2 shows_frame fs os" "list_all (list_all terminated) (map snd os)"
    and s: "avail s = stream_of enc_summary sizeof_WireTrackSummary os" and e: "length envs = length fs"
  obtains as su where "summ_connection m cf envs s summ_init = Some (as, su)" "follows_detections m cf envs fs as su"
proof -
  have len: "length envs = length os" using e list_all2_lengthD[OF os(2)] by simp
  have eq: "map (\<lambda>(h, ss). Frame ss) os = map Frame (map snd os)" by (simp add: case_prod_beta comp_def)
  have pres: "map (\<lambda>fr. \<exists>s \<in> set fr. is_drone cf s) (map snd os) = map (drone_detected cf) fs"
    using os(2) by (induction rule: list_all2_induct) (simp_all add: shows_frame_drone)
  obtain as su cs q t where "summ_run m cf (zip envs (map Frame (map snd os))) summ_init = Some (as, su)"
      "presence_run (cf_cooldown_ms cf) (zip envs (map (drone_detected cf) fs)) (NoDrone, 0) = (cs, q, t)"
      "su_state su = q" "su_departed_ms su = t" "cycles_of m cf cs as"
    using presence_summ_run[OF os(3), of summ_init envs m cf] len unfolding pres
    by (auto simp: summ_init_def)
  then show thesis
    using that[of as su] received_frames[OF os(1) s len] by (simp add: summ_connection_run eq follows_detections_def)
qed

text \<open>The bytes each service sends for a run of its component.\<close>

lemma bytetrack_loop_sends:
  assumes run: "handle_run (bytetrack_handle update) fs tr = Some (ts, tr')"
    and wf: "list_all frame_ok fs"
    and s: "avail s = stream_of enc_detection sizeof_WireDetectionRecord fs" "length fs < length kss"
    and c: "co_conn c = Some k" "sent k = []" "takes (length (stream_of enc_track sizeof_WireTrackRecord ts)) k"
  shows "\<exists>c' k'. bytetrack_loop update kss tr c s = Some (tr', c', Some Input_closed) \<and> co_conn c' = Some k'
    \<and> sent k' = stream_of enc_track sizeof_WireTrackRecord ts"
proof -
  have v: "sv_dec (bytetrack update) = dec_detection" "sv_in_size (bytetrack update) = sizeof_WireDetectionRecord"
      "sizeof_WireDetectionRecord \<le> 200"
    by (simp_all add: bytetrack_def sizeof_WireDetectionRecord_def)
  have "\<forall>(h, rs) \<in> set fs. wf_header h \<and> unat (wh_count h) = length rs \<and> (\<forall>x \<in> set rs. wf_detection x)"
    using wf by (auto simp: list_all_iff frame_ok_def)
  moreover have "handle_run (sv_handle (bytetrack update)) fs tr = Some (ts, tr')"
    using run by (simp add: bytetrack_def)
  ultimately show ?thesis
    using det.service_loop_frames[OF v _ _ s(1) c(1) _ s(2)] c(2,3)
    by (auto simp: bytetrack_loop_def bytetrack_def)
qed

lemma temporal_loop_sends:
  assumes run: "handle_run (temporal_handle atan2f) ts mgr = Some (os, mgr')"
    and wf: "list_all tracks_frame_ok ts"
    and s: "avail s = stream_of enc_track sizeof_WireTrackRecord ts" "length ts < length kss"
    and c: "co_conn c = Some k" "sent k = []" "takes (length (stream_of enc_summary sizeof_WireTrackSummary os)) k"
  shows "\<exists>c' k'. temporal_loop atan2f kss mgr c s = Some (mgr', c', Some Input_closed) \<and> co_conn c' = Some k'
    \<and> sent k' = stream_of enc_summary sizeof_WireTrackSummary os"
proof -
  have v: "sv_dec (temporal atan2f) = dec_track" "sv_in_size (temporal atan2f) = sizeof_WireTrackRecord"
      "sizeof_WireTrackRecord \<le> 200"
    by (simp_all add: temporal_def sizeof_WireTrackRecord_def)
  have "\<forall>(h, rs) \<in> set ts. wf_header h \<and> unat (wh_count h) = length rs \<and> (\<forall>x \<in> set rs. wf_track x)"
    using wf by (auto simp: list_all_iff tracks_frame_ok_def)
  moreover have "handle_run (sv_handle (temporal atan2f)) ts mgr = Some (os, mgr')"
    using run by (simp add: temporal_def)
  ultimately show ?thesis
    using trk.service_loop_frames[OF v _ _ s(1) c(1) _ s(2)] c(2,3)
    by (auto simp: temporal_loop_def temporal_def)
qed

lemma events_stream_length:
  assumes "frames_ok os" "list_all (\<lambda>g. length (snd g) \<le> n) os"
  shows "length (stream_of enc_summary sizeof_WireTrackSummary os) \<le> length os * (28 + 104 * n)"
proof -
  have "\<forall>(h, ss) \<in> set os. wf_header h \<and> (\<forall>x \<in> set ss. wf_summary x)"
    using assms(1) by (auto simp: list_all_iff frames_ok_def)
  moreover have "total_records os \<le> length os * n" by (rule total_records_le[OF assms(2)])
  ultimately show ?thesis
    using summ.length_stream[of os] by (simp add: sizeof_WireTrackSummary_def algebra_simps)
qed

lemma tracks_stream_length:
  "list_all tracks_frame_ok ts \<Longrightarrow>
   length (stream_of enc_track sizeof_WireTrackRecord ts) = 28 * length ts + 40 * total_records ts"
  by (subst trk.length_stream) (auto simp: list_all_iff tracks_frame_ok_def sizeof_WireTrackRecord_def)

lemma takes_le: "takes n k \<Longrightarrow> m \<le> n \<Longrightarrow> takes m k"
  by (auto simp: takes_def)

text \<open>What the chain delivers for the frames \<open>fs\<close> read from \<open>s\<close>: each process reads what the one before has
  sent, in any chunks, and takes what the turns \<open>envs\<close> of the summarizer bring.\<close>

definition chain_delivers ::
  "(fp \<Rightarrow> fp \<Rightarrow> fp) \<Rightarrow> roi \<Rightarrow> libm \<Rightarrow> config \<Rightarrow> (wire_frame_header \<times> wire_detection list) list
   \<Rightarrow> sink list list \<Rightarrow> consumer \<Rightarrow> delivery list \<Rightarrow> sink list list \<Rightarrow> consumer \<Rightarrow> bool" where
  "chain_delivers atan2f r m cf fs kss c s kss2 d \<longleftrightarrow>
   (\<exists>st c' k'. bytetrack_loop update kss make_tracker c s = Some (st, c', Some Input_closed) \<and> co_conn c' = Some k'
    \<and> (\<forall>s2. avail s2 = sent k' \<longrightarrow>
        (\<exists>mgr d' q' os. temporal_loop atan2f kss2 (tm_new r) d s2 = Some (mgr, d', Some Input_closed) \<and> co_conn d' = Some q'
          \<and> list_all2 shows_frame fs os \<and> (\<forall>(h, ss) \<in> set os. unat (wh_count h) = length ss \<and> length ss \<le> 1984)
          \<and> (\<forall>s3. avail s3 = sent q' \<longrightarrow>
              events_receiveLoop s3 = (concat (map (\<lambda>(h, ss). map (event_line h) ss) os), Ev_closed)
              \<and> (\<forall>envs. length envs = length fs \<longrightarrow>
                  (\<exists>as su. summ_connection m cf envs s3 summ_init = Some (as, su) \<and> follows_detections m cf envs fs as su))))))"

lemma chain_correct:
  assumes fs: "list_all detector_frame fs" "total_records fs < 2 ^ 32 - 1"
    and s: "avail s = stream_of enc_detection sizeof_WireDetectionRecord fs" "length fs < length kss"
    and c: "co_conn c = Some k" "sent k = []" "takes (28 * length fs + 40 * total_records fs) k"
    and d: "co_conn d = Some q" "sent q = []" "takes (length fs * (28 + 104 * 1984)) q" "length fs < length kss2"
  shows "chain_delivers atan2f r m cf fs kss c s kss2 d"
proof -
  obtain ts st os mgr where run: "handle_run (bytetrack_handle update) fs make_tracker = Some (ts, st)"
      "handle_run (temporal_handle atan2f) ts (tm_new r) = Some (os, mgr)"
    and ts: "list_all tracks_frame_ok ts" "length ts = length fs" "total_records ts = total_records fs"
    and os: "frames_ok os" "list_all2 shows_frame fs os" "list_all (\<lambda>g. length (snd g) \<le> 31 * kMaxDetections) os"
      "list_all (list_all terminated) (map snd os)"
    using chain_run[OF chain_inv_new[OF fs(2), of r] fs(1), of atan2f] by blast
  have fok: "list_all frame_ok fs" using fs(1) by (auto simp: list_all_iff detector_frame_def)
  have wos: "\<forall>(h, ss) \<in> set os. wf_header h \<and> unat (wh_count h) = length ss \<and> (\<forall>x \<in> set ss. wf_summary x)"
    using os(1) by (auto simp: list_all_iff frames_ok_def)
  have tk1: "takes (length (stream_of enc_track sizeof_WireTrackRecord ts)) k"
    using c(3) ts by (simp add: tracks_stream_length)
  have tk2: "takes (length (stream_of enc_summary sizeof_WireTrackSummary os)) q"
    using events_stream_length[OF os(1,3)] list_all2_lengthD[OF os(2)]
    by (intro takes_le[OF d(3)]) (simp add: kMaxDetections_def)
  obtain c' k' where l1: "bytetrack_loop update kss make_tracker c s = Some (st, c', Some Input_closed)"
      "co_conn c' = Some k'" "sent k' = stream_of enc_track sizeof_WireTrackRecord ts"
    using bytetrack_loop_sends[OF run(1) fok s c(1,2) tk1] by blast
  have l2: "\<exists>d' q'. temporal_loop atan2f kss2 (tm_new r) d s2 = Some (mgr, d', Some Input_closed) \<and> co_conn d' = Some q'
      \<and> sent q' = stream_of enc_summary sizeof_WireTrackSummary os" if "avail s2 = sent k'" for s2
    using temporal_loop_sends[OF run(2) ts(1) _ _ d(1,2) tk2, of s2 kss2] d(4) ts(2) that l1(3) by simp
  have small: "\<forall>(h, ss) \<in> set os. unat (wh_count h) = length ss \<and> length ss \<le> 1984"
    using wos os(3) by (auto simp: list_all_iff kMaxDetections_def)
  have last: "events_receiveLoop s3 = (concat (map (\<lambda>(h, ss). map (event_line h) ss) os), Ev_closed)
      \<and> (\<forall>envs. length envs = length fs \<longrightarrow>
            (\<exists>as su. summ_connection m cf envs s3 summ_init = Some (as, su) \<and> follows_detections m cf envs fs as su))"
    if s3: "avail s3 = stream_of enc_summary sizeof_WireTrackSummary os" for s3
    using events_receiveLoop_frames[OF wos s3] summarizer_follows[OF os(1,2,4) s3, of _ m cf] by metis
  have "\<exists>mgr d' q' os. temporal_loop atan2f kss2 (tm_new r) d s2 = Some (mgr, d', Some Input_closed) \<and> co_conn d' = Some q'
      \<and> list_all2 shows_frame fs os \<and> (\<forall>(h, ss) \<in> set os. unat (wh_count h) = length ss \<and> length ss \<le> 1984)
      \<and> (\<forall>s3. avail s3 = sent q' \<longrightarrow>
          events_receiveLoop s3 = (concat (map (\<lambda>(h, ss). map (event_line h) ss) os), Ev_closed)
          \<and> (\<forall>envs. length envs = length fs \<longrightarrow>
            (\<exists>as su. summ_connection m cf envs s3 summ_init = Some (as, su) \<and> follows_detections m cf envs fs as su)))"
    if s2: "avail s2 = sent k'" for s2
  proof -
    obtain d' q' where l: "temporal_loop atan2f kss2 (tm_new r) d s2 = Some (mgr, d', Some Input_closed)"
        "co_conn d' = Some q'" "sent q' = stream_of enc_summary sizeof_WireTrackSummary os"
      using l2[OF s2] by blast
    show ?thesis
      by (intro exI[of _ mgr] exI[of _ d'] exI[of _ q'] exI[of _ os] conjI l(1,2) os(2) small)
        (use last l(3) in simp)
  qed
  then show ?thesis
    unfolding chain_delivers_def
    by (intro exI[of _ st] exI[of _ c'] exI[of _ k'] conjI l1(1,2)) blast
qed

text \<open>C4: the composed system: the detector's stream through the tracker service, the temporal service
  and the summarizer, each reading what the one before has sent, in any chunks. Every events frame
  shows exactly the detections of the detector's frame, as a multiset of classes and boxes, and at
  most 1984 tracks, so its 16-bit count is right; the receiver prints these frames; and the
  summarizer is defined, its state and its language-model cycles those of the abstract machine run
  over the frames in which the detector reported the drone class.\<close>

theorem detections_drive_summarizer:
  assumes "list_all detector_frame fs" "total_records fs < 2 ^ 32 - 1"
    and "avail s = stream_of enc_detection sizeof_WireDetectionRecord fs" "length fs < length kss"
    and "co_conn c = Some k" "sent k = []" "takes (28 * length fs + 40 * total_records fs) k"
    and "co_conn d = Some q" "sent q = []" "takes (length fs * (28 + 104 * 1984)) q" "length fs < length kss2"
  shows "chain_delivers atan2f r m cf fs kss c s kss2 d"
  by (rule chain_correct[OF assms])

definition sample_uav_frame :: "wire_frame_header \<times> wire_detection list" where
  "sample_uav_frame = (\<lparr>wh_frame_id = 7, wh_timestamp_us = 9, wh_count = 1, wh_reserved = replicate 6 0\<rparr>,
     [\<lparr>wd_class_name = ''UAV'' @ replicate 13 NUL, wd_confidence = Fin 0, wd_left = 1, wd_top = 2,
       wd_right = 11, wd_bottom = 12\<rparr>])"

definition sample_libm :: libm where
  "sample_libm = \<lparr>lm_cos = (\<lambda>_. Fin 1), lm_sin = (\<lambda>_. Fin 0), lm_atan2 = (\<lambda>_ _. Fin 0)\<rparr>"

definition sample_turn :: turn_env where
  "sample_turn = \<lparr>te_now_ms = 5, te_fopen = True, te_rename = True, te_utc = ''now''\<rparr>"

definition sample_consumer :: "nat \<Rightarrow> consumer" where
  "sample_consumer n = \<lparr>co_conn = Some \<lparr>sent = [], accepts = replicate n 64\<rparr>, co_backlog = [], co_closed = []\<rparr>"

lemma sample_uav_ok: "detector_frame sample_uav_frame" "total_records [sample_uav_frame] = 1"
    "drone_detected (config_default ''cam'') sample_uav_frame"
  by (simp_all add: sample_uav_frame_def detector_frame_def frame_ok_def wf_header_def wf_detection_def
      det_of_wire_def box_ok_def coords_ok_def kMaxDetections_def drone_detected_def config_default_def cstr_def)

lemma follows_one_drone:
  "follows_detections m (config_default ''cam'') [env] [sample_uav_frame] as su \<longleftrightarrow>
   su_state su = DronePresent \<and> su_departed_ms su = 0 \<and> as = []"
  by (simp add: follows_detections_def sample_uav_ok)

lemma detections_drive_summarizer_witness:
  "\<exists>st c' k' mgr d' q' su.
     bytetrack_loop update [[], []] make_tracker (sample_consumer 68)
       [Data (stream_of enc_detection sizeof_WireDetectionRecord [sample_uav_frame])] = Some (st, c', Some Input_closed)
     \<and> co_conn c' = Some k'
     \<and> temporal_loop (\<lambda>_ _. Fin 0) [[], []] (tm_new no_roi) (sample_consumer (28 + 104 * 1984)) [Data (sent k')]
         = Some (mgr, d', Some Input_closed)
     \<and> co_conn d' = Some q'
     \<and> summ_connection sample_libm (config_default ''cam'') [sample_turn] [Data (sent q')] summ_init = Some ([], su)
     \<and> su_state su = DronePresent"
proof -
  have fs: "list_all detector_frame [sample_uav_frame]" "total_records [sample_uav_frame] < 2 ^ 32 - 1"
    by (simp_all add: sample_uav_ok)
  have c: "co_conn (sample_consumer n) = Some \<lparr>sent = [], accepts = replicate n 64\<rparr>"
      "takes n \<lparr>sent = [], accepts = replicate n 64\<rparr>" for n
    by (simp_all add: sample_consumer_def takes_def)
  have n: "28 * length [sample_uav_frame] + 40 * total_records [sample_uav_frame] = 68"
      "length [sample_uav_frame] * (28 + 104 * 1984) = 28 + 104 * 1984"
    by (simp_all only: sample_uav_ok) simp_all
  obtain st c' k' where l1: "bytetrack_loop update [[], []] make_tracker (sample_consumer 68)
       [Data (stream_of enc_detection sizeof_WireDetectionRecord [sample_uav_frame])] = Some (st, c', Some Input_closed)"
      "co_conn c' = Some k'"
    and l2: "\<forall>s2. avail s2 = sent k' \<longrightarrow>
        (\<exists>mgr d' q' os. temporal_loop (\<lambda>_ _. Fin 0) [[], []] (tm_new no_roi) (sample_consumer (28 + 104 * 1984)) s2
            = Some (mgr, d', Some Input_closed) \<and> co_conn d' = Some q'
          \<and> list_all2 shows_frame [sample_uav_frame] os
          \<and> (\<forall>(h, ss) \<in> set os. unat (wh_count h) = length ss \<and> length ss \<le> 1984)
          \<and> (\<forall>s3. avail s3 = sent q' \<longrightarrow>
              events_receiveLoop s3 = (concat (map (\<lambda>(h, ss). map (event_line h) ss) os), Ev_closed)
              \<and> (\<forall>envs. length envs = length [sample_uav_frame] \<longrightarrow>
                  (\<exists>as su. summ_connection sample_libm (config_default ''cam'') envs s3 summ_init = Some (as, su)
                     \<and> follows_detections sample_libm (config_default ''cam'') envs [sample_uav_frame] as su))))"
    using detections_drive_summarizer[OF fs avail_one _ c(1) _ _ c(1), of "[[], []]" 68 "28 + 104 * 1984" "[[], []]"
        "\<lambda>_ _. Fin 0" no_roi sample_libm "config_default ''cam''"] c(2) n
    unfolding chain_delivers_def by auto
  obtain mgr d' q' where l3: "temporal_loop (\<lambda>_ _. Fin 0) [[], []] (tm_new no_roi) (sample_consumer (28 + 104 * 1984)) [Data (sent k')]
        = Some (mgr, d', Some Input_closed)" "co_conn d' = Some q'"
      and l4: "\<forall>s3. avail s3 = sent q' \<longrightarrow> (\<exists>su. summ_connection sample_libm (config_default ''cam'') [sample_turn] s3 summ_init
        = Some ([], su) \<and> su_state su = DronePresent)"
  proof -
    obtain mgr d' q' where l: "temporal_loop (\<lambda>_ _. Fin 0) [[], []] (tm_new no_roi) (sample_consumer (28 + 104 * 1984)) [Data (sent k')]
        = Some (mgr, d', Some Input_closed)" "co_conn d' = Some q'"
      and e: "\<forall>s3. avail s3 = sent q' \<longrightarrow> (\<forall>envs. length envs = length [sample_uav_frame] \<longrightarrow>
        (\<exists>as su. summ_connection sample_libm (config_default ''cam'') envs s3 summ_init = Some (as, su)
           \<and> follows_detections sample_libm (config_default ''cam'') envs [sample_uav_frame] as su))"
      using l2[rule_format, OF avail_one] by blast
    have "\<exists>su. summ_connection sample_libm (config_default ''cam'') [sample_turn] s3 summ_init = Some ([], su)
        \<and> su_state su = DronePresent" if "avail s3 = sent q'" for s3
      using e[rule_format, OF that, of "[sample_turn]"] by (auto simp: follows_one_drone)
    then show thesis using that l by blast
  qed
  show ?thesis using l1 l3 l4[rule_format, OF avail_one] by blast
qed

end
