(* ===== verification/Whole_System.thy ===== *)
theory Whole_System
  imports System_Chain Pipeline_Correct
begin

text \<open>
  From the camera to the language model: the pipeline of the detector as a transition system, the
  publisher's connection in it, and behind that connection the chain of \<open>System_Chain\<close>. The link is
  an invariant of the pipeline: what was sent on the data connection are whole messages, in the order
  in which the main thread published them, each of a captured frame of its own.
\<close>

section \<open>The data connection\<close>

text \<open>The states the detector reaches when a connection starts with nothing sent on it.\<close>

inductive serving :: "env \<Rightarrow> pipe \<Rightarrow> bool" for E where
  start: "start_pub pub \<Longrightarrow> serving E (pipe_start E pub ctrl_ok)"
| step: "serving E s \<Longrightarrow> sys_step E s s' \<Longrightarrow>
    (pb_conn (pi_pub s) = None \<Longrightarrow> pb_conn (pi_pub s') = None \<or> map_option sent (pb_conn (pi_pub s')) = Some []) \<Longrightarrow>
    serving E s'"

lemma serving_reachable: "serving E s \<Longrightarrow> reachable E s"
  by (induction rule: serving.induct) (auto intro: reachable.intros)

text \<open>On the connection: messages which, followed by those still queued, are a subsequence of those
  published.\<close>

definition streamed :: "publisher \<Rightarrow> detection_message list \<Rightarrow> detection_message list \<Rightarrow> bool" where
  "streamed p lg ms \<longleftrightarrow> subseq (ms @ bq_items (pb_queue p)) lg
     \<and> (\<forall>k. pb_conn p = Some k \<longrightarrow> sent k = concat (map message_bytes ms))"

lemma pub_step_streamed:
  assumes st: "pub_step e p = Some (out, p')" and inv: "pub_inv p" and ms: "streamed p lg ms"
    and fresh: "pb_conn p = None \<Longrightarrow> pb_conn p' = None \<or> map_option sent (pb_conn p') = Some []"
  shows "\<exists>ms'. streamed p' (lg @ published [e]) ms'"
proof (cases "\<exists>k. e = EvAccept k \<and> pb_conn p = None")
  case True
  then have "pub_step e p = Some ([], p')" "bq_items (pb_queue p') = bq_items (pb_queue p)" "published [e] = []"
    using st by (auto simp: sender_accept_def split: if_splits)
  moreover have "subseq (bq_items (pb_queue p)) lg"
    using ms by (auto simp: streamed_def intro: subseq_order.order_trans[OF list_emb_append2])
  ultimately have "streamed p' (lg @ published [e]) []" using True fresh by (auto simp: streamed_def)
  then show ?thesis by blast
next
  case False
  have sub: "subseq (map fst out @ bq_items (pb_queue p')) (bq_items (pb_queue p) @ published [e])"
    by (rule pub_step_subseq[OF st])
  have "subseq (ms @ map fst out @ bq_items (pb_queue p')) (ms @ bq_items (pb_queue p) @ published [e])"
    by (rule list_emb_append_mono[OF subseq_order.order_refl sub])
  also have "subseq \<dots> (lg @ published [e])"
    using ms list_emb_append_mono[of "(=)" "ms @ bq_items (pb_queue p)" lg "published [e]" "published [e]"]
    by (simp add: streamed_def)
  finally have s1: "subseq ((ms @ map fst out) @ bq_items (pb_queue p')) (lg @ published [e])" by simp
  have "sent k' = concat (map message_bytes (ms @ map fst out))" if k': "pb_conn p' = Some k'" for k'
  proof (cases "\<exists>k. e = EvAccept k")
    case True
    then have "p' = p" "out = []" using st False by (auto simp: sender_accept_def)
    then show ?thesis using ms k' by (simp add: streamed_def)
  next
    case False
    then obtain k where "pb_conn p = Some k" "sent k' = sent k @ concat (map (message_bytes \<circ> fst) out)"
      using pub_step_stream[OF st inv _ k'] by metis
    then show ?thesis using ms by (simp add: streamed_def)
  qed
  then show ?thesis using s1 unfolding streamed_def by blast
qed

text \<open>What a step of the main thread does to the publisher, and to the record of what was published.\<close>

definition log_msgs :: "pipe \<Rightarrow> detection_message list" where
  "log_msgs s = map (\<lambda>(f, m, img). m) (gh_log s)"

lemma main_publishes:
  assumes s: "main_step E inp s = Go s'"
  shows "pi_pub s' = pi_pub s \<and> gh_log s' = gh_log s
    \<or> (\<exists>e out. pub_step e (pi_pub s) = Some (out, pi_pub s') \<and> log_msgs s' = log_msgs s @ published [e]
        \<and> (\<forall>k. e \<noteq> EvAccept k))"
proof (cases "pi_main s")
  case (MCapture c idx)
  from capture_fields[OF main_MCapture[OF s this]] show ?thesis by simp
next
  case (MPublish start r)
  with s obtain us ok where "pub_publish \<lparr>dm_frame_id = ir_frame_id r, dm_timestamp_us = us, dm_group = ir_group r\<rparr> (pi_pub s)
        = Some (ok, pi_pub s')"
    and "log_msgs s' = log_msgs s @ [\<lparr>dm_frame_id = ir_frame_id r, dm_timestamp_us = us, dm_group = ir_group r\<rparr>]"
    by (auto simp: main_defs Let_def log_msgs_def split: main_splits)
  then show ?thesis
    by (intro disjI2 exI[of _ "EvPublish \<lparr>dm_frame_id = ir_frame_id r, dm_timestamp_us = us, dm_group = ir_group r\<rparr>"]
        exI[of _ "[]"]) simp
next
  case MStopPub
  with s show ?thesis
    by (intro disjI2 exI[of _ EvStop] exI[of _ "[]"]) (auto simp: main_defs log_msgs_def)
qed (use s in \<open>auto simp: main_defs perf_def Let_def split: main_splits\<close>)

lemma act_conn:
  assumes "act_step E a s = Go s'" "length (pi_workers s) = 3"
  shows "pb_conn (pi_pub s') = pb_conn (pi_pub s)"
proof (cases a)
  case AMain
  with assms(1) have m: "main_step E input0 s = Go s'" by simp
  show ?thesis
  proof (cases "\<exists>c idx. pi_main s = MCapture c idx")
    case True
    then show ?thesis using capture_fields main_MCapture[OF m] by metis
  next
    case False
    then show ?thesis using m
      by (cases "pi_main s")
        (auto simp: main_defs perf_def pub_publish_def pub_stop_def Let_def split: main_splits)
  qed
next
  case (AWork i)
  then show ?thesis using assms worker_keeps[of E zero_group 0 i s s'] by (auto simp: N_THREADS_def split: if_splits)
next
  case (ACtrl c)
  then obtain c' p where "s' = s\<lparr>pi_ctl := c', pi_ctrl := p\<rparr>" using assms(1) ctrl_frame[of c s s'] by auto
  then show ?thesis by simp
qed

lemma exec_serving:
  assumes E: "env_ok E"
  shows "serving E s \<Longrightarrow> exec E acts s = Some s' \<Longrightarrow> serving E s' \<and> pb_conn (pi_pub s') = pb_conn (pi_pub s)"
proof (induction acts arbitrary: s)
  case (Cons a acts)
  obtain s1 where s1: "act_step E a s = Go s1" "exec E acts s1 = Some s'"
    using Cons.prems(2) by (auto split: turn.splits)
  have "length (pi_workers s) = 3"
    using pipe_invD(9)[OF reachable_inv[OF E serving_reachable[OF Cons.prems(1)]]] by (simp add: inv_sizes_def)
  from act_conn[OF s1(1) this] have c: "pb_conn (pi_pub s1) = pb_conn (pi_pub s)" .
  have "serving E s1" using serving.step[OF Cons.prems(1) act_sys_step[OF s1(1)]] c by simp
  then show ?case using Cons.IH[OF _ s1(2)] c by simp
qed simp

lemma serving_streamed:
  assumes E: "env_ok E" and s: "serving E s"
  shows "\<exists>ms. streamed (pi_pub s) (log_msgs s) ms"
  using s
proof induction
  case (start pub ctrl_ok)
  then have "streamed (pi_pub (pipe_start E pub ctrl_ok)) (log_msgs (pipe_start E pub ctrl_ok)) []"
    by (auto simp: start_pub_def streamed_def pipe_start_def log_msgs_def pub_start_def split: if_splits)
      (simp_all add: pub_new_def bq_new_def)
  then show ?case by blast
next
  case (step s s')
  then obtain ms where ms: "streamed (pi_pub s) (log_msgs s) ms" by blast
  have inv: "pub_inv (pi_pub s)" and len: "length (pi_workers s) = 3"
    using pipe_invD(9,11)[OF reachable_inv[OF E serving_reachable[OF step.hyps(1)]]]
    by (simp_all add: inv_pub_def inv_sizes_def)
  have same: ?case if "pi_pub s' = pi_pub s" "gh_log s' = gh_log s"
    using that ms by (auto simp: log_msgs_def)
  have move: ?case if "pub_step e (pi_pub s) = Some (out, pi_pub s')" "log_msgs s' = log_msgs s @ published [e]" for e out
    using pub_step_streamed[OF that(1) inv ms step.hyps(3)] that(2) by simp
  from step.hyps(2) show ?case
  proof cases
    case (main inp)
    from main_publishes[OF main(2)] show ?thesis using same move by blast
  next
    case (worker i garbage us)
    then show ?thesis using same worker_keeps[OF worker(2)] len by (simp add: N_THREADS_def)
  next
    case (ctrl cin)
    obtain c p where "s' = s\<lparr>pi_ctl := c, pi_ctrl := p\<rparr>" using ctrl_frame[OF ctrl] by metis
    then show ?thesis using same by simp
  next
    case (sender consumer)
    define e where "e = (case consumer of Some k \<Rightarrow> EvAccept k | None \<Rightarrow> EvTurn)"
    obtain out where "pub_step e (pi_pub s) = Some (out, pi_pub s')"
      using sender by (auto simp: sender_step_def e_def split: option.splits)
    moreover have "published [e] = []" by (simp add: e_def split: option.split)
    moreover have "gh_log s' = gh_log s" using sender by (auto simp: sender_step_def split: option.splits)
    ultimately show ?thesis using move[of e out] by (simp add: log_msgs_def)
  qed
qed

section \<open>The frames on the connection\<close>

lemma subseq_map_source:
  assumes "subseq xs (map f ys)"
  shows "\<exists>zs. subseq zs ys \<and> xs = map f zs"
  using assms by (auto simp: subseq_conv_nths nths_map)

lemma logged_frames_distinct:
  assumes "env_ok E" "reachable E s"
  shows "distinct (map fst (gh_log s))"
proof -
  define p where "p = image_mset (\<lambda>i. gh_tag s ! nat i) (slots_out s)
     + mset (map (\<lambda>r. gh_tag s ! nat (ir_buf_idx r)) (main_result (pi_main s)))"
  have "p + mset (map fst (gh_log s) @ gh_drained s) = mset [0..<length (gh_captured s)]"
    using pipe_invD(10)[OF reachable_inv[OF assms]] by (simp add: inv_frames_def p_def add.assoc)
  moreover obtain ps where "mset ps = p" using ex_mset by blast
  ultimately have "mset (ps @ map fst (gh_log s) @ gh_drained s) = mset [0..<length (gh_captured s)]" by simp
  from mset_eq_imp_distinct_iff[OF this] show ?thesis by simp
qed

text \<open>The detections of a frame, as the services receive them.\<close>

definition message_frame :: "detection_message \<Rightarrow> wire_frame_header \<times> wire_detection list" where
  "message_frame m = (frame_header m, message_records m)"

definition group_shows :: "config \<Rightarrow> detect_result_group \<Rightarrow> bool" where
  "group_shows cf g \<longleftrightarrow> (\<exists>r \<in> set (take (nat (dg_count g)) (dg_results g)). class15 (dr_name r) = cf_drone_class cf)"

lemma message_drone: "drone_detected cf (message_frame m) \<longleftrightarrow> group_shows cf (dm_group m)"
  by (auto simp: drone_detected_def message_frame_def message_records_def group_shows_def wire_of_result_def
      class15_class15)

definition small_box :: "detect_result \<Rightarrow> bool" where
  "small_box r \<longleftrightarrow> (\<forall>v \<in> {dr_left r, dr_top r, dr_right r, dr_bottom r}. 0 \<le> sint v \<and> sint v \<le> 2 ^ 22)"

lemma detect_small:
  assumes E: "env_ok E"
  shows "\<forall>r \<in> set (take (nat (dg_count (detect E f))) (dg_results (detect E f))). small_box r"
proof -
  from E obtain label where lab: "pp_labels (labels_loaded E) = [Some label]"
    by (auto simp: env_ok_def labels_loaded_def)
  have d: "en_model_h E \<le> 4096" "en_model_w E \<le> 4096" "ok_ratio (scale_of E)"
    using env_inputs[OF E] by (simp_all add: ok_inputs_def)
  have m: "image_max (en_model_w E) (scale_of E) \<le> 2 ^ 22" "image_max (en_model_h E) (scale_of E) \<le> 2 ^ 22"
    using to_image_eq(4) d by simp_all
  show ?thesis
    using post_process_good[OF env_inputs[OF E] pp_load_start lab, of "en_npu E (model_image E f)" nms_threshold zero_group] m
    by (fastforce simp: detect_def small_box_def)
qed

lemma group_small:
  assumes "env_ok E" "group_ok E f g"
  shows "\<forall>r \<in> set (take (nat (dg_count g)) (dg_results g)). small_box r"
  using assms detect_small[of E f] by (auto simp: group_ok_def) (simp add: zero_group_def)

lemma message_detector_frame:
  assumes E: "env_ok E" and g: "group_ok E f (dm_group m)"
  shows "detector_frame (message_frame m)"
proof -
  have wf: "wf_message m" using group_ok_wf(1)[OF E g] by (simp add: wf_message_def)
  have box: "coords_ok d \<and> box_ok (det_of_wire d)" if d: "d \<in> set (message_records m)" for d
  proof -
    obtain r where r: "r \<in> set (take (nat (dg_count (dm_group m))) (dg_results (dm_group m)))" "d = wire_of_result r"
      using d by (auto simp: message_records_def)
    then have "small_box r" using group_small[OF E g] by blast
    then show ?thesis using r(2) by (simp add: small_box_def wire_of_result_def coords_ok_def box_ok_def det_of_wire_def)
  qed
  have "length (message_records m) \<le> kMaxDetections"
    using wf length_message_records[OF wf]
    by (simp add: wf_message_def wf_group_def OBJ_NUMB_MAX_SIZE_def kMaxDetections_def nat_le_iff)
  then show ?thesis
    using box wf_message_records[OF wf] frame_header_count[OF wf]
    by (simp add: detector_frame_def frame_ok_def message_frame_def list_all_iff)
qed

lemma messages_stream:
  "concat (map message_bytes ms) = stream_of enc_detection sizeof_WireDetectionRecord (map message_frame ms)"
  by (induction ms) (simp_all add: message_bytes_def message_frame_def)

text \<open>What is on a connection of the detector: whole frames, of distinct captured frames.\<close>

definition frame_of_capture :: "env \<Rightarrow> pipe \<Rightarrow> nat \<times> detection_message \<times> image \<Rightarrow> bool" where
  "frame_of_capture E s = (\<lambda>(f, m, img). f < length (gh_captured s) \<and> dm_frame_id m = of_nat f
     \<and> group_ok E (gh_captured s ! f) (dm_group m))"

lemma connection_frames:
  assumes E: "env_ok E" and s: "serving E s" and k: "pb_conn (pi_pub s) = Some k"
  obtains ls where "subseq ls (gh_log s)" "distinct (map fst ls)" "list_all (frame_of_capture E s) ls"
    "list_all detector_frame (map (\<lambda>(f, m, img). message_frame m) ls)"
    "sent k = stream_of enc_detection sizeof_WireDetectionRecord (map (\<lambda>(f, m, img). message_frame m) ls)"
proof -
  note R = serving_reachable[OF s]
  obtain ms where ms: "streamed (pi_pub s) (log_msgs s) ms" using serving_streamed[OF E s] by blast
  have "subseq ms (log_msgs s)"
    using ms subseq_order.order_trans[OF prefix_imp_subseq[OF prefixI[OF refl]]] by (auto simp: streamed_def)
  then obtain ls where ls: "subseq ls (gh_log s)" "ms = map (\<lambda>(f, m, img). m) ls"
    unfolding log_msgs_def by (blast dest: subseq_map_source)
  have "subseq (map fst ls) (map fst (gh_log s))" using ls(1) by (rule subseq_map)
  then have d: "distinct (map fst ls)" using logged_frames_distinct[OF E R] by (auto simp: subseq_conv_nths)
  have fr: "list_all (frame_of_capture E s) ls"
    using pipe_invD(8)[OF reachable_inv[OF E R]] subseq_set_subset[OF ls(1)]
    by (fastforce simp: list_all_iff inv_data_def log_ok_def frame_of_capture_def)
  then have df: "list_all detector_frame (map (\<lambda>(f, m, img). message_frame m) ls)"
    using message_detector_frame[OF E] by (fastforce simp: list_all_iff frame_of_capture_def)
  have "sent k = stream_of enc_detection sizeof_WireDetectionRecord (map (\<lambda>(f, m, img). message_frame m) ls)"
    using ms k messages_stream[of ms] by (simp add: streamed_def ls(2) comp_def case_prod_unfold)
  then show thesis using that ls(1) d fr df by blast
qed

section \<open>From the camera to the language model\<close>

lemma connection_length:
  assumes "list_all detector_frame fs"
  shows "length (stream_of enc_detection sizeof_WireDetectionRecord fs) = 28 * length fs + 36 * total_records fs"
  using det.length_stream[of fs] assms
  by (force simp: list_all_iff detector_frame_def frame_ok_def sizeof_WireDetectionRecord_def)


section \<open>A run\<close>

definition big_sink :: sink where
  "big_sink = \<lparr>sent = [], accepts = replicate 4096 64\<rparr>"

definition first_message :: "env \<Rightarrow> detection_message" where
  "first_message E = \<lparr>dm_frame_id = 0, dm_timestamp_us = 0, dm_group = detect E []\<rparr>"

lemma wf_first_message: "env_ok E \<Longrightarrow> wf_message (first_message E)"
  using detect_any(2)[of E pp_start "[]"] by (simp add: wf_message_def first_message_def)

lemma length_message_bytes:
  assumes "wf_message m"
  shows "length (message_bytes m) \<le> 2332"
proof -
  have "length (message_bytes m) = 28 + 36 * length (message_records m)"
    using det.length_enc_all[of "message_records m"] wf_message_records[OF assms] hdr.length_enc_rec[of "frame_header m"]
    by (simp add: message_bytes_def frame_bytes_def sizeof_WireDetectionRecord_def sizeof_WireFrameHeader_def)
  moreover have "length (message_records m) \<le> 64"
    using assms length_message_records[OF assms]
    by (simp add: wf_message_def wf_group_def OBJ_NUMB_MAX_SIZE_def nat_le_iff)
  ultimately show ?thesis by simp
qed

text \<open>A consumer connects, the first frame is published and sent.\<close>

lemma run_connected:
  assumes E: "env_ok E"
  obtains s k img where "serving E s" "pb_conn (pi_pub s) = Some k" "gh_log s = [(0, first_message E, img)]"
    "sent k = message_bytes (first_message E)"
proof -
  let ?p0 = "pub_start True True True (pub_new 32)" and ?m = "first_message E"
  define p1 where "p1 = ?p0\<lparr>pb_conn := Some big_sink\<rparr>"
  have s0: "serving E (pipe_start E ?p0 True)" by (rule serving.start) (auto simp: start_pub_def)
  have "sender_step (Some big_sink) (pipe_start E ?p0 True) = Go (pipe_start E p1 True)"
    by (simp add: sender_step_def sender_accept_def pub_start_def pub_new_def p1_def) (simp add: pipe_start_def)
  from serving.step[OF s0 sys_step.sender[OF this]] have s1: "serving E (pipe_start E p1 True)"
    by (simp add: pipe_start_def p1_def big_sink_def)
  have pub: "pub_publish ?m p1 = Some (True, p1\<lparr>pb_queue := (pb_queue p1)\<lparr>bq_items := [?m]\<rparr>\<rparr>)"
    by (simp add: pub_publish_def p1_def pub_start_def pub_new_def bq_push_def bq_new_def)
  obtain s2 img where s2: "exec E (prefill @ first_frame) (pipe_start E p1 True) = Some s2"
      "gh_log s2 = [(0, ?m, img)]" "pi_pub s2 = p1\<lparr>pb_queue := (pb_queue p1)\<lparr>bq_items := [?m]\<rparr>\<rparr>"
    by (rule run_first_frame_pub[OF E pub[unfolded first_message_def]]) (auto simp: first_message_def)
  have v2: "serving E s2" using exec_serving[OF E s1 s2(1)] by blast
  note wf = wf_first_message[OF E]
  obtain k where k: "send_frame enc_detection sizeof_WireDetectionRecord (frame_header ?m) (message_records ?m) big_sink = (True, k)"
      "sent k = message_bytes ?m"
    using send_frame_succeeds[of enc_detection sizeof_WireDetectionRecord "frame_header ?m" "message_records ?m" big_sink]
      length_message_bytes[OF wf] by (auto simp: message_bytes_def big_sink_def)
  define s3 where "s3 = s2\<lparr>pi_pub := p1\<lparr>pb_queue := (pb_queue p1)\<lparr>bq_items := []\<rparr>, pb_conn := Some k\<rparr>\<rparr>"
  have "sender_step None s2 = Go s3"
    by (simp add: sender_step_def s2(3) sender_turn_def p1_def pub_start_def pub_new_def bq_pop_def
        sendFrame_send_frame[OF wf] k(1) s3_def)
  from serving.step[OF v2 sys_step.sender[OF this]] have "serving E s3" by (simp add: s2(3) p1_def)
  then show thesis using that[of s3 k img] s2(2) k(2) by (simp add: s3_def)
qed


end
