(* ===== verification/Spec2Isabelle.thy ===== *)
theory Spec2Isabelle
  imports Model_Setup Camera Video_Out Letterbox Output_Types Receivers Wire_Copies Io_Memory Service_Life
    Whole_System
begin

text \<open>
  A verification development for the YOLOv8n UAV detector in \<open>src/yolov8n_cap_multithread\<close> and the
  processes downstream of it. Paths below are relative to that directory. The theories model the
  C++ code; none of the scripts, build files and documents.

  \<^bold>\<open>The program.\<close> Four processes are connected by Unix stream sockets, each plane with one consumer.
  The detector (\<open>src/main.cc\<close>) captures frames, runs the network on three threads, draws the
  detections and publishes them on the data plane; clients pause, black out, resume and stop it
  over the control plane. \<open>bytetrack_service\<close> gives the detections track ids and republishes them
  on the tracks plane. \<open>temporal_service\<close> derives features of each track and publishes them on the
  events plane. \<open>event_summarizer\<close> follows the presence of the drone there and, once it is gone,
  blacks the detectors out over the control plane to run a language model on a snapshot. Three
  small tools print what a plane carries.

  \<^bold>\<open>Foundations.\<close> \<open>Prelude\<close>: types of the machine integers, C strings, collections, lists.
  \<open>IEEE_Float\<close>, \<open>Float_Bits\<close>, \<open>Float_Bounds\<close>, \<open>Float_Sqrt\<close>: \<open>float\<close> and \<open>double\<close> as rationals with
  one correctly rounded result per operation, their object representation, intervals that survive
  rounding, and the correctly rounded root. Integers keep their width where the code's behaviour
  depends on it: \<open>N word\<close> for unsigned types; \<open>int\<close> arithmetic that overflows is undefined behaviour.
  Undefined behaviour is \<open>None\<close> (\<open>Undefined\<close> in the pipeline), and the theorems show it absent or
  reachable.

  \<^bold>\<open>Sockets and planes.\<close> \<open>Wire_Protocol\<close>: the packed structs of \<open>include/ipc/wire_protocol.h\<close> as
  records with little-endian codecs; the locale \<open>record_codec\<close> states what the code relies on of a
  record type, interpreted for detections, tracks, summaries and the header. \<open>Wire_Copies\<close>: the
  declarations of the structs as the tools repeat them, that they read the same values from any bytes.
  \<open>Socket_IO\<close>:
  \<open>readExact\<close> and \<open>writeExact\<close> over a socket given by what its calls will meet (any chunks, time-outs,
  errors), and that the chunking does not matter. \<open>Io_Memory\<close>: every copy of these loops, and of the
  message functions in the control client, on a block of memory with a moving pointer and a 32-bit
  count, implements them; where the blocks of the tools are overrun. \<open>Framing\<close>: the length-prefixed frames and the
  checked receive of the tools. \<open>Bounded_Queue\<close> (\<open>include/ipc/bounded_queue.h\<close>): bounded, in
  order, never undefined. \<open>Data_Plane\<close> (\<open>src/ipc/unix_data_publisher.cc\<close>, \<open>tools/data_receiver.cc\<close>,
  \<open>tools/tracks_receiver.cc\<close>): the publisher and its sender thread, the receive loops, end to end.
  \<open>Unix_Sockets\<close>: below them the descriptors, the names in the file system and what is bound to
  them, with \<open>start\<close> and \<open>stop\<close> of both servers, \<open>bind_output\<close> of the services and the whole of
  \<open>tools/control_client.cc\<close>. The locale \<open>socket_server\<close> has the life cycle, interpreted for both servers:
  no descriptor leaks or is closed twice; one command is followed from the command line to the server and back.

  \<^bold>\<open>Postprocessing\<close> (\<open>src/postprocess.cc\<close>). \<open>Quick_Sort\<close>, \<open>Nms\<close> and \<open>Postprocess\<close>: the in-place
  sort (a \<open>partial_function\<close>, since a NaN makes it run for ever), the suppression with erased
  indices and its equivalence to the greedy selection, the decoding of the three heads with its
  bounds, and \<open>post_process\<close> as a whole: well-formed output, and which candidates it reports.

  \<^bold>\<open>The detector.\<close> \<open>Control\<close> (\<open>include/ipc/yolo_control_state.h\<close>, \<open>src/ipc/unix_control_server.cc\<close>,
  \<open>tools/control_client.cc\<close>): messages, the JSON by string search, commands, a session. \<open>Rga_Draw\<close>
  (\<open>src/rga_func.cc\<close>): the letterbox scale and the software drawing. \<open>Letterbox\<close>: the model buffer pixel
  by pixel, the resized image being the library's. \<open>TS_Queue\<close>: the queues and the
  buffer pool of \<open>src/main.cc\<close>. \<open>Pipeline\<close>: the threads as a step relation on one record, a step
  being one access to what threads share; the program counter of a thread is a datatype.
  \<open>Pipeline_Detect\<close> has the assumptions on drivers and library (\<open>env_ok\<close>), \<open>Pipeline_Data\<close> and
  \<open>Pipeline_Inv\<close> the invariants, \<open>Pipeline_Safety\<close> what they give, \<open>Pipeline_Runs\<close> concrete runs and
  \<open>Pipeline_Correct\<close> the properties: no undefined behaviour, exclusive buffers, every published
  frame with its own detections, accounting of frames, blackouts, progress; and three states it
  reaches although it should not. \<open>Model_Setup\<close>: \<open>main\<close> up to the start of the threads, with
  \<open>src/model_utils.cc\<close> and the answers of the RKNN library as a parameter; it establishes the part of
  \<open>env_ok\<close> that speaks of the model, and the first state of the pipeline. Also there: how the blackout
  closes the descriptors of the NPU.

  \<^bold>\<open>Camera and outputs.\<close> \<open>Camera\<close> (\<open>src/camera_util.cc\<close>): the V4L2 calls against any driver, with the exits
  of the process as a result; captures of a documented driver, and why the close fails. \<open>Video_Out\<close>
  (\<open>src/rtsp_stream.cc\<close>, \<open>src/local_display.cc\<close>): the RTSP output as a step relation of the main thread
  and the callback over the multiset of references held, all accounted for; the life of the display.

  \<^bold>\<open>Tracking.\<close> \<open>Iou_Tracker\<close> and \<open>Tracker_Ids\<close> (\<open>tracker/src/iou_tracker.cc\<close>): the greedy matching is
  stable; an update refines a step on the map from ids to tracks; ids identify objects over any
  run of fewer than 2^32 - 1 detections. \<open>Service\<close>: what the two services share text for text, the
  reconnecting input, the single consumer and the frame loop, over any record types and any
  component behind it. \<open>Bytetrack_Service\<close> (\<open>tracker/src/bytetrack_service.cc\<close>) instantiates it; what
  it needs of a tracker is the locale \<open>object_tracker\<close>, interpreted on the IOU tracker. \<open>Service_Life\<close>:
  both services as processes, the descriptors of \<open>Unix_Sockets\<close> beside the data, from the command
  line to the exit status.

  \<^bold>\<open>Temporal features.\<close> \<open>Track_State\<close> and \<open>Track_Manager\<close> (\<open>temporal/src\<close>): every feature stays in its
  range, region events balance, a frame refines a step on the map from ids to states.
  \<open>Temporal_Service\<close> instantiates \<open>Service\<close> again, parses the command line and models the receive loop of
  \<open>tools/events_receiver.cc\<close>. \<open>Output_Types\<close>: the locale \<open>typed_service\<close>, interpreted for both
  services: whatever bytes they receive, they send typed frames. \<open>Receivers\<close>: the lines the three tools
  print and their \<open>main\<close>; \<open>C_Text\<close> has the conversions of \<open>printf\<close>, \<open>sscanf\<close> and \<open>atoi\<close> they use.

  \<^bold>\<open>The summarizer\<close> (\<open>tools/event_summarizer.cc\<close>). \<open>Event_Summarizer\<close>: command line, receiving,
  aggregation, snapshot text, the state machine, connections; what the process does is a list of
  actions. \<open>Summarizer_Fsm\<close>: a cycle ends an episode and is reached after the cooldown, the cameras
  are blacked out around the command, the aggregate reports its records, the frames received are
  those sent, and the control server understands the commands.

  \<^bold>\<open>The composition.\<close> \<open>System_Chain\<close>: the detector's stream through tracker service, temporal service and
  summarizer. A coupling of the tracker with the track manager carries the class of a detection
  through, the live tracks are at most 31 times 64, and the summarizer is the run of an abstract
  machine over the frames in which the detector reported the drone. \<open>Whole_System\<close> joins it to the
  pipeline: what is on a data connection in any state the detector reaches are frames of distinct
  captured frames with their own detections, and these are what drives the summarizer.

  \<^bold>\<open>Loops and bounds.\<close> Loops are structural recursion over what they consume or have a proved
  measure; the sort is a \<open>partial_function\<close>, shown to return unless a score is NaN. A loop that runs
  until a signal takes a list of what each turn meets, and its end is the signal. There is no fuel.

  \<^bold>\<open>Parameters.\<close> Code outside the repository is an argument: the RGA and RKNN libraries with their
  assumptions in \<open>env_ok\<close> and \<open>rknn_ok\<close>, the V4L2 driver (\<open>documented\<close>), \<open>expf\<close>, \<open>logf\<close>, \<open>cos\<close>, \<open>sin\<close>
  and \<open>atan2\<close>, whose results depend on the C library (where a bound is needed it is a hypothesis on
  them), clocks, dates, and the success of file operations and of the calls that create sockets.

  \<^bold>\<open>Not modelled.\<close> The colour conversions of \<open>src/rga_func.cc\<close> and what GStreamer does with a buffer are
  single calls of libraries. \<open>dump_tensor_attr\<close> only prints; \<open>saveFloat\<close>, \<open>rga_yuyv_to_bgr\<close> and
  \<open>include/drm_func.h\<close> are used by nothing. Not modelled either: thread creation, signal handlers and the
  messages on \<open>stderr\<close> and of progress on \<open>stdout\<close>. The other lines without a definition are comments,
  includes, class declarations and accessors, and the temporal service's own copy of the tracker
  service's \<open>bind_output\<close>, whose text is the same. Floating-point contraction (fused multiply-add) is
  assumed off.
\<close>

end
